(* ===== verification/Prelude.thy ===== *)
theory Prelude
  imports Main "HOL-Library.Word" "HOL-Library.Sublist"
begin

text \<open>
  Shared vocabulary of the development: the widths of the machine integers of the program, the
  collections of rewrite rules that the component theories extend, and generic facts on lists,
  options and words that several components use.
\<close>

type_synonym u8 = "8 word"
type_synonym u32 = "32 word"
type_synonym u64 = "64 word"

type_synonym bytes = "char list"

text \<open>
  The collections: \<open>fmt_simps\<close> for number formatting and parsing, \<open>buf_simps\<close> for fixed size
  buffers, \<open>md5_simps\<close> for the digest, \<open>tok_simps\<close> for the token array of the JSON parser.
\<close>

named_theorems fmt_simps
named_theorems buf_simps
named_theorems md5_simps
named_theorems tok_simps

subsection \<open>Bytes and characters\<close>

definition byte_of :: "char \<Rightarrow> u8" where
  "byte_of c = word_of_nat (of_char c)"

definition char_of_byte :: "u8 \<Rightarrow> char" where
  "char_of_byte b = char_of (unat b)"

lemma of_char_less_256 [simp]: "(of_char c :: nat) < 256"
  by (metis nat_of_char_less_256)

lemma unat_byte_of [simp]: "unat (byte_of c) = of_char c"
  by (simp add: byte_of_def unat_of_nat)

lemma char_of_byte_of [simp]: "char_of_byte (byte_of c) = c"
  by (simp add: char_of_byte_def)

lemma byte_of_char_of_byte [simp]: "byte_of (char_of_byte b) = b"
proof -
  have "unat b < 256" using unsigned_less [of b] by simp
  then show ?thesis
    by (simp add: char_of_byte_def byte_of_def)
qed

lemma byte_of_inject [simp]: "byte_of c = byte_of d \<longleftrightarrow> c = d"
  by (metis char_of_byte_of)

subsection \<open>Lists\<close>

lemma takeWhile_append_id:
  "(\<And>x. x \<in> set xs \<Longrightarrow> P x) \<Longrightarrow> \<not> P y \<Longrightarrow> takeWhile P (xs @ y # ys) = xs"
  by (simp add: takeWhile_append2)

lemma dropWhile_append_id:
  "(\<And>x. x \<in> set xs \<Longrightarrow> P x) \<Longrightarrow> \<not> P y \<Longrightarrow> dropWhile P (xs @ y # ys) = y # ys"
  by (simp add: dropWhile_append2)

lemma take_append_exact [simp]: "n = length xs \<Longrightarrow> take n (xs @ ys) = xs"
  by simp

lemma drop_append_exact [simp]: "n = length xs \<Longrightarrow> drop n (xs @ ys) = ys"
  by simp

lemma nth_append_exact: "i = length xs \<Longrightarrow> (xs @ y # ys) ! i = y"
  by simp

lemma prefix_append_iff:
  "prefix p (a @ b) \<longleftrightarrow> (if length p \<le> length a then prefix p a
     else prefix a p \<and> prefix (drop (length a) p) b)"
proof (cases "length p \<le> length a")
  case True
  then show ?thesis by (auto simp: prefix_def append_eq_append_conv2)
next
  case False
  show ?thesis
  proof
    assume "prefix p (a @ b)"
    then obtain z where z: "a @ b = p @ z" by (auto simp: prefix_def)
    with False obtain q where q: "p = a @ q"
      by (auto simp: append_eq_append_conv2)
    with z have "b = q @ z" by simp
    with q False show "if length p \<le> length a then prefix p a
        else prefix a p \<and> prefix (drop (length a) p) b" by simp
  next
    assume "if length p \<le> length a then prefix p a
        else prefix a p \<and> prefix (drop (length a) p) b"
    with False show "prefix p (a @ b)" by (auto simp: prefix_def)
  qed
qed

end
