(* ===== verification/C_Lib.thy ===== *)
theory C_Lib
  imports Prelude
begin

text \<open>
  The parts of the C standard library that the program calls: NUL terminated strings, searching
  (\<open>strstr\<close>, \<open>strchr\<close>), case-insensitive comparison (\<open>strncasecmp\<close>), bounded printing
  (\<open>snprintf\<close>) with the decimal conversions, and \<open>strtol\<close>/\<open>strtoll\<close> in base 10.
  A C string is a \<^typ>\<open>string\<close> without its terminator; a byte buffer is a \<^typ>\<open>bytes\<close>, and
  \<open>c_str\<close> reads the C string that starts at its first byte.
  A position returned by a search is an index; the C code computes the same number as a
  difference of two pointers.
\<close>

subsection \<open>Definitions\<close>

definition c_str :: "bytes \<Rightarrow> string" where
  "c_str b = takeWhile (\<lambda>c. c \<noteq> CHR 0x00) b"

fun strstr :: "string \<Rightarrow> string \<Rightarrow> nat option" where
  "strstr [] pat = (if pat = [] then Some 0 else None)"
| "strstr (c # s) pat =
     (if prefix pat (c # s) then Some 0 else map_option Suc (strstr s pat))"

fun strchr :: "string \<Rightarrow> char \<Rightarrow> nat option" where
  "strchr [] c = None"
| "strchr (x # s) c = (if x = c then Some 0 else map_option Suc (strchr s c))"

definition tolower :: "char \<Rightarrow> char" where
  "tolower c = (let n = (of_char c :: nat) in if 65 \<le> n \<and> n \<le> 90 then char_of (n + 32) else c)"

text \<open>\<open>strncaseeq a b n\<close> is the test \<open>strncasecmp(a, b, n) == 0\<close>.\<close>

definition strncaseeq :: "string \<Rightarrow> string \<Rightarrow> nat \<Rightarrow> bool" where
  "strncaseeq a b n \<longleftrightarrow> map tolower (take n a) = map tolower (take n b)"

text \<open>
  \<open>snprintf(buf, n, ...)\<close> with the formatted text \<open>s\<close>: the string left in a buffer of
  \<open>n > 0\<close> bytes, and the returned length.
\<close>

definition snprintf :: "nat \<Rightarrow> string \<Rightarrow> string \<times> nat" where
  "snprintf n s = (take (n - 1) s, length s)"

definition is_digit :: "char \<Rightarrow> bool" where
  "is_digit c \<longleftrightarrow> 48 \<le> (of_char c :: nat) \<and> (of_char c :: nat) \<le> 57"

definition is_space :: "char \<Rightarrow> bool" where
  "is_space c \<longleftrightarrow> (of_char c :: nat) = 32 \<or> 9 \<le> (of_char c :: nat) \<and> (of_char c :: nat) \<le> 13"

definition digit_char :: "nat \<Rightarrow> char" where
  "digit_char n = char_of (48 + n)"

definition digit_val :: "char \<Rightarrow> nat" where
  "digit_val c = of_char c - 48"

fun show_nat :: "nat \<Rightarrow> string" where
  "show_nat n = (if n < 10 then [digit_char n] else show_nat (n div 10) @ [digit_char (n mod 10)])"

declare show_nat.simps [simp del]

definition show_int :: "int \<Rightarrow> string" where
  "show_int i = (if i < 0 then CHR ''-'' # show_nat (nat (- i)) else show_nat (nat i))"

definition dec_val :: "string \<Rightarrow> nat" where
  "dec_val ds = foldl (\<lambda>a c. 10 * a + digit_val c) 0 ds"

text \<open>
  \<open>strtol\<close> in base 10 with the bounds of its result type: the value, clamped to the bounds, and
  the index of the first character that is not part of the number (0 where there is no number).
\<close>

definition strtol10 :: "int \<Rightarrow> int \<Rightarrow> string \<Rightarrow> int \<times> nat" where
  "strtol10 lo hi s =
     (let w = takeWhile is_space s; t = dropWhile is_space s;
          neg = (t \<noteq> [] \<and> hd t = CHR ''-'');
          signed = (t \<noteq> [] \<and> (hd t = CHR ''-'' \<or> hd t = CHR ''+''));
          ds = takeWhile is_digit (if signed then tl t else t);
          v = int (dec_val ds)
      in if ds = [] then (0, 0)
         else (max lo (min hi (if neg then - v else v)),
               length w + (if signed then 1 else 0) + length ds))"

definition LONG_MIN :: int where "LONG_MIN = - (2 ^ 63)"
definition LONG_MAX :: int where "LONG_MAX = 2 ^ 63 - 1"

text \<open>\<open>long\<close> and \<open>long long\<close> both have 64 bits on the platforms of the program.\<close>

definition strtol :: "string \<Rightarrow> int \<times> nat" where
  "strtol s = strtol10 LONG_MIN LONG_MAX s"

definition strtoll :: "string \<Rightarrow> int \<times> nat" where
  "strtoll s = strtol10 LONG_MIN LONG_MAX s"

text \<open>The values of \<open>errno.h\<close> on Linux.\<close>

definition EINTR :: int where "EINTR = 4"
definition EIO :: int where "EIO = 5"
definition ENOMEM :: int where "ENOMEM = 12"
definition EINVAL :: int where "EINVAL = 22"
definition ENAMETOOLONG :: int where "ENAMETOOLONG = 36"
definition ENOSYS :: int where "ENOSYS = 38"
definition ENOBUFS :: int where "ENOBUFS = 105"

record timespec =
  tv_sec :: int
  tv_nsec :: int

subsection \<open>C strings and searches\<close>

lemma c_str_no_nul: "CHR 0x00 \<notin> set (c_str b)"
  by (auto simp: c_str_def dest: set_takeWhileD)

lemma c_str_id [simp]: "CHR 0x00 \<notin> set s \<Longrightarrow> c_str s = s"
  by (auto simp: c_str_def takeWhile_eq_all_conv)

lemma c_str_append_nul: "CHR 0x00 \<notin> set s \<Longrightarrow> c_str (s @ CHR 0x00 # r) = s"
  unfolding c_str_def by (rule takeWhile_append_id) auto

lemma strstr_Nil_pat [simp]: "strstr s [] = Some 0"
  by (cases s) auto

lemma strstr_SomeD:
  "strstr s p = Some i \<Longrightarrow> i + length p \<le> length s \<and> prefix p (drop i s)"
  by (induction s p arbitrary: i rule: strstr.induct)
    (auto split: if_splits dest!: prefix_length_le)

lemma strstr_Some_first:
  "strstr s p = Some i \<Longrightarrow> j < i \<Longrightarrow> \<not> prefix p (drop j s)"
proof (induction s p arbitrary: i j rule: strstr.induct)
  case (1 p)
  then show ?case by (auto split: if_splits)
next
  case (2 c s p)
  show ?case
  proof (cases "prefix p (c # s)")
    case True
    with 2 show ?thesis by simp
  next
    case False
    with 2 obtain k where k: "strstr s p = Some k" "i = Suc k" by auto
    with 2 False show ?thesis by (cases j) auto
  qed
qed

lemma strstr_NoneD: "strstr s p = None \<Longrightarrow> \<not> prefix p (drop j s)"
proof (induction s p arbitrary: j rule: strstr.induct)
  case (1 p)
  then show ?case by (auto split: if_splits)
next
  case (2 c s p)
  then show ?case by (cases j) (auto split: if_splits)
qed

lemma strstr_eqI:
  assumes "prefix p (drop i s)" "\<And>j. j < i \<Longrightarrow> \<not> prefix p (drop j s)"
  shows "strstr s p = Some i"
proof (cases "strstr s p")
  case None
  with assms(1) show ?thesis using strstr_NoneD by blast
next
  case (Some k)
  have "\<not> k < i" using assms(2) strstr_SomeD [OF Some] by blast
  moreover have "\<not> i < k" using assms(1) strstr_Some_first [OF Some] by blast
  ultimately show ?thesis using Some by simp
qed

lemma strstr_NoneI: "(\<And>j. \<not> prefix p (drop j s)) \<Longrightarrow> strstr s p = None"
  by (cases "strstr s p") (auto dest: strstr_SomeD)

lemma strstr_None_iff: "strstr s p = None \<longleftrightarrow> \<not> sublist p s"
proof
  assume none: "strstr s p = None"
  show "\<not> sublist p s"
  proof
    assume "sublist p s"
    then obtain a b where s: "s = a @ p @ b" by (auto simp: sublist_def)
    have "prefix p (drop (length a) s)" by (simp add: s)
    then show False using strstr_NoneD [OF none] by blast
  qed
next
  assume "\<not> sublist p s"
  then show "strstr s p = None"
    by (intro strstr_NoneI) (metis append_take_drop_id prefix_def sublist_appendI)
qed

lemma strstr_append_first:
  assumes "\<And>j. j < length a \<Longrightarrow> \<not> prefix p (drop j a @ b)" "prefix p b"
  shows "strstr (a @ b) p = Some (length a)"
  using assms by (intro strstr_eqI) auto

lemma strchr_None_iff: "strchr s c = None \<longleftrightarrow> c \<notin> set s"
  by (induction s) auto

lemma strchr_append [simp]: "c \<notin> set a \<Longrightarrow> strchr (a @ c # b) c = Some (length a)"
  by (induction a) auto

lemma strchr_SomeD: "strchr s c = Some i \<Longrightarrow> i < length s \<and> s ! i = c \<and> c \<notin> set (take i s)"
proof (induction s arbitrary: i)
  case (Cons x s)
  then show ?case by (cases i) (auto split: if_splits)
qed simp

subsection \<open>Decimal numbers\<close>

lemma is_digit_digit_char [simp]: "n < 10 \<Longrightarrow> is_digit (digit_char n)"
  by (simp add: is_digit_def digit_char_def)

lemma digit_val_digit_char [simp]: "n < 10 \<Longrightarrow> digit_val (digit_char n) = n"
  by (simp add: digit_val_def digit_char_def)

lemma show_nat_digits: "c \<in> set (show_nat n) \<Longrightarrow> is_digit c"
proof (induction n rule: show_nat.induct)
  case (1 n)
  then show ?case
    by (subst (asm) (2) show_nat.simps) (auto split: if_splits)
qed

lemma show_nat_nonempty [simp]: "show_nat n \<noteq> []"
  by (subst show_nat.simps) simp

lemma dec_val_snoc: "dec_val (ds @ [c]) = 10 * dec_val ds + digit_val c"
  by (simp add: dec_val_def)

lemma dec_val_show_nat [fmt_simps]: "dec_val (show_nat n) = n"
proof (induction n rule: show_nat.induct)
  case (1 n)
  show ?case
  proof (cases "n < 10")
    case True
    then show ?thesis by (subst show_nat.simps) (simp add: dec_val_def)
  next
    case False
    with 1 have "dec_val (show_nat (n div 10)) = n div 10" by simp
    with False show ?thesis by (subst show_nat.simps) (simp add: dec_val_snoc)
  qed
qed

lemma length_show_nat_le: "n < 10 ^ k \<Longrightarrow> 0 < k \<Longrightarrow> length (show_nat n) \<le> k"
proof (induction k arbitrary: n)
  case (Suc k)
  show ?case
  proof (cases "n < 10")
    case True
    then show ?thesis by (subst show_nat.simps) simp
  next
    case False
    with Suc.prems have "0 < k" by (cases k) auto
    moreover from Suc.prems have "n div 10 < 10 ^ k" by (simp add: less_mult_imp_div_less)
    ultimately have "length (show_nat (n div 10)) \<le> k" using Suc.IH by simp
    with False show ?thesis by (subst show_nat.simps) simp
  qed
qed simp

lemma digit_not_special:
  "is_digit c \<Longrightarrow> \<not> is_space c \<and> c \<noteq> CHR ''-'' \<and> c \<noteq> CHR ''+''"
  by (auto simp: is_digit_def is_space_def)

lemma takeWhile_show_nat:
  assumes "r = [] \<or> \<not> is_digit (hd r)"
  shows "takeWhile is_digit (show_nat n @ r) = show_nat n"
  using assms by (cases r) (auto simp: takeWhile_append2 takeWhile_eq_all_conv show_nat_digits)

lemma hd_show_nat: "is_digit (hd (show_nat n))"
  by (meson hd_in_set show_nat_digits show_nat_nonempty)

lemma takeWhile_not_hd: "(xs = [] \<or> \<not> P (hd xs)) \<Longrightarrow> takeWhile P xs = [] \<and> dropWhile P xs = xs"
  by (cases xs) auto

theorem strtol10_show_int [fmt_simps]:
  assumes "lo \<le> i" "i \<le> hi" "r = [] \<or> \<not> is_digit (hd r)"
  shows "strtol10 lo hi (show_int i @ r) = (i, length (show_int i))"
proof (cases "i < 0")
  case True
  have "\<not> is_space CHR ''-''" by (simp add: is_space_def)
  with True assms show ?thesis
    by (auto simp: strtol10_def Let_def show_int_def takeWhile_show_nat dec_val_show_nat)
next
  case False
  let ?t = "show_nat (nat i) @ r"
  have hd: "is_digit (hd ?t)" using hd_show_nat by simp
  then have nws: "takeWhile is_space ?t = [] \<and> dropWhile is_space ?t = ?t"
    by (intro takeWhile_not_hd) (auto dest: digit_not_special)
  have sgn: "hd ?t \<noteq> CHR ''-'' \<and> hd ?t \<noteq> CHR ''+''" using hd by (simp add: digit_not_special)
  from False assms nws sgn show ?thesis
    by (simp add: strtol10_def Let_def show_int_def takeWhile_show_nat dec_val_show_nat)
qed

lemma strtoll_show_int [fmt_simps]:
  "LONG_MIN \<le> i \<Longrightarrow> i \<le> LONG_MAX \<Longrightarrow> r = [] \<or> \<not> is_digit (hd r) \<Longrightarrow>
   strtoll (show_int i @ r) = (i, length (show_int i))"
  unfolding strtoll_def by (rule strtol10_show_int)

lemma strtol_show_int [fmt_simps]:
  "LONG_MIN \<le> i \<Longrightarrow> i \<le> LONG_MAX \<Longrightarrow> r = [] \<or> \<not> is_digit (hd r) \<Longrightarrow>
   strtol (show_int i @ r) = (i, length (show_int i))"
  unfolding strtol_def by (rule strtol10_show_int)

lemma length_show_int_le: "LONG_MIN \<le> i \<Longrightarrow> i \<le> LONG_MAX \<Longrightarrow> length (show_int i) \<le> 20"
proof -
  assume "LONG_MIN \<le> i" "i \<le> LONG_MAX"
  then have "nat (- i) < 10 ^ 19" "nat i < 10 ^ 19"
    by (simp_all add: LONG_MIN_def LONG_MAX_def)
  then have "length (show_nat (nat (- i))) \<le> 19" "length (show_nat (nat i)) \<le> 19"
    by (auto intro: length_show_nat_le)
  then show ?thesis by (simp add: show_int_def)
qed

lemma show_int_chars: "c \<in> set (show_int i) \<Longrightarrow> is_digit c \<or> c = CHR ''-''"
  by (auto simp: show_int_def dest: show_nat_digits split: if_splits)

end
