(* ===== verification/Jsmn.thy ===== *)
theory Jsmn
  imports C_Lib
begin

text \<open>
  The JSON tokenizer \<open>third_party/jsmn.h\<close> on which the client's parsing rests. The token array is
  a list that stands for the whole C array, so its length is the capacity the caller allocated,
  which is not the \<open>num_tokens\<close> passed to the parser. A write behind the end of the array is the
  result \<open>JOverflow\<close>. Positions are natural numbers, since the responses are far shorter than
  \<open>2^31\<close> bytes. The second half gives a parser on growing lists of tokens,
  \<open>tok_run\<close>, and proves that the array parser refines it; the client's lemmas rest on \<open>tok_run\<close>.
\<close>

subsection \<open>Definitions\<close>

datatype jsmntype = JSMN_UNDEFINED | JSMN_OBJECT | JSMN_ARRAY | JSMN_STRING | JSMN_PRIMITIVE

datatype jsmnerr = JSMN_ERROR_NOMEM | JSMN_ERROR_INVAL | JSMN_ERROR_PART

record jsmntok =
  tok_type :: jsmntype
  tok_start :: int
  tok_end :: int
  tok_size :: int
  tok_parent :: int

record jsmn_parser =
  pos :: nat
  toknext :: nat
  toksuper :: int

datatype 'a jres = JOk 'a | JErr jsmnerr | JOverflow

definition jsmn_init :: jsmn_parser where
  "jsmn_init = \<lparr>pos = 0, toknext = 0, toksuper = -1\<rparr>"

text \<open>The new token is at the old \<open>toknext\<close>.\<close>

definition jsmn_alloc_token ::
  "jsmn_parser \<Rightarrow> jsmntok list \<Rightarrow> nat \<Rightarrow> (jsmn_parser \<times> jsmntok list) jres" where
  "jsmn_alloc_token parser tokens num_tokens =
     (let i = toknext parser
      in if i \<ge> num_tokens then JErr JSMN_ERROR_NOMEM
         else if i \<ge> length tokens then JOverflow
         else JOk (parser\<lparr>toknext := i + 1\<rparr>,
           tokens[i := (tokens ! i)\<lparr>tok_start := -1, tok_end := -1, tok_size := 0, tok_parent := -1\<rparr>]))"

definition jsmn_fill_token :: "jsmntok \<Rightarrow> jsmntype \<Rightarrow> nat \<Rightarrow> nat \<Rightarrow> jsmntok" where
  "jsmn_fill_token token ty s e =
     token\<lparr>tok_type := ty, tok_start := int s, tok_end := int e, tok_size := 0\<rparr>"

text \<open>
  The characters a primitive extends over, from the text at \<open>pos\<close> on; \<open>None\<close> for a character
  outside printable ASCII (\<open>char\<close> is signed, so bytes from 128 on are below 32).
\<close>

fun prim_scan :: "string \<Rightarrow> nat option" where
  "prim_scan [] = Some 0"
| "prim_scan (c # s) =
     (if c = CHR 0x09 \<or> c = CHR 0x0D \<or> c = CHR 0x0A \<or> c = CHR '' '' \<or> c = CHR '','' \<or>
         c = CHR '']'' \<or> c = CHR ''}'' then Some 0
      else if (of_char c :: nat) < 32 \<or> (of_char c :: nat) \<ge> 127 then None
      else map_option Suc (prim_scan s))"

definition jsmn_parse_primitive ::
  "jsmn_parser \<Rightarrow> string \<Rightarrow> jsmntok list \<Rightarrow> nat \<Rightarrow> (jsmn_parser \<times> jsmntok list) jres" where
  "jsmn_parse_primitive parser js tokens num_tokens =
     (let start = pos parser
      in case prim_scan (drop start js) of
           None \<Rightarrow> JErr JSMN_ERROR_INVAL
         | Some k \<Rightarrow>
             (case jsmn_alloc_token (parser\<lparr>pos := start + k\<rparr>) tokens num_tokens of
                JOk (parser', tokens') \<Rightarrow>
                  (let i = toknext parser;
                       token = (jsmn_fill_token (tokens' ! i) JSMN_PRIMITIVE start (pos parser'))
                                 \<lparr>tok_parent := toksuper parser'\<rparr>
                   in JOk (parser'\<lparr>pos := pos parser' - 1\<rparr>, tokens'[i := token]))
              | r \<Rightarrow> r))"

text \<open>The number of characters up to the closing quote, from the text behind the opening quote on.\<close>

definition simple_escape :: "char \<Rightarrow> bool" where
  "simple_escape e \<longleftrightarrow>
     e \<in> {CHR 0x22, CHR ''/'', CHR 0x5C, CHR ''b'', CHR ''f'', CHR ''r'', CHR ''n'', CHR ''t''}"

fun str_scan :: "string \<Rightarrow> jsmnerr + nat" where
  "str_scan [] = Inl JSMN_ERROR_PART"
| "str_scan (c # s) =
     (if c = CHR 0x22 then Inr 0
      else if c = CHR 0x5C \<and> s \<noteq> [] then
        (let e = hd s
         in if simple_escape e
            then map_sum id (\<lambda>k. k + 2) (str_scan (tl s))
            else if e = CHR ''u'' then map_sum id (\<lambda>k. k + 6) (str_scan (drop 5 s))
            else Inl JSMN_ERROR_INVAL)
      else map_sum id Suc (str_scan s))"

definition jsmn_parse_string ::
  "jsmn_parser \<Rightarrow> string \<Rightarrow> jsmntok list \<Rightarrow> nat \<Rightarrow> (jsmn_parser \<times> jsmntok list) jres" where
  "jsmn_parse_string parser js tokens num_tokens =
     (let start = pos parser
      in case str_scan (drop (start + 1) js) of
           Inl e \<Rightarrow> JErr e
         | Inr k \<Rightarrow>
             (case jsmn_alloc_token (parser\<lparr>pos := start + 1 + k\<rparr>) tokens num_tokens of
                JOk (parser', tokens') \<Rightarrow>
                  (let i = toknext parser;
                       token = (jsmn_fill_token (tokens' ! i) JSMN_STRING (start + 1) (pos parser'))
                                 \<lparr>tok_parent := toksuper parser'\<rparr>
                   in JOk (parser', tokens'[i := token]))
              | r \<Rightarrow> r))"

definition tok_open :: "jsmntok \<Rightarrow> bool" where
  "tok_open t \<longleftrightarrow> tok_start t \<noteq> -1 \<and> tok_end t = -1"

text \<open>The loop \<open>for (i = toknext - 1; i >= 0; i--)\<close> up to the first token that is still open.\<close>

fun find_open :: "jsmntok list \<Rightarrow> nat \<Rightarrow> nat option" where
  "find_open tokens 0 = None"
| "find_open tokens (Suc i) = (if tok_open (tokens ! i) then Some i else find_open tokens i)"

text \<open>\<open>if (parser->toksuper != -1) tokens[parser->toksuper].size++\<close>\<close>

definition bump_super :: "int \<Rightarrow> jsmntok list \<Rightarrow> jsmntok list" where
  "bump_super super tokens =
     (if super \<noteq> -1 then tokens[nat super := (tokens ! nat super)\<lparr>tok_size := tok_size (tokens ! nat super) + 1\<rparr>]
      else tokens)"

definition map_jres :: "('a \<Rightarrow> 'b) \<Rightarrow> 'a jres \<Rightarrow> 'b jres" where
  "map_jres f r = (case r of JOk x \<Rightarrow> JOk (f x) | JErr e \<Rightarrow> JErr e | JOverflow \<Rightarrow> JOverflow)"

text \<open>The body of the main loop: the \<open>switch\<close> on the character \<open>c\<close> at \<open>pos\<close>.\<close>

definition jsmn_switch ::
  "char \<Rightarrow> jsmn_parser \<Rightarrow> string \<Rightarrow> jsmntok list \<Rightarrow> nat \<Rightarrow> (jsmn_parser \<times> jsmntok list) jres" where
  "jsmn_switch c parser js tokens num_tokens =
     (if c = CHR ''{'' \<or> c = CHR ''['' then
        (case jsmn_alloc_token parser tokens num_tokens of
           JOk (parser', tokens') \<Rightarrow>
             (let i = toknext parser;
                  tokens'' = bump_super (toksuper parser') tokens';
                  token = (tokens'' ! i)\<lparr>
                    tok_parent := (if toksuper parser' \<noteq> -1 then toksuper parser' else tok_parent (tokens'' ! i)),
                    tok_type := (if c = CHR ''{'' then JSMN_OBJECT else JSMN_ARRAY),
                    tok_start := int (pos parser')\<rparr>
              in JOk (parser'\<lparr>toksuper := int (toknext parser') - 1\<rparr>, tokens''[i := token]))
         | r \<Rightarrow> r)
      else if c = CHR ''}'' \<or> c = CHR '']'' then
        (case find_open tokens (toknext parser) of
           None \<Rightarrow> JErr JSMN_ERROR_INVAL
         | Some i \<Rightarrow>
             (let token = tokens ! i
              in if tok_type token = JSMN_OBJECT \<and> c = CHR ''}'' \<or> tok_type token = JSMN_ARRAY \<and> c = CHR '']''
                 then JOk (parser\<lparr>toksuper := tok_parent token\<rparr>,
                        tokens[i := token\<lparr>tok_end := int (pos parser) + 1\<rparr>])
                 else JErr JSMN_ERROR_INVAL))
      else if c = CHR 0x22 then
        map_jres (\<lambda>(p, t). (p, bump_super (toksuper p) t)) (jsmn_parse_string parser js tokens num_tokens)
      else if c = CHR 0x09 \<or> c = CHR 0x0D \<or> c = CHR 0x0A \<or> c = CHR '' '' \<or> c = CHR '':'' \<or> c = CHR '',''
        then JOk (parser, tokens)
      else
        map_jres (\<lambda>(p, t). (p, bump_super (toksuper p) t)) (jsmn_parse_primitive parser js tokens num_tokens))"

lemma jsmn_alloc_pos:
  "jsmn_alloc_token p t n = JOk (p', t') \<Longrightarrow> pos p' = pos p"
  by (auto simp: jsmn_alloc_token_def Let_def split: if_splits)

lemma prim_scan_pos:
  "prim_scan (c # s) = Some k \<Longrightarrow> c \<noteq> CHR 0x09 \<Longrightarrow> c \<noteq> CHR 0x0D \<Longrightarrow> c \<noteq> CHR 0x0A \<Longrightarrow> c \<noteq> CHR '' '' \<Longrightarrow>
   c \<noteq> CHR '','' \<Longrightarrow> c \<noteq> CHR '']'' \<Longrightarrow> c \<noteq> CHR ''}'' \<Longrightarrow> 0 < k"
  by (auto split: if_splits)

lemma jsmn_switch_pos:
  assumes "jsmn_switch (js ! pos p) p js t n = JOk (p', t')" "pos p < length js"
  shows "pos p \<le> pos p'"
proof -
  have "prim_scan (drop (pos p) js) = prim_scan ((js ! pos p) # drop (Suc (pos p)) js)"
    using assms(2) by (simp add: Cons_nth_drop_Suc)
  with assms(1) show ?thesis
    by (auto simp: jsmn_switch_def map_jres_def jsmn_parse_string_def jsmn_parse_primitive_def Let_def
        split: if_splits jres.splits prod.splits option.splits sum.splits
        dest!: jsmn_alloc_pos prim_scan_pos)
qed

function jsmn_parse :: "jsmn_parser \<Rightarrow> string \<Rightarrow> jsmntok list \<Rightarrow> nat \<Rightarrow> (nat \<times> jsmntok list) jres" where
  "jsmn_parse parser js tokens num_tokens =
     (if pos parser < length js then
        (case jsmn_switch (js ! pos parser) parser js tokens num_tokens of
           JOk (parser', tokens') \<Rightarrow> jsmn_parse (parser'\<lparr>pos := pos parser' + 1\<rparr>) js tokens' num_tokens
         | JErr e \<Rightarrow> JErr e
         | JOverflow \<Rightarrow> JOverflow)
      else if find_open tokens (toknext parser) \<noteq> None then JErr JSMN_ERROR_PART
      else JOk (toknext parser, tokens))"
  by pat_completeness auto
termination
proof (relation "measure (\<lambda>(p, js, t, n). length js - pos p)")
  fix parser js tokens num_tokens x parser' tokens'
  assume "pos parser < length js"
    and "jsmn_switch (js ! pos parser) parser js tokens num_tokens = JOk x"
    and "(parser', tokens') = x"
  then show "((parser'\<lparr>pos := pos parser' + 1\<rparr>, js, tokens', num_tokens), parser, js, tokens, num_tokens)
      \<in> measure (\<lambda>(p, js, t, n). length js - pos p)"
    using jsmn_switch_pos [of js parser tokens num_tokens parser' tokens'] by auto
qed simp

declare jsmn_parse.simps [simp del]

subsection \<open>The parser on lists of tokens\<close>

definition mk_tok :: "jsmntype \<Rightarrow> nat \<Rightarrow> int \<Rightarrow> int \<Rightarrow> int \<Rightarrow> jsmntok" where
  "mk_tok ty s e sz par = \<lparr>tok_type = ty, tok_start = int s, tok_end = e, tok_size = sz, tok_parent = par\<rparr>"

text \<open>
  One iteration at the text \<open>c # r\<close> in position \<open>p\<close>, with the innermost open token \<open>super\<close> and the
  tokens \<open>toks\<close>: the number of characters consumed, the new \<open>super\<close> and the new tokens.
\<close>

definition tok_switch ::
  "nat \<Rightarrow> char \<Rightarrow> string \<Rightarrow> nat \<Rightarrow> int \<Rightarrow> jsmntok list \<Rightarrow> (nat \<times> int \<times> jsmntok list) jres" where
  "tok_switch num c r p super toks =
     (if c = CHR ''{'' \<or> c = CHR ''['' then
        (if num \<le> length toks then JErr JSMN_ERROR_NOMEM
         else JOk (1, int (length toks), bump_super super toks @
           [mk_tok (if c = CHR ''{'' then JSMN_OBJECT else JSMN_ARRAY) p (-1) 0 super]))
      else if c = CHR ''}'' \<or> c = CHR '']'' then
        (case find_open toks (length toks) of
           None \<Rightarrow> JErr JSMN_ERROR_INVAL
         | Some i \<Rightarrow>
             (let token = toks ! i
              in if tok_type token = JSMN_OBJECT \<and> c = CHR ''}'' \<or> tok_type token = JSMN_ARRAY \<and> c = CHR '']''
                 then JOk (1, tok_parent token, toks[i := token\<lparr>tok_end := int p + 1\<rparr>])
                 else JErr JSMN_ERROR_INVAL))
      else if c = CHR 0x22 then
        (case str_scan r of
           Inl e \<Rightarrow> JErr e
         | Inr k \<Rightarrow> if num \<le> length toks then JErr JSMN_ERROR_NOMEM
             else JOk (k + 2, super, bump_super super (toks @ [mk_tok JSMN_STRING (p + 1) (int (p + 1 + k)) 0 super])))
      else if c = CHR 0x09 \<or> c = CHR 0x0D \<or> c = CHR 0x0A \<or> c = CHR '' '' \<or> c = CHR '':'' \<or> c = CHR '',''
        then JOk (1, super, toks)
      else
        (case prim_scan (c # r) of
           None \<Rightarrow> JErr JSMN_ERROR_INVAL
         | Some k \<Rightarrow> if num \<le> length toks then JErr JSMN_ERROR_NOMEM
             else JOk (k, super, bump_super super (toks @ [mk_tok JSMN_PRIMITIVE p (int (p + k)) 0 super]))))"

lemma tok_switch_progress: "tok_switch num c r p super toks = JOk (k, super', toks') \<Longrightarrow> 0 < k"
  by (auto simp: tok_switch_def Let_def split: if_splits option.splits sum.splits dest: prim_scan_pos)

function tok_run :: "nat \<Rightarrow> string \<Rightarrow> nat \<Rightarrow> int \<Rightarrow> jsmntok list \<Rightarrow> jsmntok list jres" where
  "tok_run num s p super toks =
     (case s of
        [] \<Rightarrow> if find_open toks (length toks) \<noteq> None then JErr JSMN_ERROR_PART else JOk toks
      | c # r \<Rightarrow>
          (case tok_switch num c r p super toks of
             JOk (k, super', toks') \<Rightarrow> tok_run num (drop k s) (p + k) super' toks'
           | JErr e \<Rightarrow> JErr e
           | JOverflow \<Rightarrow> JOverflow))"
  by pat_completeness auto
termination
proof (relation "measure (\<lambda>(num, s, p, super, toks). length s)")
  fix num :: nat and s p super toks c r x k y super' toks'
  assume "s = c # r" "tok_switch num c r p super toks = JOk x" "(k, y) = x" "(super', toks') = y"
  then show "((num, drop k s, p + k, super', toks'), num, s, p, super, toks)
      \<in> measure (\<lambda>(num, s, p, super, toks). length s)"
    using tok_switch_progress [of num c r p super toks k super' toks'] by auto
qed simp

declare tok_run.simps [simp del]

text \<open>The invariant of the list of tokens: the parent of a token is an earlier token.\<close>

definition tok_wf :: "jsmntok list \<Rightarrow> int \<Rightarrow> bool" where
  "tok_wf toks super \<longleftrightarrow> -1 \<le> super \<and> super < int (length toks) \<and>
     (\<forall>i < length toks. -1 \<le> tok_parent (toks ! i) \<and> tok_parent (toks ! i) < int i)"

lemma find_open_SomeD: "find_open t n = Some i \<Longrightarrow> i < n \<and> tok_open (t ! i)"
  by (induction n) (auto split: if_splits)

lemma find_open_NoneD: "find_open t n = None \<Longrightarrow> i < n \<Longrightarrow> \<not> tok_open (t ! i)"
  by (induction n) (auto split: if_splits simp: less_Suc_eq)

lemma find_open_take [simp]: "n \<le> m \<Longrightarrow> find_open (take m t) n = find_open t n"
  by (induction n) auto

lemma length_bump_super [simp]: "length (bump_super super t) = length t"
  by (simp add: bump_super_def)

lemma bump_super_nth:
  "bump_super super t ! i =
     (if super \<noteq> -1 \<and> i = nat super \<and> i < length t then (t ! i)\<lparr>tok_size := tok_size (t ! i) + 1\<rparr> else t ! i)"
  by (cases "nat super < length t") (auto simp: bump_super_def nth_list_update list_update_beyond)

lemma bump_super_sel [simp]:
  "tok_parent (bump_super super t ! i) = tok_parent (t ! i)"
  "tok_start (bump_super super t ! i) = tok_start (t ! i)"
  "tok_end (bump_super super t ! i) = tok_end (t ! i)"
  "tok_type (bump_super super t ! i) = tok_type (t ! i)"
  by (simp_all add: bump_super_nth)

lemma bump_super_take: "-1 \<le> super \<Longrightarrow> super < int n \<Longrightarrow> bump_super super (take n t) = take n (bump_super super t)"
  by (auto simp: bump_super_def take_update_swap)

lemma bump_super_append: "super < int (length a) \<Longrightarrow> -1 \<le> super \<Longrightarrow> bump_super super (a @ b) = bump_super super a @ b"
  by (auto simp: bump_super_def list_update_append nth_append)

text \<open>What one iteration may do: open a container, close one, add a leaf, or skip a character.\<close>

lemma tok_switch_cases:
  assumes "tok_switch num c r p super toks = JOk (k, super', toks')"
  obtains
    (container) ty where "k = 1" "super' = int (length toks)" "length toks < num"
      "toks' = bump_super super toks @ [mk_tok ty p (-1) 0 super]"
  | (close) i where "k = 1" "find_open toks (length toks) = Some i" "super' = tok_parent (toks ! i)"
      "toks' = toks[i := (toks ! i)\<lparr>tok_end := int p + 1\<rparr>]"
  | (leaf) ty s m where "super' = super" "length toks < num" "p \<le> s" "m \<le> p + k" "s \<le> m"
      "toks' = bump_super super (toks @ [mk_tok ty s (int m) 0 super])"
  | (skip) "k = 1" "super' = super" "toks' = toks"
proof -
  define ws where "ws \<longleftrightarrow> c = CHR 0x09 \<or> c = CHR 0x0D \<or> c = CHR 0x0A \<or> c = CHR '' '' \<or> c = CHR '':'' \<or> c = CHR '',''"
  define op cl where "op \<longleftrightarrow> c = CHR ''{'' \<or> c = CHR ''[''" and "cl \<longleftrightarrow> c = CHR ''}'' \<or> c = CHR '']''"
  note sw = assms [unfolded tok_switch_def, folded ws_def op_def cl_def]
  consider (o) op | (cl) "\<not> op" cl | (q) "\<not> op" "\<not> cl" "c = CHR 0x22" | (ws) "\<not> op" "\<not> cl" "c \<noteq> CHR 0x22" ws
    | (p) "\<not> op" "\<not> cl" "c \<noteq> CHR 0x22" "\<not> ws" by argo
  then show thesis
  proof cases
    case o
    then show ?thesis using sw container by (auto split: if_splits)
  next
    case cl
    with sw obtain i where "find_open toks (length toks) = Some i" "k = 1" "super' = tok_parent (toks ! i)"
        "toks' = toks[i := (toks ! i)\<lparr>tok_end := int p + 1\<rparr>]"
      by (auto simp: Let_def split: option.splits if_splits)
    then show ?thesis using close by blast
  next
    case q
    with sw obtain n where "str_scan r = Inr n" by (auto split: sum.splits)
    with q sw show ?thesis
      by (intro leaf [of "p + 1" "p + 1 + n" JSMN_STRING]) (auto split: if_splits)
  next
    case ws
    then show ?thesis using sw skip by (auto)
  next
    case p
    with sw obtain n where n: "prim_scan (c # r) = Some n"
      by (auto simp del: prim_scan.simps split: option.splits)
    from p sw show ?thesis
      by (intro leaf [of p "p + n" JSMN_PRIMITIVE]) (auto simp: n simp del: prim_scan.simps split: if_splits)
  qed
qed

lemma tok_switch_wf:
  assumes "tok_switch num c r p super toks = JOk (k, super', toks')" "tok_wf toks super"
  shows "tok_wf toks' super'"
  using assms(1)
proof (cases rule: tok_switch_cases)
  case (close i)
  then show ?thesis using assms(2) by (fastforce simp: tok_wf_def nth_list_update dest: find_open_SomeD)
qed (use assms(2) in \<open>auto simp: tok_wf_def nth_append mk_tok_def\<close>)

subsection \<open>The array parser refines the list parser\<close>

text \<open>The list parser's state that an array parser's state stands for.\<close>

definition jsmn_view :: "jsmn_parser \<times> jsmntok list \<Rightarrow> nat \<times> int \<times> jsmntok list" where
  "jsmn_view pt = (pos (fst pt), toksuper (fst pt), take (toknext (fst pt)) (snd pt))"

lemma alloc_full: "num \<le> toknext P \<Longrightarrow> jsmn_alloc_token P t num = JErr JSMN_ERROR_NOMEM"
  by (simp add: jsmn_alloc_token_def)

lemma alloc_ok:
  "toknext P < num \<Longrightarrow> num \<le> length t \<Longrightarrow> jsmn_alloc_token P t num = JOk (P\<lparr>toknext := toknext P + 1\<rparr>,
     t[toknext P := (t ! toknext P)\<lparr>tok_start := -1, tok_end := -1, tok_size := 0, tok_parent := -1\<rparr>])"
  by (simp add: jsmn_alloc_token_def Let_def)

lemma take_Suc_update [simp]: "n < length t \<Longrightarrow> take (Suc n) (t[n := x]) = take n t @ [x]"
  by (simp add: take_Suc_conv_app_nth)

lemma bump_super_update_above:
  "-1 \<le> super \<Longrightarrow> super < int n \<Longrightarrow> (bump_super super (t[n := x]))[n := y] = bump_super super (t[n := y])"
  by (auto simp: bump_super_def list_update_swap)

text \<open>The outcome of one iteration on the array, given the outcome on the list.\<close>

definition switch_agrees ::
  "jsmn_parser \<Rightarrow> jsmntok list \<Rightarrow> nat \<Rightarrow> (jsmn_parser \<times> jsmntok list) jres \<Rightarrow> (nat \<times> int \<times> jsmntok list) jres \<Rightarrow> bool" where
  "switch_agrees P t num r r' \<longleftrightarrow>
     (case r' of JErr e \<Rightarrow> r = JErr e | JOverflow \<Rightarrow> False
      | JOk (k, super', toks') \<Rightarrow> (\<exists>P' t'. r = JOk (P', t') \<and> pos P' + 1 = pos P + k \<and> toksuper P' = super' \<and>
          toknext P' \<le> num \<and> length t' = length t \<and> take (toknext P') t' = toks'))"

lemma open_agrees:
  assumes "num \<le> length t" "toknext P \<le> num" "-1 \<le> toksuper P" "toksuper P < int (toknext P)" "c = CHR ''{'' \<or> c = CHR ''[''"
  shows "switch_agrees P t num (jsmn_switch c P js t num) (tok_switch num c r (pos P) (toksuper P) (take (toknext P) t))"
proof (cases "toknext P < num")
  case True
  then have n: "toknext P < length t" "toksuper P \<noteq> -1 \<Longrightarrow> toknext P \<noteq> nat (toksuper P)" using assms by auto
  define fresh where "fresh = (t ! toknext P)\<lparr>tok_start := -1, tok_end := -1, tok_size := 0, tok_parent := -1\<rparr>"
  have "bump_super (toksuper P) (t[toknext P := fresh]) ! toknext P = fresh"
    using n by (auto simp: bump_super_nth)
  moreover have "take (Suc (toknext P)) (bump_super (toksuper P) (t[toknext P := y])) =
      bump_super (toksuper P) (take (toknext P) t) @ [y]" for y
    using assms n by (simp add: bump_super_append flip: bump_super_take)
  ultimately show ?thesis using assms True n
    by (auto simp: switch_agrees_def jsmn_switch_def tok_switch_def alloc_ok Let_def mk_tok_def fresh_def
        bump_super_update_above min_def)
next
  case False
  then show ?thesis using assms
    by (auto simp: switch_agrees_def jsmn_switch_def tok_switch_def alloc_full min_def)
qed

lemma close_agrees:
  assumes "num \<le> length t" "toknext P \<le> num" "c = CHR ''}'' \<or> c = CHR '']''"
  shows "switch_agrees P t num (jsmn_switch c P js t num) (tok_switch num c r (pos P) (toksuper P) (take (toknext P) t))"
proof -
  have l: "length (take (toknext P) t) = toknext P" using assms by simp
  have c: "c \<noteq> CHR ''{''" "c \<noteq> CHR ''[''" using assms(3) by auto
  show ?thesis
  proof (cases "find_open t (toknext P)")
    case None
    with assms show ?thesis
      by (simp add: switch_agrees_def jsmn_switch_def tok_switch_def l c del: length_take)
  next
    case (Some i)
    then have i: "i < toknext P" by (auto dest: find_open_SomeD)
    with assms Some show ?thesis
      by (simp add: switch_agrees_def jsmn_switch_def tok_switch_def l c Let_def take_update_swap del: length_take)
  qed
qed

text \<open>Both leaf routines allocate, fill and link a token and then bump the size of the parent.\<close>

lemma fill_tok: "(jsmn_fill_token x ty s e)\<lparr>tok_parent := super\<rparr> = mk_tok ty s (int e) 0 super"
  by (cases x) (simp add: jsmn_fill_token_def mk_tok_def)

lemma leaf_tokens:
  assumes "n < length t" "-1 \<le> super" "super < int n"
  shows "take (Suc n) (bump_super super (t[n := x])) = bump_super super (take n t @ [x])"
  using assms by (simp flip: bump_super_take)

lemma string_agrees:
  assumes "num \<le> length t" "toknext P \<le> num" "-1 \<le> toksuper P" "toksuper P < int (toknext P)" "c = CHR 0x22"
    and "r = drop (pos P + 1) js"
  shows "switch_agrees P t num (jsmn_switch c P js t num) (tok_switch num c r (pos P) (toksuper P) (take (toknext P) t))"
proof -
  have l: "length (take (toknext P) t) = toknext P" using assms by simp
  show ?thesis
  proof (cases "str_scan r")
    case (Inl e)
    with assms show ?thesis
      by (simp add: switch_agrees_def jsmn_switch_def tok_switch_def jsmn_parse_string_def map_jres_def)
  next
    case (Inr k)
    show ?thesis
    proof (cases "toknext P < num")
      case True
      with assms have "toknext P < length t" by simp
      with assms Inr True show ?thesis
        by (simp add: switch_agrees_def jsmn_switch_def tok_switch_def jsmn_parse_string_def alloc_ok map_jres_def
            Let_def l fill_tok leaf_tokens algebra_simps del: length_take)
    next
      case False
      with assms Inr show ?thesis
        by (simp add: switch_agrees_def jsmn_switch_def tok_switch_def jsmn_parse_string_def alloc_full map_jres_def
            Let_def)
    qed
  qed
qed

lemma prim_agrees:
  assumes "num \<le> length t" "toknext P \<le> num" "-1 \<le> toksuper P" "toksuper P < int (toknext P)"
    and "c \<notin> {CHR ''{'', CHR ''['', CHR ''}'', CHR '']'', CHR 0x22}"
    and "pos P < length js" "c = js ! pos P" "r = drop (pos P + 1) js"
  shows "switch_agrees P t num (jsmn_switch c P js t num) (tok_switch num c r (pos P) (toksuper P) (take (toknext P) t))"
proof -
  have l: "length (take (toknext P) t) = toknext P" using assms by simp
  have d: "drop (pos P) js = c # r" using assms by (simp add: Cons_nth_drop_Suc)
  note sw = switch_agrees_def jsmn_switch_def tok_switch_def jsmn_parse_primitive_def map_jres_def d Let_def l
  show ?thesis
  proof (cases "c = CHR 0x09 \<or> c = CHR 0x0D \<or> c = CHR 0x0A \<or> c = CHR '' '' \<or> c = CHR '':'' \<or> c = CHR '',''")
    case True
    with assms show ?thesis by (auto simp: switch_agrees_def jsmn_switch_def tok_switch_def)
  next
    case nws: False
    show ?thesis
    proof (cases "prim_scan (c # r)")
      case None
      with assms nws show ?thesis by (simp add: sw del: length_take prim_scan.simps)
    next
      case (Some k)
      have k: "0 < k" using prim_scan_pos [OF Some] nws assms(5) by auto
      show ?thesis
      proof (cases "toknext P < num")
        case True
        with assms have "toknext P < length t" by simp
        with assms nws Some True k show ?thesis
          by (simp add: sw alloc_ok fill_tok leaf_tokens algebra_simps del: length_take prim_scan.simps)
      next
        case False
        with assms nws Some show ?thesis by (simp add: sw alloc_full del: prim_scan.simps)
      qed
    qed
  qed
qed

lemma jsmn_switch_agrees:
  assumes "num \<le> length t" "toknext P \<le> num" "tok_wf (take (toknext P) t) (toksuper P)"
    and "pos P < length js" "c = js ! pos P" "r = drop (pos P + 1) js"
  shows "switch_agrees P t num (jsmn_switch c P js t num) (tok_switch num c r (pos P) (toksuper P) (take (toknext P) t))"
proof -
  have "-1 \<le> toksuper P" "toksuper P < int (toknext P)" using assms by (auto simp: tok_wf_def)
  with assms show ?thesis
    using open_agrees [of num t P c js r] close_agrees [of num t P c js r] string_agrees [of num t P c r js]
      prim_agrees [of num t P c js r]
    by blast
qed

lemma jsmn_parse_agrees:
  assumes "num \<le> length t" "toknext P \<le> num" "tok_wf (take (toknext P) t) (toksuper P)"
  shows "map_jres (\<lambda>(n, t). take n t) (jsmn_parse P js t num) =
      tok_run num (drop (pos P) js) (pos P) (toksuper P) (take (toknext P) t)
    \<and> (\<forall>n t'. jsmn_parse P js t num = JOk (n, t') \<longrightarrow> n \<le> num \<and> length t' = length t)"
  using assms
proof (induction P js t num rule: jsmn_parse.induct)
  case (1 P js t num)
  show ?case
  proof (cases "pos P < length js")
    case False
    with 1(2-) show ?thesis
      by (simp add: jsmn_parse.simps [of P] tok_run.simps [of num "[]"] map_jres_def)
  next
    case True
    define c r where c: "c = js ! pos P" and r: "r = drop (pos P + 1) js"
    have d: "drop (pos P) js = c # r" using True by (simp add: Cons_nth_drop_Suc c r)
    have agr: "switch_agrees P t num (jsmn_switch c P js t num) (tok_switch num c r (pos P) (toksuper P) (take (toknext P) t))"
      using 1(2-) True c r by (intro jsmn_switch_agrees) auto
    show ?thesis
    proof (cases "tok_switch num c r (pos P) (toksuper P) (take (toknext P) t)")
      case (JOk x)
      obtain k super' toks' where x: "x = (k, super', toks')" by (cases x)
      from agr JOk x obtain P' t' where
        P': "jsmn_switch c P js t num = JOk (P', t')" "pos P' + 1 = pos P + k" "toksuper P' = super'" "toknext P' \<le> num"
          "length t' = length t" "take (toknext P') t' = toks'"
        by (auto simp: switch_agrees_def)
      have "tok_wf toks' super'" using tok_switch_wf JOk x 1(4) by blast
      then have "map_jres (\<lambda>(n, t). take n t) (jsmn_parse (P'\<lparr>pos := pos P' + 1\<rparr>) js t' num) =
            tok_run num (drop (pos P' + 1) js) (pos P' + 1) (toksuper P') (take (toknext P') t')
          \<and> (\<forall>n t''. jsmn_parse (P'\<lparr>pos := pos P' + 1\<rparr>) js t' num = JOk (n, t'') \<longrightarrow> n \<le> num \<and> length t'' = length t')"
        using 1(1) [OF True P'(1) [unfolded c] refl] 1(2-) P' by simp
      moreover have "drop k (c # r) = drop (k + pos P) js" by (simp flip: d)
      ultimately show ?thesis
        using True P' JOk x d
        by (simp add: jsmn_parse.simps [of P] tok_run.simps [of num "c # r"] add.commute c [symmetric])
    next
      case (JErr e)
      with agr True d show ?thesis
        by (simp add: jsmn_parse.simps [of P] tok_run.simps [of num "c # r"] switch_agrees_def map_jres_def c [symmetric])
    next
      case JOverflow
      with agr show ?thesis by (simp add: switch_agrees_def)
    qed
  qed
qed

text \<open>What a caller sees, whatever its array held before.\<close>

lemma jsmn_parse_tok_run:
  assumes "num \<le> length t"
  shows "map_jres (\<lambda>(n, t). take n t) (jsmn_parse jsmn_init js t num) = tok_run num js 0 (-1) []"
    and "jsmn_parse jsmn_init js t num = JOk (n, t') \<Longrightarrow> n \<le> num \<and> length t' = length t"
  using jsmn_parse_agrees [of num t jsmn_init js] assms by (auto simp: jsmn_init_def tok_wf_def)

lemma tok_run_no_overflow: "tok_run num s p super toks \<noteq> JOverflow"
proof (induction num s p super toks rule: tok_run.induct)
  case (1 num s p super toks)
  have "tok_switch num c r p super toks \<noteq> JOverflow" for c r
    by (simp add: tok_switch_def Let_def split: option.splits sum.splits)
  then show ?case using 1
    by (subst tok_run.simps) (auto split: list.splits jres.splits prod.splits)
qed

subsection \<open>Where the tokens lie\<close>

text \<open>Tokens lie in the first \<open>p\<close> characters, in the order of their starts, a closed one not ending before it starts.\<close>

definition tok_bounds :: "nat \<Rightarrow> jsmntok list \<Rightarrow> bool" where
  "tok_bounds p toks \<longleftrightarrow> sorted (map tok_start toks) \<and>
     (\<forall>x \<in> set toks. 0 \<le> tok_start x \<and> tok_start x \<le> int p \<and> tok_end x \<le> int p \<and>
        (tok_end x = -1 \<or> tok_start x \<le> tok_end x))"

lemma map_start_bump [simp]: "map tok_start (bump_super super t) = map tok_start t"
  by (rule nth_equalityI) auto

lemma tok_bounds_bump [simp]: "tok_bounds p (bump_super super t) = tok_bounds p t"
  by (simp add: tok_bounds_def all_set_conv_all_nth)

lemma tok_bounds_mono: "tok_bounds p t \<Longrightarrow> p \<le> q \<Longrightarrow> tok_bounds q t"
  by (fastforce simp: tok_bounds_def)

lemma tok_bounds_snoc:
  "tok_bounds p t \<Longrightarrow> p \<le> s \<Longrightarrow> s \<le> q \<Longrightarrow> e = -1 \<or> int s \<le> e \<and> e \<le> int q \<Longrightarrow>
   tok_bounds q (t @ [mk_tok ty s e sz par])"
  by (fastforce simp: tok_bounds_def mk_tok_def sorted_append)

lemma tok_bounds_close:
  assumes "tok_bounds p t" "i < length t"
  shows "tok_bounds (p + 1) (t[i := (t ! i)\<lparr>tok_end := int p + 1\<rparr>])" (is "tok_bounds _ ?t'")
proof -
  have "map tok_start ?t' = map tok_start t"
    by (rule nth_equalityI) (auto simp: nth_list_update assms(2))
  moreover have "0 \<le> tok_start (?t' ! j) \<and> tok_start (?t' ! j) \<le> int (p + 1) \<and> tok_end (?t' ! j) \<le> int (p + 1) \<and>
      (tok_end (?t' ! j) = -1 \<or> tok_start (?t' ! j) \<le> tok_end (?t' ! j))" if "j < length t" for j
  proof -
    have "0 \<le> tok_start (t ! j) \<and> tok_start (t ! j) \<le> int p \<and> tok_end (t ! j) \<le> int p \<and>
        (tok_end (t ! j) = -1 \<or> tok_start (t ! j) \<le> tok_end (t ! j))"
      using assms(1) nth_mem [OF that] by (simp add: tok_bounds_def)
    then show ?thesis using that by (cases "i = j") auto
  qed
  ultimately show ?thesis using assms(1) by (simp add: tok_bounds_def all_set_conv_all_nth)
qed

lemma tok_switch_bounds:
  assumes "tok_switch num c r p super toks = JOk (k, super', toks')" "tok_bounds p toks"
  shows "tok_bounds (p + k) toks'"
  using assms(1)
proof (cases rule: tok_switch_cases)
  case (close i)
  then show ?thesis using assms(2) tok_bounds_close by (auto dest: find_open_SomeD)
qed (use assms(2) in \<open>auto intro!: tok_bounds_snoc intro: tok_bounds_mono\<close>)

lemma str_scan_less: "str_scan s = Inr k \<Longrightarrow> k < length s"
proof (induction s arbitrary: k rule: length_induct)
  case (1 s)
  then obtain c s' where s: "s = c # s'" by (cases s) auto
  have *: "k' < length x" if "length x \<le> length s'" "str_scan x = Inr k'" for k' x
    using 1(1) s that by (auto simp: less_Suc_eq_le)
  consider "c = CHR 0x22" | "c \<noteq> CHR 0x22" "c = CHR 0x5C \<and> s' \<noteq> []" | "c \<noteq> CHR 0x22" "\<not> (c = CHR 0x5C \<and> s' \<noteq> [])" by argo
  then show ?case
  proof cases
    case 2
    then obtain e s'' where s': "s' = e # s''" by (cases s') auto
    have "k' + 4 < length s''" if "str_scan (drop 4 s'') = Inr k'" for k'
      using * [OF _ that] s' by (simp add: less_diff_conv)
    with 1(2) 2 s s' show ?thesis
      using * [of s'']
      by (cases "str_scan s''"; cases "str_scan (drop 4 s'')")
        (auto simp: Let_def split: if_splits)
  next
    case 3
    with 1(2) s show ?thesis using * [of s'] by (cases "str_scan s'") (auto split: if_splits)
  qed (use 1 s in simp)
qed

lemma prim_scan_le: "prim_scan s = Some k \<Longrightarrow> k \<le> length s"
  by (induction s arbitrary: k rule: prim_scan.induct) (auto split: if_splits)

lemma tok_switch_consumed:
  "tok_switch num c r p super toks = JOk (k, super', toks') \<Longrightarrow> k \<le> Suc (length r)"
  by (auto simp: tok_switch_def Let_def simp del: prim_scan.simps split: if_splits option.splits sum.splits
      dest!: str_scan_less prim_scan_le)

lemma tok_switch_length:
  "tok_switch num c r p super toks = JOk (k, super', toks') \<Longrightarrow> length toks \<le> num \<Longrightarrow> length toks' \<le> num"
  by (erule tok_switch_cases) auto

lemma tok_run_result:
  assumes "tok_run num s p super toks = JOk out" "tok_wf toks super" "tok_bounds p toks" "length toks \<le> num"
  shows "tok_bounds (p + length s) out \<and> length out \<le> num \<and>
    (\<forall>i < length out. \<not> tok_open (out ! i) \<and> -1 \<le> tok_parent (out ! i) \<and> tok_parent (out ! i) < int i)"
  using assms
proof (induction num s p super toks rule: tok_run.induct)
  case (1 num s p super toks)
  show ?case
  proof (cases s)
    case Nil
    with "1.prems" show ?thesis
      by (auto simp: tok_run.simps [of num "[]"] tok_wf_def dest: find_open_NoneD split: if_splits)
  next
    case (Cons c r)
    with "1.prems"(1) obtain k super' toks' where
      sw: "tok_switch num c r p super toks = JOk (k, super', toks')" and
      run: "tok_run num (drop k s) (p + k) super' toks' = JOk out"
      by (subst (asm) tok_run.simps) (auto split: jres.splits prod.splits)
    have "p + k + length (drop k s) = p + length s" using tok_switch_consumed [OF sw] Cons by simp
    then show ?thesis
      using "1.IH" [OF Cons sw refl refl run] tok_switch_wf [OF sw] tok_switch_bounds [OF sw]
        tok_switch_length [OF sw] "1.prems" by simp
  qed
qed

subsection \<open>A larger limit does not change a result\<close>

lemma jsmn_alloc_mono:
  "jsmn_alloc_token P t num = JOk x \<Longrightarrow> num \<le> num' \<Longrightarrow> jsmn_alloc_token P t num' = JOk x"
  by (auto simp: jsmn_alloc_token_def Let_def split: if_splits)

lemma jsmn_leaf_mono:
  "jsmn_parse_string P js t num = JOk x \<Longrightarrow> num \<le> num' \<Longrightarrow> jsmn_parse_string P js t num' = JOk x"
  "jsmn_parse_primitive P js t num = JOk x \<Longrightarrow> num \<le> num' \<Longrightarrow> jsmn_parse_primitive P js t num' = JOk x"
  by (auto simp: jsmn_parse_string_def jsmn_parse_primitive_def Let_def
      split: sum.splits option.splits jres.splits dest: jsmn_alloc_mono)

lemma map_jres_JOk: "map_jres f r = JOk y \<longleftrightarrow> (\<exists>x. r = JOk x \<and> y = f x)"
  by (auto simp: map_jres_def split: jres.splits)

lemma jsmn_switch_mono:
  assumes "jsmn_switch c P js t num = JOk x" "num \<le> num'"
  shows "jsmn_switch c P js t num' = JOk x"
proof -
  have "jsmn_switch c P js t num' = JOk x" if "c = CHR ''{'' \<or> c = CHR ''[''"
    using that assms(1) jsmn_alloc_mono [OF _ assms(2)]
    by (cases "jsmn_alloc_token P t num") (simp_all add: jsmn_switch_def)
  moreover have "jsmn_switch c P js t num' = JOk x" if "c = CHR ''}'' \<or> c = CHR '']''"
    using that assms(1) by (auto simp: jsmn_switch_def)
  moreover have "jsmn_switch c P js t num' = JOk x" if "\<not> (c = CHR ''{'' \<or> c = CHR ''['')" "\<not> (c = CHR ''}'' \<or> c = CHR '']'')"
    using assms(1) that jsmn_leaf_mono [OF _ assms(2)]
    unfolding jsmn_switch_def by (simp only: if_False) (auto simp: map_jres_JOk split: if_splits)
  ultimately show ?thesis by argo
qed

lemma jsmn_parse_mono:
  "jsmn_parse P js t num = JOk x \<Longrightarrow> num \<le> num' \<Longrightarrow> jsmn_parse P js t num' = JOk x"
proof (induction P js t num rule: jsmn_parse.induct)
  case (1 P js t num)
  show ?case
  proof (cases "pos P < length js")
    case True
    with 1(2) obtain P' t' where sw: "jsmn_switch (js ! pos P) P js t num = JOk (P', t')"
      and "jsmn_parse (P'\<lparr>pos := pos P' + 1\<rparr>) js t' num = JOk x"
      by (subst (asm) jsmn_parse.simps) (auto split: jres.splits)
    then show ?thesis
      using "1.IH" [OF True sw refl] 1(3) jsmn_switch_mono [OF sw 1(3)] True by (simp add: jsmn_parse.simps [of P])
  qed (use 1 in \<open>simp add: jsmn_parse.simps [of P]\<close>)
qed

subsection \<open>A limit above the size of the array\<close>

text \<open>With a limit above the size of the array, what would be a lack of tokens becomes a write behind the array.\<close>

definition overflow_of :: "'a jres \<Rightarrow> 'a jres" where
  "overflow_of r = (case r of JErr JSMN_ERROR_NOMEM \<Rightarrow> JOverflow | _ \<Rightarrow> r)"

lemma overflow_of_simps [simp]:
  "overflow_of (JOk x) = JOk x" "overflow_of JOverflow = JOverflow" "overflow_of (JErr JSMN_ERROR_NOMEM) = JOverflow"
  "overflow_of (JErr JSMN_ERROR_INVAL) = JErr JSMN_ERROR_INVAL" "overflow_of (JErr JSMN_ERROR_PART) = JErr JSMN_ERROR_PART"
  by (simp_all add: overflow_of_def)

lemma jsmn_alloc_over:
  "length t < num \<Longrightarrow> toknext P \<le> length t \<Longrightarrow> jsmn_alloc_token P t num = overflow_of (jsmn_alloc_token P t (length t))"
  by (auto simp: jsmn_alloc_token_def Let_def)

lemma jsmn_alloc_result: "jsmn_alloc_token P t num = JErr e \<Longrightarrow> e = JSMN_ERROR_NOMEM"
  by (auto simp: jsmn_alloc_token_def Let_def split: if_splits)

lemma str_scan_no_nomem: "str_scan s \<noteq> Inl JSMN_ERROR_NOMEM"
proof (induction s rule: length_induct)
  case (1 s)
  show ?case
  proof (cases s)
    case (Cons c r)
    with 1 have "\<forall>x. length x \<le> length r \<longrightarrow> str_scan x \<noteq> Inl JSMN_ERROR_NOMEM" by (simp add: less_Suc_eq_le)
    then have "str_scan r \<noteq> Inl JSMN_ERROR_NOMEM" "str_scan (tl r) \<noteq> Inl JSMN_ERROR_NOMEM" "str_scan (drop 5 r) \<noteq> Inl JSMN_ERROR_NOMEM"
      by simp_all
    then show ?thesis using Cons
      by (cases "str_scan r"; cases "str_scan (tl r)"; cases "str_scan (drop 5 r)") (auto simp: Let_def split: if_splits)
  qed simp
qed

lemma jsmn_leaf_over:
  assumes "length t < num" "toknext P \<le> length t"
  shows "jsmn_parse_string P js t num = overflow_of (jsmn_parse_string P js t (length t))"
    and "jsmn_parse_primitive P js t num = overflow_of (jsmn_parse_primitive P js t (length t))"
proof -
  have al: "jsmn_alloc_token (P\<lparr>pos := k\<rparr>) t num = overflow_of (jsmn_alloc_token (P\<lparr>pos := k\<rparr>) t (length t))" for k
    using assms by (intro jsmn_alloc_over) auto
  show "jsmn_parse_string P js t num = overflow_of (jsmn_parse_string P js t (length t))"
  proof (cases "str_scan (drop (pos P + 1) js)")
    case (Inl e)
    with str_scan_no_nomem have "e \<noteq> JSMN_ERROR_NOMEM" by metis
    then show ?thesis using Inl by (cases e) (simp_all add: jsmn_parse_string_def)
  next
    case (Inr k)
    then show ?thesis using al [of "pos P + 1 + k"] jsmn_alloc_result [of "P\<lparr>pos := pos P + 1 + k\<rparr>" t "length t"]
      by (cases "jsmn_alloc_token (P\<lparr>pos := pos P + 1 + k\<rparr>) t (length t)") (auto simp: jsmn_parse_string_def Let_def)
  qed
  show "jsmn_parse_primitive P js t num = overflow_of (jsmn_parse_primitive P js t (length t))"
  proof (cases "prim_scan (drop (pos P) js)")
    case (Some k)
    then show ?thesis using al [of "pos P + k"] jsmn_alloc_result [of "P\<lparr>pos := pos P + k\<rparr>" t "length t"]
      by (cases "jsmn_alloc_token (P\<lparr>pos := pos P + k\<rparr>) t (length t)") (auto simp: jsmn_parse_primitive_def Let_def)
  qed (simp add: jsmn_parse_primitive_def)
qed

lemma overflow_of_map: "map_jres f (overflow_of r) = overflow_of (map_jres f r)"
  by (cases r) (auto simp: map_jres_def overflow_of_def split: jsmnerr.splits)

lemma jsmn_switch_over:
  assumes "length t < num" "toknext P \<le> length t"
  shows "jsmn_switch c P js t num = overflow_of (jsmn_switch c P js t (length t))"
proof -
  have "jsmn_switch c P js t num = overflow_of (jsmn_switch c P js t (length t))" if "c = CHR ''{'' \<or> c = CHR ''[''"
    using that jsmn_alloc_over [OF assms] jsmn_alloc_result [of P t "length t"]
    by (cases "jsmn_alloc_token P t (length t)") (auto simp: jsmn_switch_def Let_def)
  moreover have "jsmn_switch c P js t num = overflow_of (jsmn_switch c P js t (length t))" if "c = CHR ''}'' \<or> c = CHR '']''"
    using that by (cases "find_open t (toknext P)") (auto simp: jsmn_switch_def Let_def)
  moreover have "jsmn_switch c P js t num = overflow_of (jsmn_switch c P js t (length t))"
    if "\<not> (c = CHR ''{'' \<or> c = CHR ''['')" "\<not> (c = CHR ''}'' \<or> c = CHR '']'')"
    using that jsmn_leaf_over [OF assms] unfolding jsmn_switch_def by (simp only: if_False) (auto simp: overflow_of_map)
  ultimately show ?thesis by argo
qed

lemma jsmn_parse_over:
  assumes "toknext P \<le> length t" "tok_wf (take (toknext P) t) (toksuper P)" "n = length t" "n < num"
  shows "jsmn_parse P js t num = overflow_of (jsmn_parse P js t n)"
  using assms
proof (induction P js t n rule: jsmn_parse.induct)
  case (1 P js t n)
  show ?case
  proof (cases "pos P < length js")
    case True
    let ?c = "js ! pos P" and ?r = "drop (pos P + 1) js"
    have sw: "jsmn_switch ?c P js t num = overflow_of (jsmn_switch ?c P js t n)"
      using jsmn_switch_over [of t num P] 1(2-) by simp
    have agr: "switch_agrees P t n (jsmn_switch ?c P js t n) (tok_switch n ?c ?r (pos P) (toksuper P) (take (toknext P) t))"
      using 1(2-) True by (intro jsmn_switch_agrees) auto
    show ?thesis
    proof (cases "jsmn_switch ?c P js t n")
      case (JOk x)
      obtain P' t' where x: "x = (P', t')" by (cases x)
      from agr JOk x obtain k where k: "tok_switch n ?c ?r (pos P) (toksuper P) (take (toknext P) t) =
          JOk (k, toksuper P', take (toknext P') t')" "toknext P' \<le> n" "length t' = length t"
        by (auto simp: switch_agrees_def split: jres.splits)
      have "tok_wf (take (toknext P') t') (toksuper P')" using tok_switch_wf [OF k(1) 1(3)] .
      then have "jsmn_parse (P'\<lparr>pos := pos P' + 1\<rparr>) js t' num = overflow_of (jsmn_parse (P'\<lparr>pos := pos P' + 1\<rparr>) js t' n)"
        using "1.IH" [OF True JOk [unfolded x] refl] k 1(4,5) by simp
      with sw JOk x True show ?thesis by (simp add: jsmn_parse.simps [of P])
    qed (use sw True in \<open>auto simp: jsmn_parse.simps [of P] overflow_of_def split: jsmnerr.splits\<close>)
  qed (simp add: jsmn_parse.simps [of P])
qed

text \<open>Only the lack of tokens depends on the limit.\<close>

lemma tok_run_other_error:
  "tok_run num s p super toks = JErr e \<Longrightarrow> e \<noteq> JSMN_ERROR_NOMEM \<Longrightarrow> num \<le> num' \<Longrightarrow> tok_run num' s p super toks = JErr e"
proof (induction num s p super toks rule: tok_run.induct)
  case (1 num s p super toks)
  have sw: "tok_switch num' c r p super toks = tok_switch num c r p super toks"
    if "tok_switch num c r p super toks \<noteq> JErr JSMN_ERROR_NOMEM" for c r
    using that 1(4) unfolding tok_switch_def Let_def by (auto split: if_splits option.splits sum.splits)
  show ?case
  proof (cases s)
    case Nil
    with 1(2) show ?thesis by (simp add: tok_run.simps [of _ "[]"])
  next
    case (Cons c r)
    show ?thesis
    proof (cases "tok_switch num c r p super toks")
      case (JOk x)
      obtain k super' toks' where x: "x = (k, super', toks')" by (cases x)
      have "tok_run num (drop k s) (p + k) super' toks' = JErr e"
        using 1(2) Cons JOk x by (simp add: tok_run.simps [of num "c # r"])
      from "1.IH" [OF Cons JOk [unfolded x] refl refl this 1(3,4)] show ?thesis
        using Cons JOk x sw [of c r] by (simp add: tok_run.simps [of num' "c # r"])
    next
      case (JErr e')
      then show ?thesis using 1(2,3) Cons sw [of c r]
        by (simp add: tok_run.simps [of num "c # r"] tok_run.simps [of num' "c # r"])
    qed (use 1(2) Cons in \<open>simp add: tok_run.simps [of num "c # r"]\<close>)
  qed
qed

subsection \<open>Properties\<close>

text \<open>C17: memory safety of the tokenizer. With a limit that does not exceed the array, \<open>jsmn_parse\<close> never writes behind
  the array, whatever the text; its result does not depend on what the array held before; and on success the
  tokens are closed, lie inside the text in the order of their starts, and the parent of each is an earlier
  token.\<close>

theorem jsmn_parse_safe:
  assumes "num \<le> length t"
  shows "jsmn_parse jsmn_init js t num \<noteq> JOverflow \<and>
    (\<forall>t'. num \<le> length t' \<longrightarrow> map_jres (\<lambda>(n, t). take n t) (jsmn_parse jsmn_init js t' num) =
       map_jres (\<lambda>(n, t). take n t) (jsmn_parse jsmn_init js t num)) \<and>
    (\<forall>n t'. jsmn_parse jsmn_init js t num = JOk (n, t') \<longrightarrow> n \<le> num \<and> tok_bounds (length js) (take n t') \<and>
       (\<forall>i < n. \<not> tok_open (t' ! i) \<and> -1 \<le> tok_parent (t' ! i) \<and> tok_parent (t' ! i) < int i))"
proof (intro conjI allI impI)
  have run: "map_jres (\<lambda>(n, t). take n t) (jsmn_parse jsmn_init js t num) = tok_run num js 0 (-1) []"
    by (rule jsmn_parse_tok_run [OF assms])
  show "jsmn_parse jsmn_init js t num \<noteq> JOverflow"
    using run tok_run_no_overflow [of num js 0 "-1" "[]"] by (auto simp: map_jres_def)
  show "map_jres (\<lambda>(n, t). take n t) (jsmn_parse jsmn_init js t' num) =
       map_jres (\<lambda>(n, t). take n t) (jsmn_parse jsmn_init js t num)" if "num \<le> length t'" for t'
    using run jsmn_parse_tok_run(1) [OF that] by simp
  fix n t' assume p: "jsmn_parse jsmn_init js t num = JOk (n, t')"
  have n: "n \<le> num" "length t' = length t" using jsmn_parse_tok_run(2) [OF assms p] by auto
  show "n \<le> num" by (rule n)
  have "tok_run num js 0 (-1) [] = JOk (take n t')" using run p by (simp add: map_jres_def)
  moreover have "tok_wf [] (-1)" "tok_bounds 0 []" "length ([] :: jsmntok list) \<le> num"
    by (simp_all add: tok_wf_def tok_bounds_def)
  ultimately have "tok_bounds (0 + length js) (take n t') \<and> length (take n t') \<le> num \<and> (\<forall>i < length (take n t').
      \<not> tok_open (take n t' ! i) \<and> -1 \<le> tok_parent (take n t' ! i) \<and> tok_parent (take n t' ! i) < int i)"
    by (rule tok_run_result)
  with n assms have *: "tok_bounds (length js) (take n t') \<and> (\<forall>i < n. \<not> tok_open (take n t' ! i) \<and> -1 \<le> tok_parent (take n t' ! i) \<and>
      tok_parent (take n t' ! i) < int i)" by simp
  then show "tok_bounds (length js) (take n t')" by simp
  fix i assume "i < n"
  with * show "\<not> tok_open (t' ! i)" "-1 \<le> tok_parent (t' ! i)" "tok_parent (t' ! i) < int i" by auto
qed

theorem jsmn_parse_safe_witness:
  "jsmn_parse jsmn_init ''[1]'' (replicate 3 (mk_tok JSMN_UNDEFINED 0 0 0 0)) 3 \<noteq> JOverflow"
  using jsmn_parse_safe [of 3 "replicate 3 (mk_tok JSMN_UNDEFINED 0 0 0 0)" "''[1]''"] by simp

end
