(* ===== verification/Json_Tree.thy ===== *)
theory Json_Tree
  imports Jsmn
begin

text \<open>
  Printed JSON documents and their tokens. \<open>jprint\<close> writes a document the way the service writes its
  responses (no white space, strings already escaped); \<open>tok_run_jprint\<close> shows that the tokenizer reads
  such a document as the preorder list \<open>jtoks\<close> of its nodes. The client's lookups in responses rest
  on it.
\<close>

subsection \<open>Documents, their text and their tokens\<close>

datatype json = JString string | JPrim string | JArray "json list" | JObject "(string \<times> json) list"

fun jprint :: "json \<Rightarrow> string"
  and jelems :: "string \<Rightarrow> json list \<Rightarrow> string"
  and jmembers :: "string \<Rightarrow> (string \<times> json) list \<Rightarrow> string" where
  "jprint (JString s) = CHR 0x22 # s @ [CHR 0x22]"
| "jprint (JPrim s) = s"
| "jprint (JArray xs) = CHR ''['' # jelems [] xs @ [CHR '']'']"
| "jprint (JObject kvs) = CHR ''{'' # jmembers [] kvs @ [CHR ''}'']"
| "jelems sep [] = []"
| "jelems sep (x # xs) = sep @ jprint x @ jelems [CHR '',''] xs"
| "jmembers sep [] = []"
| "jmembers sep ((k, v) # kvs) = sep @ CHR 0x22 # k @ CHR 0x22 # CHR '':'' # jprint v @ jmembers [CHR '',''] kvs"

fun jtoks :: "nat \<Rightarrow> nat \<Rightarrow> int \<Rightarrow> json \<Rightarrow> jsmntok list"
  and etoks :: "nat \<Rightarrow> nat \<Rightarrow> int \<Rightarrow> string \<Rightarrow> json list \<Rightarrow> jsmntok list"
  and mtoks :: "nat \<Rightarrow> nat \<Rightarrow> int \<Rightarrow> string \<Rightarrow> (string \<times> json) list \<Rightarrow> jsmntok list" where
  "jtoks b p par (JString s) = [mk_tok JSMN_STRING (p + 1) (int (p + 1 + length s)) 0 par]"
| "jtoks b p par (JPrim s) = [mk_tok JSMN_PRIMITIVE p (int (p + length s)) 0 par]"
| "jtoks b p par (JArray xs) =
     mk_tok JSMN_ARRAY p (int (p + length (jprint (JArray xs)))) (int (length xs)) par #
     etoks (b + 1) (p + 1) (int b) [] xs"
| "jtoks b p par (JObject kvs) =
     mk_tok JSMN_OBJECT p (int (p + length (jprint (JObject kvs)))) (2 * int (length kvs)) par #
     mtoks (b + 1) (p + 1) (int b) [] kvs"
| "etoks b p par sep [] = []"
| "etoks b p par sep (x # xs) =
     (let t = jtoks b (p + length sep) par x
      in t @ etoks (b + length t) (p + length sep + length (jprint x)) par [CHR '',''] xs)"
| "mtoks b p par sep [] = []"
| "mtoks b p par sep ((k, v) # kvs) =
     (let q = p + length sep + length k + 3; t = jtoks (b + 1) q par v
      in mk_tok JSMN_STRING (p + length sep + 1) (int (p + length sep + 1 + length k)) 0 par # t @
         mtoks (b + 1 + length t) (q + length (jprint v)) par [CHR '',''] kvs)"

text \<open>The number of tokens of a document.\<close>

fun jcount :: "json \<Rightarrow> nat" where
  "jcount (JString s) = 1"
| "jcount (JPrim s) = 1"
| "jcount (JArray xs) = Suc (sum_list (map jcount xs))"
| "jcount (JObject kvs) = Suc (sum_list (map (\<lambda>(k, v). Suc (jcount v)) kvs))"

text \<open>Texts that the tokenizer reads as one string or one primitive.\<close>

definition jstr :: "string \<Rightarrow> bool" where
  "jstr s \<longleftrightarrow> str_scan (s @ [CHR 0x22]) = Inr (length s)"

definition prim_char :: "char \<Rightarrow> bool" where
  "prim_char c \<longleftrightarrow> 33 \<le> (of_char c :: nat) \<and> (of_char c :: nat) < 127 \<and> c \<noteq> CHR '','' \<and> c \<noteq> CHR '']'' \<and> c \<noteq> CHR ''}''"

definition jprim :: "string \<Rightarrow> bool" where
  "jprim s \<longleftrightarrow> s \<noteq> [] \<and> list_all prim_char s \<and> hd s \<noteq> CHR ''{'' \<and> hd s \<noteq> CHR ''['' \<and> hd s \<noteq> CHR 0x22 \<and> hd s \<noteq> CHR '':''"

fun jwf :: "json \<Rightarrow> bool" where
  "jwf (JString s) \<longleftrightarrow> jstr s"
| "jwf (JPrim s) \<longleftrightarrow> jprim s"
| "jwf (JArray xs) \<longleftrightarrow> (\<forall>x \<in> set xs. jwf x)"
| "jwf (JObject kvs) \<longleftrightarrow> (\<forall>kv \<in> set kvs. jstr (fst kv) \<and> jwf (snd kv))"

text \<open>What may follow a value.\<close>

definition delim :: "string \<Rightarrow> bool" where
  "delim s \<longleftrightarrow> s = [] \<or> hd s \<in> {CHR '','', CHR '']'', CHR ''}''}"

lemma length_jtoks [simp]:
  "length (jtoks b p par j) = jcount j"
  "length (etoks b p par sep xs) = sum_list (map jcount xs)"
  "length (mtoks b p par sep kvs) = sum_list (map (\<lambda>(k, v). Suc (jcount v)) kvs)"
  by (induction b p par j and b p par sep xs and b p par sep kvs rule: jtoks_etoks_mtoks.induct)
    (simp_all add: Let_def)

lemma jtoks_closed:
  "t \<in> set (jtoks b p par j) \<Longrightarrow> \<not> tok_open t"
  "t \<in> set (etoks b p par sep xs) \<Longrightarrow> \<not> tok_open t"
  "t \<in> set (mtoks b p par sep kvs) \<Longrightarrow> \<not> tok_open t"
  by (induction b p par j and b p par sep xs and b p par sep kvs rule: jtoks_etoks_mtoks.induct)
    (auto simp: Let_def mk_tok_def tok_open_def)

subsection \<open>The tokenizer on printed leaves\<close>

lemma str_scan_append: "str_scan s = Inr k \<Longrightarrow> str_scan (s @ r) = Inr k"
proof (induction s arbitrary: k rule: length_induct)
  case (1 s)
  then obtain c s' where s: "s = c # s'" by (cases s) auto
  have *: "str_scan (x @ r) = Inr k'" if "length x \<le> length s'" "str_scan x = Inr k'" for k' x
    using 1(1) s that by (auto simp: less_Suc_eq_le)
  show ?case
  proof (cases "c = CHR 0x5C \<and> s' \<noteq> []")
    case True
    then obtain e s'' where s': "s' = e # s''" by (cases s') auto
    have "str_scan (drop 4 s'' @ r) = Inr k' \<and> drop 4 (s'' @ r) = drop 4 s'' @ r" if "str_scan (drop 4 s'') = Inr k'" for k'
      using * [OF _ that] s' str_scan_less [OF that] by simp
    with 1(2) True s s' show ?thesis
      using * [of s'']
      by (cases "str_scan s''"; cases "str_scan (drop 4 s'')") (auto simp: Let_def split: if_splits)
  next
    case False
    show ?thesis
    proof (cases "s' = []")
      case True
      with 1(2) s False show ?thesis by (auto split: if_splits)
    next
      case s'_ne: False
      with 1(2) s False show ?thesis using * [of s'] by (cases "str_scan s'") (auto split: if_splits)
    qed
  qed
qed

lemma jstr_scan: "jstr s \<Longrightarrow> str_scan (s @ CHR 0x22 # r) = Inr (length s)"
  using str_scan_append [of "s @ [CHR 0x22]" "length s" r] by (simp add: jstr_def)

lemma prim_charD:
  assumes "prim_char c"
  shows "c \<noteq> CHR 0x09" "c \<noteq> CHR 0x0D" "c \<noteq> CHR 0x0A" "c \<noteq> CHR '' ''" "c \<noteq> CHR '',''" "c \<noteq> CHR '']''" "c \<noteq> CHR ''}''"
  using assms by (auto simp: prim_char_def)

lemma prim_scan_jprim:
  assumes "list_all prim_char s" "delim r"
  shows "prim_scan (s @ r) = Some (length s)"
  using assms
proof (induction s)
  case Nil
  then show ?case by (cases r) (auto simp: delim_def)
next
  case (Cons c s)
  then have c: "prim_char c" by simp
  with Cons prim_charD [OF c] show ?case by (simp add: prim_char_def)
qed

subsection \<open>The tokenizer on printed documents\<close>

lemma tok_run_Cons:
  "tok_switch num c r p super toks = JOk (k, super', toks') \<Longrightarrow>
   tok_run num (c # r) p super toks = tok_run num (drop k (c # r)) (p + k) super' toks'"
  by (subst tok_run.simps) simp

lemma tok_run_skip:
  "c \<in> {CHR '','', CHR '':''} \<Longrightarrow> tok_run num (c # r) p super toks = tok_run num r (p + 1) super toks"
  by (subst tok_run_Cons [where k = 1]) (auto simp: tok_switch_def)

lemma tok_run_sep:
  "sep \<in> {[], [CHR '','']} \<Longrightarrow> tok_run num (sep @ r) p super toks = tok_run num r (p + length sep) super toks"
  using tok_run_skip [of "CHR '',''"] by auto

lemma tok_run_string:
  assumes "jstr s" "length toks < num"
  shows "tok_run num (CHR 0x22 # s @ CHR 0x22 # r) p super toks =
    tok_run num r (p + length s + 2) super (bump_super super (toks @ [mk_tok JSMN_STRING (p + 1) (int (p + 1 + length s)) 0 super]))"
  using assms by (subst tok_run_Cons [where k = "length s + 2"]) (auto simp: tok_switch_def jstr_scan algebra_simps)

lemma tok_run_prim:
  assumes "jprim s" "length toks < num" "delim r"
  shows "tok_run num (s @ r) p super toks =
    tok_run num r (p + length s) super (bump_super super (toks @ [mk_tok JSMN_PRIMITIVE p (int (p + length s)) 0 super]))"
proof -
  obtain c s' where s: "s = c # s'" using assms(1) by (cases s) (auto simp: jprim_def)
  have scan: "prim_scan (c # s' @ r) = Some (length s)"
    using prim_scan_jprim [of s r] assms s by (simp add: jprim_def del: prim_scan.simps)
  have c: "prim_char c" "c \<noteq> CHR ''{''" "c \<noteq> CHR ''[''" "c \<noteq> CHR 0x22" "c \<noteq> CHR '':''" using assms(1) s by (auto simp: jprim_def)
  with prim_charD [OF c(1)] scan assms(2) have "tok_switch num c (s' @ r) p super toks = JOk (length s, super,
      bump_super super (toks @ [mk_tok JSMN_PRIMITIVE p (int (p + length s)) 0 super]))"
    by (simp add: tok_switch_def del: prim_scan.simps)
  from tok_run_Cons [OF this] s show ?thesis by simp
qed

lemma tok_run_open:
  assumes "length toks < num" "c = CHR ''{'' \<and> ty = JSMN_OBJECT \<or> c = CHR ''['' \<and> ty = JSMN_ARRAY"
  shows "tok_run num (c # r) p super toks =
    tok_run num r (p + 1) (int (length toks)) (bump_super super toks @ [mk_tok ty p (-1) 0 super])"
  using assms by (subst tok_run_Cons [where k = 1]) (auto simp: tok_switch_def)

lemma find_open_last:
  "tok_open x \<Longrightarrow> \<forall>t \<in> set ts. \<not> tok_open t \<Longrightarrow> find_open (a @ x # ts) (length a + length ts + 1) = Some (length a)"
proof (induction ts rule: rev_induct)
  case (snoc t ts)
  have "find_open ((a @ x # ts) @ [t]) n = find_open (a @ x # ts) n" if "n \<le> length (a @ x # ts)" for n
    using find_open_take [OF that, of "(a @ x # ts) @ [t]"] by simp
  from this [of "length a + length ts + 1"] snoc show ?case by (simp add: nth_append)
qed simp

lemma tok_run_close:
  assumes "c = CHR ''}'' \<and> ty = JSMN_OBJECT \<or> c = CHR '']'' \<and> ty = JSMN_ARRAY" "\<forall>t \<in> set ts. \<not> tok_open t"
  shows "tok_run num (c # r) q super (a @ mk_tok ty s (-1) n par # ts) =
    tok_run num r (q + 1) par (a @ mk_tok ty s (int q + 1) n par # ts)"
proof -
  have "find_open (a @ mk_tok ty s (-1) n par # ts) (length a + length ts + 1) = Some (length a)"
    using assms(2) by (intro find_open_last) (auto simp: mk_tok_def tok_open_def)
  then have "tok_switch num c r q super (a @ mk_tok ty s (-1) n par # ts) =
      JOk (1, par, a @ mk_tok ty s (int q + 1) n par # ts)"
    using assms(1) by (elim disjE) (simp_all add: tok_switch_def mk_tok_def)
  from tok_run_Cons [OF this] show ?thesis by simp
qed

lemma bump_many:
  "(bump_super (int (length a)) ^^ n) (a @ mk_tok ty s e m par # ts) = a @ mk_tok ty s e (m + int n) par # ts"
  by (induction n) (auto simp: bump_super_def mk_tok_def)

lemma tok_wf_bump [simp]: "tok_wf (bump_super super t) super' = tok_wf t super'"
  by (simp add: tok_wf_def)

lemma funpow_bump_append:
  "super < int (length a) \<Longrightarrow> -1 \<le> super \<Longrightarrow> (bump_super super ^^ n) (a @ b) = (bump_super super ^^ n) a @ b"
proof (induction n)
  case (Suc n)
  have "length ((bump_super super ^^ n) a) = length a" by (induction n) auto
  with Suc show ?case by (simp add: bump_super_append)
qed simp

lemma tok_wf_snoc: "tok_wf t par \<Longrightarrow> tok_wf (t @ [mk_tok ty s e m par]) par \<and> tok_wf (t @ [mk_tok ty s e m par]) (int (length t))"
  by (auto simp: tok_wf_def nth_append mk_tok_def)

lemma tok_wf_super: "tok_wf t s \<Longrightarrow> tok_wf a s' \<Longrightarrow> length a \<le> length t \<Longrightarrow> tok_wf t s'"
  by (auto simp: tok_wf_def)

lemma tok_wf_jtoks:
  "tok_wf a par \<Longrightarrow> b = length a \<Longrightarrow> tok_wf (a @ jtoks b p par j) par"
  "tok_wf a par \<Longrightarrow> b = length a \<Longrightarrow> tok_wf (a @ etoks b p par sep xs) par"
  "tok_wf a par \<Longrightarrow> b = length a \<Longrightarrow> tok_wf (a @ mtoks b p par sep kvs) par"
proof (induction b p par j and b p par sep xs and b p par sep kvs arbitrary: a and a and a rule: jtoks_etoks_mtoks.induct)
  case (3 b p par xs)
  let ?x = "mk_tok JSMN_ARRAY p (int (p + length (jprint (JArray xs)))) (int (length xs)) par"
  have "tok_wf ((a @ [?x]) @ etoks (b + 1) (p + 1) (int b) [] xs) (int b)"
    using 3 tok_wf_snoc by (intro "3.IH") auto
  from tok_wf_super [OF this "3.prems"(1)] show ?case by simp
next
  case (4 b p par kvs)
  let ?x = "mk_tok JSMN_OBJECT p (int (p + length (jprint (JObject kvs)))) (2 * int (length kvs)) par"
  have "tok_wf ((a @ [?x]) @ mtoks (b + 1) (p + 1) (int b) [] kvs) (int b)"
    using 4 tok_wf_snoc by (intro "4.IH") auto
  from tok_wf_super [OF this "4.prems"(1)] show ?case by simp
next
  case (6 b p par sep x xs)
  then have "tok_wf ((a @ jtoks b (p + length sep) par x) @
      etoks (b + jcount x) (p + length sep + length (jprint x)) par [CHR '',''] xs) par"
    using "6.IH"(2) [OF refl, of "a @ jtoks b (p + length sep) par x"] by simp
  then show ?case by (simp add: Let_def)
next
  case (8 b p par sep k v kvs)
  let ?x = "mk_tok JSMN_STRING (p + length sep + 1) (int (p + length sep + 1 + length k)) 0 par"
  let ?q = "p + length sep + length k + 3"
  have "tok_wf ((a @ [?x]) @ jtoks (b + 1) ?q par v) par"
    using 8 tok_wf_snoc by (intro "8.IH"(1) [OF refl]) auto
  then have "tok_wf (((a @ [?x]) @ jtoks (b + 1) ?q par v) @
      mtoks (b + 1 + jcount v) (?q + length (jprint v)) par [CHR '',''] kvs) par"
    using 8 "8.IH"(2) [OF refl refl, of "(a @ [?x]) @ jtoks (b + 1) ?q par v"] by simp
  then show ?case by (simp add: Let_def)
qed (use tok_wf_snoc in auto)

definition runs_to :: "nat \<Rightarrow> string \<Rightarrow> string \<Rightarrow> nat \<Rightarrow> int \<Rightarrow> jsmntok list \<Rightarrow> jsmntok list \<Rightarrow> bool" where
  "runs_to num s rest p super acc out \<longleftrightarrow>
     tok_run num (s @ rest) p super acc = tok_run num rest (p + length s) super out"

lemma runs_to_container:
  assumes "runs_to num body (cl # rest) (p + 1) (int (length acc)) (bump_super super acc @ [mk_tok ty p (-1) 0 super])
      ((bump_super (int (length acc)) ^^ n) (bump_super super acc @ mk_tok ty p (-1) 0 super # ts))"
    and "length acc < num" "\<forall>t \<in> set ts. \<not> tok_open t" "tok_wf acc super"
    and "op = CHR ''{'' \<and> cl = CHR ''}'' \<and> ty = JSMN_OBJECT \<or> op = CHR ''['' \<and> cl = CHR '']'' \<and> ty = JSMN_ARRAY"
  shows "runs_to num (op # body @ [cl]) rest p super acc
    (bump_super super (acc @ mk_tok ty p (int (p + length body + 2)) (int n) super # ts))"
proof -
  have "tok_run num ((op # body @ [cl]) @ rest) p super acc =
      tok_run num (body @ cl # rest) (p + 1) (int (length acc)) (bump_super super acc @ [mk_tok ty p (-1) 0 super])"
    using assms(2,5) tok_run_open [of acc num op ty] by auto
  also have "\<dots> = tok_run num (cl # rest) (p + 1 + length body) (int (length acc))
      (bump_super super acc @ mk_tok ty p (-1) (int n) super # ts)"
    using assms(1) bump_many [where a = "bump_super super acc"] by (simp add: runs_to_def)
  also have "\<dots> = tok_run num rest (p + length body + 2) super
      (bump_super super acc @ mk_tok ty p (int (p + length body + 2)) (int n) super # ts)"
    using tok_run_close [of cl ty ts] assms(3,5) by (auto simp: algebra_simps)
  also have "bump_super super acc @ mk_tok ty p (int (p + length body + 2)) (int n) super # ts =
      bump_super super (acc @ mk_tok ty p (int (p + length body + 2)) (int n) super # ts)"
    using assms(4) by (intro bump_super_append [symmetric]) (auto simp: tok_wf_def)
  finally show ?thesis by (simp add: runs_to_def algebra_simps)
qed

lemma tok_wf_range: "tok_wf a super \<Longrightarrow> -1 \<le> super \<and> super < int (length a)"
  by (simp add: tok_wf_def)

lemma delim_sep: "delim r \<Longrightarrow> delim (jelems [CHR '',''] xs @ r) \<and> delim (jmembers [CHR '',''] kvs @ r)"
  by (cases xs; cases kvs) (auto simp: delim_def)

text \<open>One more element: what is left of the body is read from a list of tokens that is extended and bumped.\<close>

lemma runs_to_next:
  assumes "tok_run num (s1 @ rest) p super acc = tok_run num rest q super (bump_super super (acc @ t1))"
    and "runs_to num s2 rest' q super (bump_super super (acc @ t1)) ((bump_super super ^^ n) (bump_super super (acc @ t1) @ t2))"
    and "rest = s2 @ rest'" "q = p + length s1" "tok_wf acc super"
  shows "runs_to num (s1 @ s2) rest' p super acc ((bump_super super ^^ Suc n) (acc @ t1 @ t2))"
proof -
  have "bump_super super (acc @ t1) @ t2 = bump_super super (acc @ t1 @ t2)"
    using bump_super_append [of super "acc @ t1" t2] tok_wf_range [OF assms(5)] by simp
  with assms show ?thesis by (simp add: runs_to_def funpow_swap1 algebra_simps)
qed

lemma runs_to_jprint:
  "jwf j \<Longrightarrow> delim rest \<Longrightarrow> tok_wf acc super \<Longrightarrow> length acc + jcount j \<le> num \<Longrightarrow>
   runs_to num (jprint j) rest p super acc (bump_super super (acc @ jtoks (length acc) p super j))"
  "sep \<in> {[], [CHR '','']} \<Longrightarrow> \<forall>x \<in> set xs. jwf x \<Longrightarrow> delim rest \<Longrightarrow> tok_wf acc super \<Longrightarrow>
   length acc + sum_list (map jcount xs) \<le> num \<Longrightarrow>
   runs_to num (jelems sep xs) rest p super acc ((bump_super super ^^ length xs) (acc @ etoks (length acc) p super sep xs))"
  "sep \<in> {[], [CHR '','']} \<Longrightarrow> \<forall>kv \<in> set kvs. jstr (fst kv) \<and> jwf (snd kv) \<Longrightarrow> delim rest \<Longrightarrow> tok_wf acc super \<Longrightarrow>
   length acc + sum_list (map (\<lambda>(k, v). Suc (jcount v)) kvs) \<le> num \<Longrightarrow>
   runs_to num (jmembers sep kvs) rest p super acc
     ((bump_super super ^^ (2 * length kvs)) (acc @ mtoks (length acc) p super sep kvs))"
proof (induction j and sep xs and sep kvs arbitrary: rest acc super p and rest acc super p and rest acc super p
    rule: jprint_jelems_jmembers.induct)
  case (1 s)
  then show ?case using tok_run_string [of s acc num rest p super] by (simp add: runs_to_def)
next
  case (2 s)
  then show ?case using tok_run_prim [of s acc num rest p super] by (simp add: runs_to_def)
next
  case (3 xs)
  have "runs_to num (jelems [] xs) (CHR '']'' # rest) (p + 1) (int (length acc))
     (bump_super super acc @ [mk_tok JSMN_ARRAY p (-1) 0 super])
     ((bump_super (int (length acc)) ^^ length xs) (bump_super super acc @ mk_tok JSMN_ARRAY p (-1) 0 super #
        etoks (length acc + 1) (p + 1) (int (length acc)) [] xs))"
    using "3.IH" [of "CHR '']'' # rest" "bump_super super acc @ [mk_tok JSMN_ARRAY p (-1) 0 super]" "int (length acc)" "p + 1"]
      3 tok_wf_snoc [of "bump_super super acc" super] by (simp add: delim_def)
  from runs_to_container [OF this, of "CHR ''[''"] show ?case using 3 jtoks_closed(2) by auto
next
  case (4 kvs)
  have "runs_to num (jmembers [] kvs) (CHR ''}'' # rest) (p + 1) (int (length acc))
     (bump_super super acc @ [mk_tok JSMN_OBJECT p (-1) 0 super])
     ((bump_super (int (length acc)) ^^ (2 * length kvs)) (bump_super super acc @ mk_tok JSMN_OBJECT p (-1) 0 super #
        mtoks (length acc + 1) (p + 1) (int (length acc)) [] kvs))"
    using "4.IH" [of "CHR ''}'' # rest" "bump_super super acc @ [mk_tok JSMN_OBJECT p (-1) 0 super]" "int (length acc)" "p + 1"]
      4 tok_wf_snoc [of "bump_super super acc" super] by (simp add: delim_def case_prod_unfold)
  from runs_to_container [OF this, of "CHR ''{''"] show ?case using 4 jtoks_closed(3) by (auto simp: case_prod_unfold)
next
  case (6 sep x xs)
  let ?t1 = "jtoks (length acc) (p + length sep) super x" and ?r = "jelems [CHR '',''] xs @ rest"
  have "tok_run num ((sep @ jprint x) @ ?r) p super acc =
      tok_run num ?r (p + length (sep @ jprint x)) super (bump_super super (acc @ ?t1))"
    using "6.IH"(1) [of ?r acc super "p + length sep"] 6 delim_sep [of rest xs] tok_run_sep [of sep num "jprint x @ ?r"]
    by (simp add: runs_to_def algebra_simps)
  moreover have "tok_wf (bump_super super (acc @ ?t1)) super" using 6 tok_wf_jtoks(1) by simp
  then have "runs_to num (jelems [CHR '',''] xs) rest (p + length (sep @ jprint x)) super (bump_super super (acc @ ?t1))
      ((bump_super super ^^ length xs) (bump_super super (acc @ ?t1) @
        etoks (length acc + jcount x) (p + length (sep @ jprint x)) super [CHR '',''] xs))"
    using "6.IH"(2) [of rest "bump_super super (acc @ ?t1)" super "p + length (sep @ jprint x)"] 6 by (simp add: algebra_simps)
  ultimately show ?case using runs_to_next 6(6) by (simp add: Let_def algebra_simps) (metis add.assoc append.assoc length_append)
next
  case (8 sep k v kvs)
  let ?key = "sep @ CHR 0x22 # k @ [CHR 0x22, CHR '':'']"
  let ?x = "mk_tok JSMN_STRING (p + length sep + 1) (int (p + length sep + 1 + length k)) 0 super"
  let ?q = "p + length sep + length k + 3" and ?acc = "bump_super super (acc @ [?x])"
  let ?tv = "jtoks (length acc + 1) ?q super v" and ?r = "jmembers [CHR '',''] kvs @ rest"
  have wf: "tok_wf ?acc super" "tok_wf (bump_super super (?acc @ ?tv)) super"
    using 8 tok_wf_jtoks(1) [of ?acc super "length acc + 1"] tok_wf_snoc by simp_all
  have key: "tok_run num (?key @ r) p super acc = tok_run num r ?q super ?acc" for r
    using tok_run_string [of k acc num "CHR '':'' # r" "p + length sep" super] 8
      tok_run_sep [of sep num "CHR 0x22 # k @ CHR 0x22 # CHR '':'' # r" p super acc] tok_run_skip [of "CHR '':''"]
    by (simp add: algebra_simps numeral_3_eq_3)
  have val: "tok_run num (jprint v @ ?r) ?q super ?acc =
      tok_run num ?r (?q + length (jprint v)) super (bump_super super (?acc @ ?tv))"
    using "8.IH"(1) [of ?r ?acc super ?q] 8 wf delim_sep [of rest _ kvs] by (simp add: runs_to_def)
  have rest: "runs_to num (jmembers [CHR '',''] kvs) rest (?q + length (jprint v)) super (bump_super super (?acc @ ?tv))
      ((bump_super super ^^ (2 * length kvs)) (bump_super super (?acc @ ?tv) @
        mtoks (length acc + 1 + jcount v) (?q + length (jprint v)) super [CHR '',''] kvs))"
    using "8.IH"(2) [of rest "bump_super super (?acc @ ?tv)" super "?q + length (jprint v)"] 8 wf by simp
  note step = runs_to_next [OF val rest refl refl wf(1)]
  have "runs_to num (?key @ jprint v @ jmembers [CHR '',''] kvs) rest p super acc
      ((bump_super super ^^ Suc (Suc (2 * length kvs))) (acc @ [?x] @ ?tv @
        mtoks (length acc + 1 + jcount v) (?q + length (jprint v)) super [CHR '',''] kvs))"
    by (rule runs_to_next [OF key step refl _ "8.prems"(4)]) simp
  then show ?case by (simp add: Let_def)
qed (simp_all add: runs_to_def)

theorem tok_run_jprint:
  assumes "jwf j" "jcount j \<le> num"
  shows "tok_run num (jprint j) 0 (-1) [] = JOk (jtoks 0 0 (-1) j)"
proof -
  have "tok_wf [] (-1)" by (simp add: tok_wf_def)
  then have "tok_run num (jprint j) 0 (-1) [] = tok_run num [] (length (jprint j)) (-1) (bump_super (-1) (jtoks 0 0 (-1) j))"
    using runs_to_jprint(1) [of j "[]" "[]" "-1" num 0] assms by (simp add: runs_to_def delim_def)
  moreover have "find_open (jtoks 0 0 (-1) j) (length (jtoks 0 0 (-1) j)) = None"
    using jtoks_closed(1) [OF nth_mem] find_open_SomeD by (metis option.exhaust)
  ultimately show ?thesis by (subst (asm) (2) tok_run.simps) (simp add: bump_super_def)
qed

text \<open>A larger limit does not change a successful result, so a document with more tokens than the limit is refused.\<close>

lemma tok_run_mono:
  "tok_run num s p super toks = JOk out \<Longrightarrow> num \<le> num' \<Longrightarrow> tok_run num' s p super toks = JOk out"
proof (induction num s p super toks rule: tok_run.induct)
  case (1 num s p super toks)
  have sw: "tok_switch num' c r p super toks = JOk x" if "tok_switch num c r p super toks = JOk x" for c r x
    using that 1(3) unfolding tok_switch_def Let_def by (auto split: if_splits option.splits sum.splits)
  show ?case
  proof (cases s)
    case Nil
    with 1(2) show ?thesis by (simp add: tok_run.simps [of _ "[]"])
  next
    case (Cons c r)
    with 1(2) obtain k super' toks' where
      *: "tok_switch num c r p super toks = JOk (k, super', toks')" "tok_run num (drop k s) (p + k) super' toks' = JOk out"
      by (subst (asm) tok_run.simps) (auto split: jres.splits prod.splits)
    from "1.IH" [OF Cons *(1) refl refl *(2) 1(3)] sw [OF *(1)] Cons show ?thesis
      by (subst tok_run.simps) simp
  qed
qed

lemma tok_run_jprint_too_many:
  assumes "jwf j" "num < jcount j"
  shows "\<exists>e. tok_run num (jprint j) 0 (-1) [] = JErr e"
proof (cases "tok_run num (jprint j) 0 (-1) []")
  case (JOk out)
  with assms tok_run_mono [OF JOk, of "jcount j"] tok_run_jprint [of j "jcount j"] have "out = jtoks 0 0 (-1) j" by simp
  moreover have "length out \<le> num"
    using tok_run_result [OF JOk] by (simp add: tok_wf_def tok_bounds_def)
  ultimately show ?thesis using assms(2) by simp
qed (use tok_run_no_overflow in auto)

text \<open>The array parser on a printed document, with enough tokens and with too few.\<close>

lemma jsmn_parse_jprint:
  assumes "jwf j" "jcount j \<le> num" "jcount j \<le> length t"
  obtains n t' where "jsmn_parse jsmn_init (jprint j) t num = JOk (n, t')" "take n t' = jtoks 0 0 (-1) j" "n \<le> length t'"
proof -
  have "map_jres (\<lambda>(n, t). take n t) (jsmn_parse jsmn_init (jprint j) t (jcount j)) = JOk (jtoks 0 0 (-1) j)"
    using jsmn_parse_tok_run(1) [OF assms(3), of "jprint j"] tok_run_jprint [OF assms(1) le_refl] by simp
  then obtain n t' where p: "jsmn_parse jsmn_init (jprint j) t (jcount j) = JOk (n, t')" and "take n t' = jtoks 0 0 (-1) j"
    by (auto simp: map_jres_JOk)
  moreover have "n \<le> length t'" using jsmn_parse_tok_run(2) [OF assms(3) p] assms(3) by simp
  ultimately show thesis using that jsmn_parse_mono [OF p assms(2)] by blast
qed

lemma jsmn_parse_jprint_overflow:
  assumes "jwf j" "length t < jcount j" "length t < num"
  shows "jsmn_parse jsmn_init (jprint j) t num = JOverflow"
proof -
  obtain e where e: "tok_run (length t) (jprint j) 0 (-1) [] = JErr e" using tok_run_jprint_too_many [OF assms(1,2)] by blast
  have "e = JSMN_ERROR_NOMEM"
  proof (rule ccontr)
    assume "e \<noteq> JSMN_ERROR_NOMEM"
    from tok_run_other_error [OF e this] assms(2) tok_run_jprint [OF assms(1) le_refl] show False by simp
  qed
  with e jsmn_parse_tok_run(1) [of "length t" t "jprint j"] have "jsmn_parse jsmn_init (jprint j) t (length t) = JErr JSMN_ERROR_NOMEM"
    by (auto simp: map_jres_def split: jres.splits)
  moreover have "jsmn_parse jsmn_init (jprint j) t num = overflow_of (jsmn_parse jsmn_init (jprint j) t (length t))"
    using assms(3) by (intro jsmn_parse_over) (auto simp: jsmn_init_def tok_wf_def)
  ultimately show ?thesis by simp
qed

subsection \<open>Properties\<close>

text \<open>C18: print and parse. The tokenizer reads every printed document with strings and primitives of the right form as
  the preorder list of its nodes, with exact positions, sizes and parents, as soon as the limit and the array have
  room for its tokens; when the limit exceeds the array and the document has more tokens than the array, the
  parser writes behind the array.\<close>

theorem jsmn_parse_printed:
  assumes "jwf j"
  shows "(jcount j \<le> num \<and> jcount j \<le> length t \<longrightarrow>
      (\<exists>n t'. jsmn_parse jsmn_init (jprint j) t num = JOk (n, t') \<and> take n t' = jtoks 0 0 (-1) j)) \<and>
    (length t < jcount j \<and> length t < num \<longrightarrow> jsmn_parse jsmn_init (jprint j) t num = JOverflow)"
  using jsmn_parse_jprint [OF assms] jsmn_parse_jprint_overflow [OF assms] by metis

theorem jsmn_parse_printed_witness:
  "jwf (JObject [(''a'', JArray [JPrim ''1''])]) \<and>
   (\<exists>n t'. jsmn_parse jsmn_init (jprint (JObject [(''a'', JArray [JPrim ''1''])])) (replicate 9 (mk_tok JSMN_ARRAY 0 0 0 0)) 4
      = JOk (n, t') \<and> take n t' = jtoks 0 0 (-1) (JObject [(''a'', JArray [JPrim ''1''])])) \<and>
   jsmn_parse jsmn_init (jprint (JObject [(''a'', JArray [JPrim ''1''])])) (replicate 3 (mk_tok JSMN_ARRAY 0 0 0 0)) 4 = JOverflow"
proof -
  have "jwf (JObject [(''a'', JArray [JPrim ''1''])])"
    by (simp add: jstr_def jprim_def prim_char_def)
  then show ?thesis using jsmn_parse_printed [of "JObject [(''a'', JArray [JPrim ''1''])]" 4 "replicate 9 (mk_tok JSMN_ARRAY 0 0 0 0)"]
    jsmn_parse_printed [of "JObject [(''a'', JArray [JPrim ''1''])]" 4 "replicate 3 (mk_tok JSMN_ARRAY 0 0 0 0)"] by simp
qed

end
