(* ===== verification/Client_Json.thy ===== *)
theory Client_Json
  imports Json_Tree
begin

text \<open>
  How the client reads responses: the token helpers and parsers of \<open>src/http_client.c\<close>
  (\<open>token_equals\<close> to \<open>parse_ok_response\<close>) over the tokens of \<open>jsmn.h\<close>, with the data types of
  \<open>include/httpfs_protocol.h\<close>. A C string is the list of its characters without the final NUL; a
  token array is a list whose length is the size of the C array. The second half relates the lookups
  to the document that was printed.
\<close>

subsection \<open>Data of the protocol\<close>

definition HTTPFS_MAX_PATH :: nat where "HTTPFS_MAX_PATH = 4096"
definition HTTPFS_MAX_MESSAGE :: nat where "HTTPFS_MAX_MESSAGE = 512"

record httpfs_error =
  errno_value :: int
  message :: string

record httpfs_dir_entry =
  entry_name :: string
  entry_type :: string

record httpfs_meta =
  m_path :: string
  m_type :: string
  m_mode :: u32
  m_size :: int
  m_uid :: u32
  m_gid :: u32
  m_nlink :: u64
  m_atime :: int
  m_mtime :: int
  m_ctime :: int

text \<open>
  The outcome of a client routine: a result, the return value \<open>-1\<close> together with the error it stored,
  or a write behind the end of an array.
\<close>

datatype 'a outcome = Ret 'a | Fail httpfs_error | Crash

fun bind_outcome :: "'a outcome \<Rightarrow> ('a \<Rightarrow> 'b outcome) \<Rightarrow> 'b outcome" where
  "bind_outcome (Ret x) f = f x"
| "bind_outcome (Fail e) f = Fail e"
| "bind_outcome Crash f = Crash"

definition set_error :: "int \<Rightarrow> string \<Rightarrow> httpfs_error" where
  "set_error e msg = \<lparr>errno_value = e, message = fst (snprintf HTTPFS_MAX_MESSAGE msg)\<rparr>"

subsection \<open>Token helpers\<close>

definition token_equals :: "string \<Rightarrow> jsmntok \<Rightarrow> string \<Rightarrow> bool" where
  "token_equals json token value \<longleftrightarrow>
     tok_start token \<ge> 0 \<and> tok_end token \<ge> tok_start token \<and>
     nat (tok_end token - tok_start token) = length value \<and>
     take (length value) (drop (nat (tok_start token)) json) = value"

definition token_to_string :: "string \<Rightarrow> jsmntok \<Rightarrow> nat \<Rightarrow> string option" where
  "token_to_string json token output_size =
     (if tok_start token < 0 \<or> tok_end token < tok_start token then None
      else let len = nat (tok_end token - tok_start token)
           in if len + 1 > output_size then None
              else Some (take len (drop (nat (tok_start token)) json)))"

text \<open>
  The flag is the return value \<open>0\<close>; the number is what \<open>*value\<close> holds afterwards, which is assigned
  before the checks of \<open>endptr\<close>.
\<close>

definition token_to_long :: "string \<Rightarrow> jsmntok \<Rightarrow> int \<Rightarrow> bool \<times> int" where
  "token_to_long json token value =
     (case token_to_string json token 64 of
        None \<Rightarrow> (False, value)
      | Some buffer \<Rightarrow>
          (let (v, endptr) = strtol buffer
           in if endptr = 0 \<or> endptr \<noteq> length buffer then (False, v) else (True, v)))"

function next_token_loop :: "jsmntok list \<Rightarrow> nat \<Rightarrow> int \<Rightarrow> nat \<Rightarrow> nat" where
  "next_token_loop tokens count e i =
     (if i < count \<and> tok_start (tokens ! i) < e then next_token_loop tokens count e (i + 1) else i)"
  by pat_completeness auto
termination by (relation "measure (\<lambda>(tokens, count, e, i). count - i)") auto

declare next_token_loop.simps [simp del]

text \<open>
  \<open>find_object_value\<close> calls this with an index that may be \<open>count\<close>; the C code then reads the \<open>end\<close> of a token that was not
  written. The loop does not run in this case, so that the value has no effect on the result.
\<close>

definition next_token_index :: "jsmntok list \<Rightarrow> nat \<Rightarrow> nat \<Rightarrow> nat" where
  "next_token_index tokens count index = next_token_loop tokens count (tok_end (tokens ! index)) (index + 1)"

lemma next_token_loop_ge: "i \<le> next_token_loop tokens count e i"
proof (induction tokens count e i rule: next_token_loop.induct)
  case (1 tokens count e i)
  then show ?case by (subst next_token_loop.simps) auto
qed

lemma next_token_index_gt: "i < next_token_index tokens count i"
  using next_token_loop_ge [of "i + 1"] by (auto simp: next_token_index_def Suc_le_eq)

function find_value_loop :: "string \<Rightarrow> jsmntok list \<Rightarrow> nat \<Rightarrow> nat \<Rightarrow> int \<Rightarrow> string \<Rightarrow> nat \<Rightarrow> nat option" where
  "find_value_loop json tokens count object_index e key i =
     (if i < count \<and> tok_start (tokens ! i) < e then
        if tok_parent (tokens ! i) = int object_index \<and> tok_type (tokens ! i) = JSMN_STRING \<and>
           token_equals json (tokens ! i) key
        then (if i + 1 < count then Some (i + 1) else None)
        else if tok_parent (tokens ! i) = int object_index \<and> tok_type (tokens ! i) = JSMN_STRING
        then find_value_loop json tokens count object_index e key (next_token_index tokens count (i + 1))
        else find_value_loop json tokens count object_index e key (i + 1)
      else None)"
  by pat_completeness auto
termination
proof (relation "measure (\<lambda>(json, tokens, count, object_index, e, key, i). count - i)", goal_cases)
  case (2 json tokens count object_index e key i)
  then show ?case using next_token_index_gt [of "i + 1" tokens count] by (auto intro: diff_less_mono2)
qed auto

declare find_value_loop.simps [simp del]

text \<open>The return value \<open>-1\<close> is \<open>None\<close>.\<close>

definition find_object_value :: "string \<Rightarrow> jsmntok list \<Rightarrow> nat \<Rightarrow> nat \<Rightarrow> string \<Rightarrow> nat option" where
  "find_object_value json tokens count object_index key =
     find_value_loop json tokens count object_index (tok_end (tokens ! object_index)) key (object_index + 1)"

subsection \<open>Response parsers\<close>

definition parse_response_tokens ::
  "string \<Rightarrow> jsmntok list \<Rightarrow> nat \<Rightarrow> (nat \<times> jsmntok list) outcome" where
  "parse_response_tokens json tokens max_tokens =
     (case jsmn_parse jsmn_init json tokens max_tokens of
        JOverflow \<Rightarrow> Crash
      | JErr e \<Rightarrow> Fail (set_error EIO ''Server returned invalid JSON'')
      | JOk (token_count, tokens') \<Rightarrow>
          if token_count < 1 \<or> tok_type (tokens' ! 0) \<noteq> JSMN_OBJECT
          then Fail (set_error EIO ''Server returned an invalid response format'')
          else Ret (token_count, tokens'))"

definition parse_status_or_error :: "string \<Rightarrow> jsmntok list \<Rightarrow> nat \<Rightarrow> unit outcome" where
  "parse_status_or_error json tokens token_count =
     (case find_object_value json tokens token_count 0 ''status'' of
        None \<Rightarrow> Fail (set_error EIO ''Server response is missing the status field'')
      | Some status_index \<Rightarrow>
          if token_equals json (tokens ! status_index) ''ok'' then Ret ()
          else if token_equals json (tokens ! status_index) ''error'' then
            (let e = (case find_object_value json tokens token_count 0 ''errno'' of
                        None \<Rightarrow> EIO
                      | Some i \<Rightarrow> snd (token_to_long json (tokens ! i) EIO));
                 msg = (case find_object_value json tokens token_count 0 ''message'' of
                          None \<Rightarrow> ''Server returned an error''
                        | Some i \<Rightarrow>
                            (case token_to_string json (tokens ! i) HTTPFS_MAX_MESSAGE of
                               None \<Rightarrow> ''Server returned an error''
                             | Some m \<Rightarrow> m))
             in Fail (set_error e msg))
          else Fail (set_error EIO ''Server returned an unknown status''))"

text \<open>\<open>tokens\<close> is what the local array of 256 tokens holds before the call.\<close>

definition parse_error_response :: "string \<Rightarrow> jsmntok list \<Rightarrow> unit outcome" where
  "parse_error_response json tokens =
     bind_outcome (parse_response_tokens json tokens 256)
       (\<lambda>(token_count, tokens'). parse_status_or_error json tokens' token_count)"

text \<open>The limit is the constant 512, whatever the size of the caller's array.\<close>

definition parse_ok_response :: "string \<Rightarrow> jsmntok list \<Rightarrow> (nat \<times> jsmntok list) outcome" where
  "parse_ok_response json tokens =
     bind_outcome (parse_response_tokens json tokens 512)
       (\<lambda>(token_count, tokens').
          bind_outcome (parse_status_or_error json tokens' token_count) (\<lambda>_. Ret (token_count, tokens')))"

definition long_field :: "string \<Rightarrow> jsmntok list \<Rightarrow> nat \<Rightarrow> int option" where
  "long_field json tokens i =
     (let (ok, v) = token_to_long json (tokens ! i) 0 in if ok then Some v else None)"

text \<open>
  The fields are looked up in the order of the code; the casts to \<open>mode_t\<close>, \<open>uid_t\<close>, \<open>gid_t\<close> and
  \<open>nlink_t\<close> wrap.
\<close>

definition parse_meta_object :: "string \<Rightarrow> jsmntok list \<Rightarrow> nat \<Rightarrow> nat \<Rightarrow> httpfs_meta option" where
  "parse_meta_object json tokens token_count meta_index =
     (let find = find_object_value json tokens token_count meta_index
      in case (find ''path'', find ''type'', find ''mode'', find ''size'', find ''uid'', find ''gid'', find ''nlink'',
               find ''atime'', find ''mtime'', find ''ctime'') of
           (Some path_index, Some type_index, Some mode_index, Some size_index, Some uid_index, Some gid_index,
            Some nlink_index, Some atime_index, Some mtime_index, Some ctime_index) \<Rightarrow>
             (case (token_to_string json (tokens ! path_index) HTTPFS_MAX_PATH,
                    token_to_string json (tokens ! type_index) 8,
                    long_field json tokens mode_index, long_field json tokens size_index,
                    long_field json tokens uid_index, long_field json tokens gid_index,
                    long_field json tokens nlink_index, long_field json tokens atime_index,
                    long_field json tokens mtime_index, long_field json tokens ctime_index) of
                (Some p, Some t, Some mode, Some sz, Some uid, Some gid, Some nlink, Some atime, Some mtime, Some ctime) \<Rightarrow>
                  Some \<lparr>m_path = p, m_type = t, m_mode = word_of_int mode, m_size = sz, m_uid = word_of_int uid,
                        m_gid = word_of_int gid, m_nlink = word_of_int nlink, m_atime = atime, m_mtime = mtime,
                        m_ctime = ctime\<rparr>
              | _ \<Rightarrow> None)
         | _ \<Rightarrow> None)"

subsection \<open>Lookups in a printed document\<close>

text \<open>
  The node \<open>j\<close> of a document: its tokens are the ones from index \<open>i\<close> on, its text begins at \<open>p\<close>, and
  the tokens behind it start behind it.
\<close>

definition node :: "string \<Rightarrow> jsmntok list \<Rightarrow> nat \<Rightarrow> nat \<Rightarrow> nat \<Rightarrow> int \<Rightarrow> json \<Rightarrow> bool" where
  "node json T n i p par j \<longleftrightarrow> jwf j \<and> n \<le> length T \<and>
     (\<exists>pre post u w. take n T = pre @ jtoks i p par j @ post \<and> length pre = i \<and> json = u @ jprint j @ w \<and> length u = p \<and>
        (\<forall>t \<in> set post. int (p + length (jprint j)) \<le> tok_start t))"

lemma jtoks_starts:
  "jwf j \<Longrightarrow> t \<in> set (jtoks b p par j) \<Longrightarrow> int p \<le> tok_start t \<and> tok_start t < int (p + length (jprint j))"
  "\<forall>x \<in> set xs. jwf x \<Longrightarrow> t \<in> set (etoks b p par sep xs) \<Longrightarrow>
   int p \<le> tok_start t \<and> tok_start t < int (p + length (jelems sep xs))"
  "\<forall>kv \<in> set kvs. jstr (fst kv) \<and> jwf (snd kv) \<Longrightarrow> t \<in> set (mtoks b p par sep kvs) \<Longrightarrow>
   int p \<le> tok_start t \<and> tok_start t < int (p + length (jmembers sep kvs))"
proof (induction b p par j and b p par sep xs and b p par sep kvs rule: jtoks_etoks_mtoks.induct)
  case (6 b p par sep x xs)
  then show ?case by (fastforce simp: Let_def)
next
  case (8 b p par sep k v kvs)
  then show ?case by (fastforce simp: Let_def mk_tok_def)
qed (auto simp: mk_tok_def jprim_def)

lemma jtoks_hd: "\<exists>ts. jtoks b p par j = hd (jtoks b p par j) # ts"
  by (cases j) auto

lemma next_token_loop_eqI:
  assumes "i \<le> m" "m \<le> n" "\<And>k. i \<le> k \<Longrightarrow> k < m \<Longrightarrow> tok_start (T ! k) < e" "m < n \<Longrightarrow> e \<le> tok_start (T ! m)"
  shows "next_token_loop T n e i = m"
  using assms
proof (induction "m - i" arbitrary: i)
  case 0
  then show ?case by (subst next_token_loop.simps) auto
next
  case (Suc d)
  then show ?case by (subst next_token_loop.simps) auto
qed

lemma node_tok:
  assumes "node json T n i p par j" "k < jcount j"
  shows "i + k < n \<and> T ! (i + k) = jtoks i p par j ! k"
proof -
  obtain pre post where *: "take n T = pre @ jtoks i p par j @ post" "length pre = i" "n \<le> length T"
    using assms(1) by (auto simp: node_def)
  have "i + k < n" using arg_cong [OF *(1), of length] *(2,3) assms(2) by simp
  moreover from this have "take n T ! (i + k) = jtoks i p par j ! k" using * assms(2) by (simp add: nth_append)
  ultimately show ?thesis by simp
qed

lemma jcount_pos [simp]: "0 < jcount j"
  by (cases j) auto

lemma jtoks_end:
  "jtoks b p par j ! 0 \<in> set (jtoks b p par j)"
  "jwf j \<Longrightarrow> k < jcount j \<Longrightarrow> 0 < k \<Longrightarrow> tok_start (jtoks b p par j ! k) < tok_end (jtoks b p par j ! 0)"
  "tok_end (jtoks b p par j ! 0) \<le> int (p + length (jprint j))"
proof -
  show "jtoks b p par j ! 0 \<in> set (jtoks b p par j)" by simp
  show "tok_end (jtoks b p par j ! 0) \<le> int (p + length (jprint j))" by (cases j) (auto simp: mk_tok_def)
  assume wf: "jwf j" and k: "k < jcount j" "0 < k"
  have "tok_start (jtoks b p par j ! k) < int (p + length (jprint j))"
    using jtoks_starts(1) [OF wf nth_mem, of k b p par] k by simp
  then show "tok_start (jtoks b p par j ! k) < tok_end (jtoks b p par j ! 0)"
    using k by (cases j) (auto simp: mk_tok_def)
qed

lemma next_token_index_node:
  assumes "node json T n i p par j"
  shows "next_token_index T n i = i + jcount j"
proof -
  obtain pre post where *: "take n T = pre @ jtoks i p par j @ post" "length pre = i" "n \<le> length T"
      "\<forall>t \<in> set post. int (p + length (jprint j)) \<le> tok_start t" and wf: "jwf j"
    using assms(1) by (auto simp: node_def)
  have n: "n = i + jcount j + length post" using arg_cong [OF *(1), of length] *(2,3) by simp
  have T: "T ! i = jtoks i p par j ! 0" using node_tok [OF assms, of 0] by simp
  show ?thesis unfolding next_token_index_def
  proof (rule next_token_loop_eqI)
    fix k assume "i + 1 \<le> k" "k < i + jcount j"
    then show "tok_start (T ! k) < tok_end (T ! i)"
      using node_tok [OF assms, of "k - i"] jtoks_end(2) [OF wf, of "k - i"] T by simp
  next
    assume "i + jcount j < n"
    then have "post \<noteq> []" and "T ! (i + jcount j) = take n T ! (i + jcount j)" using n by auto
    then have "T ! (i + jcount j) \<in> set post" using * by (simp add: nth_append)
    then show "tok_end (T ! i) \<le> tok_start (T ! (i + jcount j))"
      using *(4) jtoks_end(3) [of i p par j] T by fastforce
  qed (use n in \<open>simp_all add: Suc_le_eq\<close>)
qed

lemma token_equals_string:
  assumes "node json T n i p par (JString s)"
  shows "token_equals json (T ! i) value \<longleftrightarrow> s = value"
    and "token_to_string json (T ! i) m = (if length s + 1 > m then None else Some s)"
proof -
  have "T ! i = mk_tok JSMN_STRING (p + 1) (int (p + 1 + length s)) 0 par" using node_tok [OF assms, of 0] by simp
  moreover from assms obtain u w where "json = u @ CHR 0x22 # s @ CHR 0x22 # w" "length u = p" by (auto simp: node_def)
  ultimately show "token_equals json (T ! i) value \<longleftrightarrow> s = value"
    and "token_to_string json (T ! i) m = (if length s + 1 > m then None else Some s)"
    by (auto simp: token_equals_def token_to_string_def mk_tok_def Let_def nat_add_distrib)
qed

lemma token_to_string_prim:
  assumes "node json T n i p par (JPrim s)"
  shows "token_to_string json (T ! i) m = (if length s + 1 > m then None else Some s)"
proof -
  have "T ! i = mk_tok JSMN_PRIMITIVE p (int (p + length s)) 0 par" using node_tok [OF assms, of 0] by simp
  moreover from assms obtain u w where "json = u @ s @ w" "length u = p" by (auto simp: node_def)
  ultimately show ?thesis by (auto simp: token_to_string_def mk_tok_def Let_def)
qed

lemma strtol_shown: "LONG_MIN \<le> i \<Longrightarrow> i \<le> LONG_MAX \<Longrightarrow> strtol (show_int i) = (i, length (show_int i))"
  using strtol10_show_int [of LONG_MIN i LONG_MAX "[]"] by (simp add: strtol_def)

lemma show_int_nonempty [simp]: "show_int i \<noteq> []"
  by (simp add: show_int_def)

lemma token_to_long_prim:
  assumes "node json T n i p par (JPrim (show_int k))" "LONG_MIN \<le> k" "k \<le> LONG_MAX"
  shows "token_to_long json (T ! i) x = (True, k)"
  using assms length_show_int_le [of k]
  by (simp add: token_to_long_def token_to_string_prim [OF assms(1)] strtol_shown)

lemma long_field_prim:
  assumes "node json T n i p par (JPrim (show_int k))" "LONG_MIN \<le> k" "k \<le> LONG_MAX"
  shows "long_field json T i = Some k"
  by (simp add: long_field_def token_to_long_prim [OF assms])

lemma find_value_loop_members:
  assumes "take n T = pre @ mtoks (length pre) q (int obj) sep kvs @ post" "n \<le> length T"
    and "json = u @ jmembers sep kvs @ w" "length u = q" "int (q + length (jmembers sep kvs)) < e"
    and "\<forall>t \<in> set post. e \<le> tok_start t" "\<forall>kv \<in> set kvs. jstr (fst kv) \<and> jwf (snd kv)"
  shows "case map_of kvs key of
      None \<Rightarrow> find_value_loop json T n obj e key (length pre) = None
    | Some v \<Rightarrow> \<exists>i p. find_value_loop json T n obj e key (length pre) = Some i \<and> node json T n i p (int obj) v"
  using assms
proof (induction kvs arbitrary: pre q sep u)
  case Nil
  have "n = length pre + length post" using arg_cong [OF Nil(1), of length] Nil(2) by simp
  then have "n > length pre \<Longrightarrow> T ! length pre \<in> set post"
    using Nil(1) by (metis append_Nil length_greater_0_conv less_add_same_cancel1 mtoks.simps(1) nth_append_length_plus
        nth_mem nth_take add_0_right)
  then show ?case using Nil(6) by (subst find_value_loop.simps) fastforce
next
  case (Cons kv kvs)
  obtain k v where kv: "kv = (k, v)" by (cases kv)
  let ?x = "mk_tok JSMN_STRING (q + length sep + 1) (int (q + length sep + 1 + length k)) 0 (int obj)"
  let ?q = "q + length sep + length k + 3"
  let ?tv = "jtoks (length pre + 1) ?q (int obj) v"
  let ?tr = "mtoks (length pre + 1 + jcount v) (?q + length (jprint v)) (int obj) [CHR '',''] kvs"
  let ?uk = "u @ sep @ CHR 0x22 # k @ [CHR 0x22, CHR '':'']"
  have T: "take n T = (pre @ [?x]) @ ?tv @ ?tr @ post" using Cons(2) kv by (simp add: Let_def)
  have json: "json = ?uk @ jprint v @ jmembers [CHR '',''] kvs @ w" using Cons(4) kv by simp
  have wf: "jstr k" "jwf v" "\<forall>kv \<in> set kvs. jstr (fst kv) \<and> jwf (snd kv)" using Cons(8) kv by auto
  have e: "int (?q + length (jprint v) + length (jmembers [CHR '',''] kvs)) < e" using Cons(6) kv by simp
  have n: "n = length pre + 1 + jcount v + length ?tr + length post" using arg_cong [OF T, of length] Cons(3) by simp
  have x: "T ! length pre = ?x"
    using arg_cong [OF T, of "\<lambda>t. t ! length pre"] n by (simp add: nth_append)
  have "int (?q + length (jprint v)) \<le> tok_start t" if "t \<in> set (?tr @ post)" for t
    using that jtoks_starts(3) [OF wf(3), of t] Cons(7) e by fastforce
  then have v: "node json T n (length pre + 1) ?q (int obj) v"
    unfolding node_def using T json wf(2) Cons(3,5)
    by (intro conjI exI [of _ "pre @ [?x]"] exI [of _ "?tr @ post"] exI [of _ ?uk] exI [of _ "jmembers [CHR '',''] kvs @ w"])
      auto
  have eq: "token_equals json (T ! length pre) key \<longleftrightarrow> k = key"
    using json Cons(5) unfolding x by (auto simp: token_equals_def mk_tok_def nat_add_distrib)
  have here: "length pre < n \<and> tok_start (T ! length pre) < e \<and> tok_parent (T ! length pre) = int obj \<and>
      tok_type (T ! length pre) = JSMN_STRING" using n e unfolding x by (simp add: mk_tok_def)
  show ?case
  proof (cases "k = key")
    case True
    have "find_value_loop json T n obj e key (length pre) = Some (length pre + 1)"
      using True here eq n jcount_pos [of v] by (subst find_value_loop.simps) simp
    then show ?thesis using True kv v by auto
  next
    case False
    have "find_value_loop json T n obj e key (length pre) = find_value_loop json T n obj e key (length (pre @ [?x] @ ?tv))"
      using False here eq next_token_index_node [OF v] by (subst find_value_loop.simps) simp
    moreover have "case map_of kvs key of
        None \<Rightarrow> find_value_loop json T n obj e key (length (pre @ [?x] @ ?tv)) = None
      | Some v \<Rightarrow> \<exists>i p. find_value_loop json T n obj e key (length (pre @ [?x] @ ?tv)) = Some i \<and> node json T n i p (int obj) v"
      by (rule Cons.IH [where q = "?q + length (jprint v)" and sep = "[CHR '','']" and u = "?uk @ jprint v"])
        (use T json e Cons wf in auto)
    ultimately show ?thesis using False kv by (simp split: option.splits)
  qed
qed

text \<open>The lookup of a key in an object of the document.\<close>

lemma find_member:
  assumes "node json T n obj p par (JObject kvs)"
  shows "map_of kvs key = None \<Longrightarrow> find_object_value json T n obj key = None"
    and "map_of kvs key = Some v \<Longrightarrow> \<exists>i q. find_object_value json T n obj key = Some i \<and> node json T n i q (int obj) v"
proof -
  obtain pre post u w where *: "take n T = pre @ jtoks obj p par (JObject kvs) @ post" "length pre = obj"
      "json = u @ jprint (JObject kvs) @ w" "length u = p" "n \<le> length T" "jwf (JObject kvs)"
      "\<forall>t \<in> set post. int (p + length (jprint (JObject kvs))) \<le> tok_start t"
    using assms by (auto simp: node_def)
  let ?x = "jtoks obj p par (JObject kvs) ! 0"
  have "T ! obj = ?x" using node_tok [OF assms, of 0] by simp
  then have e: "tok_end (T ! obj) = int (p + length (jprint (JObject kvs)))" by (simp add: mk_tok_def)
  have "case map_of kvs key of
      None \<Rightarrow> find_value_loop json T n obj (tok_end (T ! obj)) key (length (pre @ [?x])) = None
    | Some v \<Rightarrow> \<exists>i p. find_value_loop json T n obj (tok_end (T ! obj)) key (length (pre @ [?x])) = Some i \<and>
        node json T n i p (int obj) v"
    using * e
    by (intro find_value_loop_members [where sep = "[]" and q = "p + 1" and post = post
          and u = "u @ [CHR ''{'']" and w = "CHR ''}'' # w"]) auto
  then show "map_of kvs key = None \<Longrightarrow> find_object_value json T n obj key = None"
    and "map_of kvs key = Some v \<Longrightarrow> \<exists>i q. find_object_value json T n obj key = Some i \<and> node json T n i q (int obj) v"
    using *(2) by (auto simp: find_object_value_def)
qed

lemma parse_response_printed:
  assumes "jwf (JObject kvs)" "jcount (JObject kvs) \<le> num" "jcount (JObject kvs) \<le> length tokens" "json = jprint (JObject kvs)"
  obtains n T where "parse_response_tokens json tokens num = Ret (n, T)" "node json T n 0 0 (-1) (JObject kvs)"
proof -
  let ?j = "JObject kvs"
  obtain n T where p: "jsmn_parse jsmn_init json tokens num = JOk (n, T)" and T: "take n T = jtoks 0 0 (-1) ?j"
    and n: "n \<le> length T"
    using jsmn_parse_jprint [OF assms(1-3)] assms(4) by metis
  have "n = jcount ?j" using arg_cong [OF T, of length] n by simp
  moreover have node: "node json T n 0 0 (-1) ?j"
    unfolding node_def using assms(1,4) n T by (intro conjI exI [of _ "[]"]) auto
  moreover have "tok_type (T ! 0) = JSMN_OBJECT" using node_tok [OF node, of 0] by (simp add: mk_tok_def)
  ultimately show thesis using that p by (simp add: parse_response_tokens_def)
qed

text \<open>Responses with status \<open>ok\<close> or \<open>error\<close>.\<close>

lemma status_ok_printed:
  assumes "node json T n 0 0 (-1) (JObject kvs)" "map_of kvs ''status'' = Some (JString ''ok'')"
  shows "parse_status_or_error json T n = Ret ()"
proof -
  obtain i q where "find_object_value json T n 0 ''status'' = Some i" "node json T n i q 0 (JString ''ok'')"
    using find_member(2) [OF assms] by auto
  then show ?thesis using token_equals_string(1) [of json T n i q 0 "''ok''"] by (simp add: parse_status_or_error_def)
qed

lemma status_error_printed:
  assumes node: "node json T n 0 0 (-1) (JObject kvs)"
    and status: "map_of kvs ''status'' = Some (JString ''error'')"
    and errno: "map_of kvs ''errno'' = Some v" "v = JPrim s \<or> v = JString s" "length s < 64"
    and msg: "map_of kvs ''message'' = Some (JString m)" "length m < HTTPFS_MAX_MESSAGE"
  shows "parse_status_or_error json T n = Fail (set_error (fst (strtol s)) m)"
proof -
  obtain i q where i: "find_object_value json T n 0 ''status'' = Some i" "node json T n i q 0 (JString ''error'')"
    using find_member(2) [OF node status] by auto
  obtain j q' where j: "find_object_value json T n 0 ''errno'' = Some j" "node json T n j q' 0 v"
    using find_member(2) [OF node errno(1)] by auto
  obtain k q'' where k: "find_object_value json T n 0 ''message'' = Some k" "node json T n k q'' 0 (JString m)"
    using find_member(2) [OF node msg(1)] by auto
  have "token_to_string json (T ! j) 64 = Some s"
    using j(2) errno(2,3) token_to_string_prim [of json T n j q' 0 s 64] token_equals_string(2) [of json T n j q' 0 s 64] by auto
  then have "snd (token_to_long json (T ! j) EIO) = fst (strtol s)"
    by (simp add: token_to_long_def split: prod.splits)
  then show ?thesis
    using i j k msg(2) token_equals_string(1) [OF i(2)] token_equals_string(2) [OF k(2)]
    by (simp add: parse_status_or_error_def)
qed

lemma parse_ok_printed:
  assumes "jwf (JObject kvs)" "jcount (JObject kvs) \<le> 512" "jcount (JObject kvs) \<le> length tokens" "json = jprint (JObject kvs)"
    and "map_of kvs ''status'' = Some (JString ''ok'')"
  obtains n T where "parse_ok_response json tokens = Ret (n, T)" "node json T n 0 0 (-1) (JObject kvs)"
  using parse_response_printed [OF assms(1-4)] status_ok_printed [OF _ assms(5)]
  by (metis (no_types, lifting) bind_outcome.simps(1) case_prod_conv parse_ok_response_def)

lemma parse_error_printed:
  assumes "jwf (JObject kvs)" "jcount (JObject kvs) \<le> 512" "jcount (JObject kvs) \<le> length tokens" "json = jprint (JObject kvs)"
    and "map_of kvs ''status'' = Some (JString ''error'')"
    and "map_of kvs ''errno'' = Some v" "v = JPrim s \<or> v = JString s" "length s < 64"
    and "map_of kvs ''message'' = Some (JString m)" "length m < HTTPFS_MAX_MESSAGE"
  shows "parse_ok_response json tokens = Fail (set_error (fst (strtol s)) m)"
  using parse_response_printed [OF assms(1-4)] status_error_printed [OF _ assms(5-)]
  by (metis (no_types, lifting) bind_outcome.simps case_prod_conv parse_ok_response_def)

lemma parse_ok_overflow:
  assumes "jwf j" "length tokens < jcount j" "length tokens < 512"
  shows "parse_ok_response (jprint j) tokens = Crash"
  using jsmn_parse_jprint_overflow [OF assms(1,2), of 512] assms(3)
  by (simp add: parse_ok_response_def parse_response_tokens_def)

subsection \<open>Properties\<close>

text \<open>C19: lookups agree with the document. In a printed response that fits the limit and the array, the client's
  lookup of a key finds a value exactly when the object has the key, and for a string value the text it copies
  into a large enough buffer is the text of that string.\<close>

theorem response_lookup:
  assumes "jwf (JObject kvs)" "jcount (JObject kvs) \<le> num" "jcount (JObject kvs) \<le> length tokens"
  shows "\<exists>n T. parse_response_tokens (jprint (JObject kvs)) tokens num = Ret (n, T) \<and>
    (\<forall>key. find_object_value (jprint (JObject kvs)) T n 0 key = None \<longleftrightarrow> map_of kvs key = None) \<and>
    (\<forall>key s m. map_of kvs key = Some (JString s) \<and> length s < m \<longrightarrow>
       (\<exists>i. find_object_value (jprint (JObject kvs)) T n 0 key = Some i \<and>
          token_to_string (jprint (JObject kvs)) (T ! i) m = Some s))"
proof -
  obtain n T where p: "parse_response_tokens (jprint (JObject kvs)) tokens num = Ret (n, T)"
    and node: "node (jprint (JObject kvs)) T n 0 0 (-1) (JObject kvs)"
    using parse_response_printed [OF assms refl] .
  have "find_object_value (jprint (JObject kvs)) T n 0 key = None \<longleftrightarrow> map_of kvs key = None" for key
    using find_member [OF node, of key] by (cases "map_of kvs key") auto
  moreover have "\<exists>i. find_object_value (jprint (JObject kvs)) T n 0 key = Some i \<and>
      token_to_string (jprint (JObject kvs)) (T ! i) m = Some s"
    if "map_of kvs key = Some (JString s)" "length s < m" for key s m
    using find_member(2) [OF node that(1)] token_equals_string(2) that(2) by fastforce
  ultimately show ?thesis using p by blast
qed

theorem response_lookup_witness:
  "\<exists>n T. parse_response_tokens (jprint (JObject [(''status'', JString ''ok'')])) (replicate 4 (mk_tok JSMN_ARRAY 0 0 0 0)) 4 = Ret (n, T) \<and>
     find_object_value (jprint (JObject [(''status'', JString ''ok'')])) T n 0 ''errno'' = None"
  using response_lookup [of "[(''status'', JString ''ok'')]" 4 "replicate 4 (mk_tok JSMN_ARRAY 0 0 0 0)"]
  by (auto simp: jstr_def)

text \<open>C33: what the client makes of an error response. It fails with the message of the response and with what
  \<open>strtol\<close> reads at the start of the \<open>errno\<close> member, a primitive or a string; the check of the rest of the
  text has no effect. So a number is taken over whatever characters follow it, and a text that does not start with
  a number, such as \<open>null\<close>, gives the error number 0.\<close>

theorem error_response_errno:
  assumes "jwf (JObject kvs)" "jcount (JObject kvs) \<le> 512" "jcount (JObject kvs) \<le> length tokens"
    and "map_of kvs ''status'' = Some (JString ''error'')"
    and "map_of kvs ''errno'' = Some v" "v = JPrim s \<or> v = JString s" "length s < 64"
    and "map_of kvs ''message'' = Some (JString m)" "length m < HTTPFS_MAX_MESSAGE"
  shows "parse_ok_response (jprint (JObject kvs)) tokens = Fail \<lparr>errno_value = fst (strtol s), message = m\<rparr> \<and>
    (\<forall>i r. s = show_int i @ r \<and> LONG_MIN \<le> i \<and> i \<le> LONG_MAX \<and> (r = [] \<or> \<not> is_digit (hd r)) \<longrightarrow>
       parse_ok_response (jprint (JObject kvs)) tokens = Fail \<lparr>errno_value = i, message = m\<rparr>) \<and>
    (snd (strtol s) = 0 \<longrightarrow> parse_ok_response (jprint (JObject kvs)) tokens = Fail \<lparr>errno_value = 0, message = m\<rparr>)"
proof -
  have 1: "parse_ok_response (jprint (JObject kvs)) tokens = Fail \<lparr>errno_value = fst (strtol s), message = m\<rparr>"
    using parse_error_printed [OF assms(1-3) refl assms(4-)] assms(9) by (simp add: set_error_def snprintf_def HTTPFS_MAX_MESSAGE_def)
  have 2: "fst (strtol s) = 0" if "snd (strtol s) = 0"
    using that by (auto simp: strtol_def strtol10_def Let_def split: if_splits)
  show ?thesis using 1 2 by (auto simp: strtol_def strtol10_show_int)
qed

theorem error_response_errno_witness:
  "parse_ok_response (jprint (JObject [(''status'', JString ''error''), (''errno'', JString ''2x''), (''message'', JString ''gone'')]))
     (replicate 128 (mk_tok JSMN_ARRAY 0 0 0 0)) = Fail \<lparr>errno_value = 2, message = ''gone''\<rparr> \<and>
   parse_ok_response (jprint (JObject [(''status'', JString ''error''), (''errno'', JPrim ''null''), (''message'', JString ''gone'')]))
     (replicate 128 (mk_tok JSMN_ARRAY 0 0 0 0)) = Fail \<lparr>errno_value = 0, message = ''gone''\<rparr>"
proof
  have wf: "jwf (JObject [(''status'', JString ''error''), (''errno'', JString ''2x''), (''message'', JString ''gone'')])"
    "jwf (JObject [(''status'', JString ''error''), (''errno'', JPrim ''null''), (''message'', JString ''gone'')])"
    by (simp_all add: jstr_def jprim_def prim_char_def)
  show "parse_ok_response (jprint (JObject [(''status'', JString ''error''), (''errno'', JString ''2x''), (''message'', JString ''gone'')]))
     (replicate 128 (mk_tok JSMN_ARRAY 0 0 0 0)) = Fail \<lparr>errno_value = 2, message = ''gone''\<rparr>"
    using error_response_errno [OF wf(1), of "replicate 128 (mk_tok JSMN_ARRAY 0 0 0 0)" "JString ''2x''" "''2x''" "''gone''"]
    by (simp add: HTTPFS_MAX_MESSAGE_def strtol_def strtol10_def is_space_def is_digit_def dec_val_def
        digit_val_def LONG_MIN_def LONG_MAX_def)
  show "parse_ok_response (jprint (JObject [(''status'', JString ''error''), (''errno'', JPrim ''null''), (''message'', JString ''gone'')]))
     (replicate 128 (mk_tok JSMN_ARRAY 0 0 0 0)) = Fail \<lparr>errno_value = 0, message = ''gone''\<rparr>"
    using error_response_errno [OF wf(2), of "replicate 128 (mk_tok JSMN_ARRAY 0 0 0 0)" "JPrim ''null''" "''null''" "''gone''"]
    by (simp add: HTTPFS_MAX_MESSAGE_def strtol_def strtol10_def is_space_def is_digit_def)
qed

text \<open>C34: \<open>parse_ok_response\<close> passes the limit 512 to the tokenizer whatever array its caller has: a response with
  more tokens than a smaller array makes the parser write behind the array.\<close>

theorem parse_ok_response_overflows:
  assumes "jwf j" "length tokens < jcount j" "length tokens < 512"
  shows "parse_ok_response (jprint j) tokens = Crash"
  using parse_ok_overflow [OF assms] .

theorem parse_ok_response_overflows_witness:
  "parse_ok_response (jprint (JArray (replicate 128 (JPrim ''0'')))) (replicate 128 (mk_tok JSMN_ARRAY 0 0 0 0)) = Crash"
proof (rule parse_ok_response_overflows)
  show "jwf (JArray (replicate 128 (JPrim ''0'')))" by (simp add: jprim_def prim_char_def)
  show "length (replicate 128 (mk_tok JSMN_ARRAY 0 0 0 0)) < jcount (JArray (replicate 128 (JPrim ''0'')))"
    by (simp add: sum_list_replicate)
qed simp

end
