(* ===== verification/Json_Utils.thy ===== *)
theory Json_Utils
  imports C_Lib
begin

unbundle bit_operations_syntax

text \<open>
  \<open>src/json_utils.c\<close>: JSON string escaping into a fixed buffer and the hexadecimal encoding.
  A function that returns 0 and fills an output buffer of \<open>n\<close> bytes is modelled as \<open>Some\<close> of
  the string in the buffer, the return value \<open>-1\<close> as \<open>None\<close>. The reference \<open>json_escape\<close>
  gives the text without the capacity checks, and \<open>json_unescape\<close> is the decoder of RFC 8259
  for the escapes the encoder emits. The locale \<open>buffer_codec\<close> is the contract of an encoder
  into a bounded buffer; both encoders of this file are instances.
\<close>

subsection \<open>Definitions\<close>

definition hex_digits :: string where
  "hex_digits = ''0123456789abcdef''"

definition unicode_escape :: "char \<Rightarrow> string" where
  "unicode_escape ch = [CHR 0x5C, CHR ''u'', CHR ''0'', CHR ''0'',
     hex_digits ! ((of_char ch :: nat) div 16), hex_digits ! ((of_char ch :: nat) mod 16)]"

text \<open>The loop of \<open>json_escape_string\<close>: \<open>out\<close> is what has been written, so \<open>out_pos\<close> is its length.\<close>

fun json_escape_loop :: "string \<Rightarrow> string \<Rightarrow> nat \<Rightarrow> string option" where
  "json_escape_loop [] out n = Some out"
| "json_escape_loop (ch # input) out n =
     (if length out + 2 \<ge> n then None
      else if ch = CHR 0x5C \<or> ch = CHR 0x22 then json_escape_loop input (out @ [CHR 0x5C, ch]) n
      else if ch = CHR 0x08 then json_escape_loop input (out @ [CHR 0x5C, CHR ''b'']) n
      else if ch = CHR 0x0C then json_escape_loop input (out @ [CHR 0x5C, CHR ''f'']) n
      else if ch = CHR 0x0A then json_escape_loop input (out @ [CHR 0x5C, CHR ''n'']) n
      else if ch = CHR 0x0D then json_escape_loop input (out @ [CHR 0x5C, CHR ''r'']) n
      else if ch = CHR 0x09 then json_escape_loop input (out @ [CHR 0x5C, CHR ''t'']) n
      else if (of_char ch :: nat) < 0x20 then
        (if length out + 6 \<ge> n then None
         else json_escape_loop input (out @ unicode_escape ch) n)
      else json_escape_loop input (out @ [ch]) n)"

definition json_escape_string :: "string \<Rightarrow> nat \<Rightarrow> string option" where
  "json_escape_string input n = (if n = 0 then None else json_escape_loop input [] n)"

definition hex_nibble :: "char \<Rightarrow> int" where
  "hex_nibble ch =
     (let c = int (of_char ch)
      in if 48 \<le> c \<and> c \<le> 57 then c - 48
         else if 97 \<le> c \<and> c \<le> 102 then c - 97 + 10
         else if 65 \<le> c \<and> c \<le> 70 then c - 65 + 10
         else -1)"

definition hex_byte :: "u8 \<Rightarrow> string" where
  "hex_byte b = [hex_digits ! unat (drop_bit 4 b AND 0x0f), hex_digits ! unat (b AND 0x0f)]"

definition hex_encode :: "u8 list \<Rightarrow> nat \<Rightarrow> string option" where
  "hex_encode input n =
     (if n < length input * 2 + 1 then None else Some (concat (map hex_byte input)))"

fun hex_decode_loop :: "string \<Rightarrow> u8 list \<Rightarrow> u8 list option" where
  "hex_decode_loop (c # d # input) out =
     (let high = hex_nibble c; low = hex_nibble d
      in if high < 0 \<or> low < 0 then None
         else hex_decode_loop input (out @ [word_of_int (push_bit 4 high OR low)]))"
| "hex_decode_loop _ out = Some out"

definition hex_decode :: "string \<Rightarrow> nat \<Rightarrow> u8 list option" where
  "hex_decode input n =
     (if length input mod 2 \<noteq> 0 then None
      else if n < length input div 2 then None
      else hex_decode_loop input [])"

text \<open>The reference encoder and decoder.\<close>

definition escape_char :: "char \<Rightarrow> string" where
  "escape_char ch =
     (if ch = CHR 0x5C \<or> ch = CHR 0x22 then [CHR 0x5C, ch]
      else if ch = CHR 0x08 then [CHR 0x5C, CHR ''b'']
      else if ch = CHR 0x0C then [CHR 0x5C, CHR ''f'']
      else if ch = CHR 0x0A then [CHR 0x5C, CHR ''n'']
      else if ch = CHR 0x0D then [CHR 0x5C, CHR ''r'']
      else if ch = CHR 0x09 then [CHR 0x5C, CHR ''t'']
      else if (of_char ch :: nat) < 0x20 then unicode_escape ch
      else [ch])"

definition json_escape :: "string \<Rightarrow> string" where
  "json_escape s = concat (map escape_char s)"

fun json_unescape :: "string \<Rightarrow> string option" where
  "json_unescape [] = Some []"
| "json_unescape (c # s) =
     (if c = CHR 0x22 \<or> (of_char c :: nat) < 0x20 then None
      else if c \<noteq> CHR 0x5C then map_option ((#) c) (json_unescape s)
      else (case s of
        [] \<Rightarrow> None
      | e # r \<Rightarrow>
          if e = CHR 0x5C \<or> e = CHR 0x22 \<or> e = CHR ''/'' then map_option ((#) e) (json_unescape r)
          else if e = CHR ''b'' then map_option ((#) (CHR 0x08)) (json_unescape r)
          else if e = CHR ''f'' then map_option ((#) (CHR 0x0C)) (json_unescape r)
          else if e = CHR ''n'' then map_option ((#) (CHR 0x0A)) (json_unescape r)
          else if e = CHR ''r'' then map_option ((#) (CHR 0x0D)) (json_unescape r)
          else if e = CHR ''t'' then map_option ((#) (CHR 0x09)) (json_unescape r)
          else if e = CHR ''u'' then
            (case r of
              g # h # i # j # q \<Rightarrow>
                if hex_nibble g = 0 \<and> hex_nibble h = 0 \<and> 0 \<le> hex_nibble i \<and> 0 \<le> hex_nibble j
                then map_option ((#) (char_of (nat (16 * hex_nibble i + hex_nibble j)))) (json_unescape q)
                else None
            | _ \<Rightarrow> None)
          else None))"

subsection \<open>The contract of an encoder into a bounded buffer\<close>

locale buffer_codec =
  fixes enc :: "'a \<Rightarrow> nat \<Rightarrow> 'b list option"
    and dec :: "'b list \<Rightarrow> 'a option"
  assumes dec_enc: "enc x n = Some y \<Longrightarrow> dec y = Some x"
    and enc_fits: "enc x n = Some y \<Longrightarrow> length y < n"
begin

lemma enc_inj: "enc x n = Some y \<Longrightarrow> enc x' n' = Some y \<Longrightarrow> x = x'"
  by (metis dec_enc option.inject)

lemma enc_empty_buffer: "enc x 0 = None"
  using enc_fits [of x 0] by (cases "enc x 0") auto

end

subsection \<open>Hexadecimal digits\<close>

lemma length_hex_digits [simp]: "length hex_digits = 16"
  by (simp add: hex_digits_def)

lemma less_16_cases:
  assumes "(k::nat) < 16"
  shows "k \<in> {0,1,2,3,4,5,6,7,8,9,10,11,12,13,14,15}"
  using assms by simp presburger

lemma hex_nibble_hex_digits [simp]: "k < 16 \<Longrightarrow> hex_nibble (hex_digits ! k) = int k"
  by (drule less_16_cases) (auto simp: hex_digits_def hex_nibble_def)

lemma hex_nibble_less: "hex_nibble c < 16"
  by (auto simp: hex_nibble_def Let_def)

lemma hex_digits_printable: "k < 16 \<Longrightarrow> 48 \<le> (of_char (hex_digits ! k) :: nat)"
  by (drule less_16_cases) (auto simp: hex_digits_def)

lemma nibble_join: "push_bit 4 (h :: int) OR l = 16 * h + l" if "0 \<le> l" "l < 16"
proof -
  have "push_bit 4 h AND l = 0"
  proof (rule bit_eqI)
    fix n
    have "bit l n \<longleftrightarrow> n < 4 \<and> bit l n"
    proof -
      have "l = take_bit 4 l" using that by (simp add: take_bit_eq_mod)
      then show ?thesis by (metis bit_take_bit_iff)
    qed
    then show "bit (push_bit 4 h AND l) n = bit (0::int) n"
      by (auto simp: bit_and_iff bit_push_bit_iff)
  qed
  then have "push_bit 4 h OR l = push_bit 4 h + l"
    by (simp add: disjunctive_add_eq_or)
  then show ?thesis by (simp add: push_bit_eq_mult)
qed

lemma nibble_split: "16 * int (n div 16) + int (n mod 16) = int n"
proof -
  have "16 * int (n div 16) + int (n mod 16) = int (16 * (n div 16) + n mod 16)"
    by (simp only: of_nat_add of_nat_mult of_nat_numeral)
  then show ?thesis by (simp only: mult_div_mod_eq)
qed

lemma and_15: "(w :: u8) AND 0x0f = take_bit 4 w"
  by (simp add: take_bit_eq_mask mask_eq_exp_minus_1)

lemma unat_low_nibble: "unat ((b :: u8) AND 0x0f) = unat b mod 16"
  unfolding and_15 unsigned_take_bit_eq by (simp add: take_bit_eq_mod)

lemma unat_high_nibble: "unat (drop_bit 4 (b :: u8) AND 0x0f) = unat b div 16"
proof -
  have "unat b < 256" using unsigned_less [of b] by simp
  moreover have "unat (drop_bit 4 b) = unat b div 16"
    unfolding unat_drop_bit_eq by (simp add: drop_bit_eq_div)
  ultimately show ?thesis unfolding unat_low_nibble by simp
qed

lemma hex_byte_eq: "hex_byte b = [hex_digits ! (unat b div 16), hex_digits ! (unat b mod 16)]"
  by (simp only: hex_byte_def unat_high_nibble) (simp only: unat_low_nibble)

lemma length_hex_byte [simp]: "length (hex_byte b) = 2"
  by (simp add: hex_byte_def)

subsection \<open>JSON escaping\<close>

lemma length_unicode_escape [simp]: "length (unicode_escape c) = 6"
  by (simp add: unicode_escape_def)

text \<open>One iteration of the loop, with the two capacity checks merged.\<close>

lemma json_escape_loop_step:
  "json_escape_loop (ch # input) out n =
     (if length out + max 2 (length (escape_char ch)) \<ge> n then None
      else json_escape_loop input (out @ escape_char ch) n)"
  by (auto simp: escape_char_def)

declare json_escape_loop.simps(2) [simp del]

lemma json_escape_Nil [simp]: "json_escape [] = []"
  by (simp add: json_escape_def)

lemma json_escape_Cons [simp]: "json_escape (c # s) = escape_char c @ json_escape s"
  by (simp add: json_escape_def)

lemma json_escape_append [simp]: "json_escape (s @ t) = json_escape s @ json_escape t"
  by (simp add: json_escape_def)

lemma json_escape_loop_Some: "json_escape_loop s out n = Some r \<Longrightarrow> r = out @ json_escape s"
  by (induction s arbitrary: out) (fastforce simp: json_escape_loop_step split: if_splits)+

lemma json_escape_loop_fits:
  "json_escape_loop s out n = Some r \<Longrightarrow> length out < n \<Longrightarrow> length r < n"
proof (induction s arbitrary: out)
  case (Cons c s)
  from Cons.prems(1) have "length (out @ escape_char c) < n"
    and "json_escape_loop s (out @ escape_char c) n = Some r"
    by (auto simp: json_escape_loop_step split: if_splits)
  then show ?case using Cons.IH by blast
qed simp

lemma length_escape_char: "1 \<le> length (escape_char c)" "length (escape_char c) \<le> 6"
  by (auto simp: escape_char_def)

lemma length_json_escape: "length (json_escape s) \<le> 6 * length s"
proof (induction s)
  case (Cons c s)
  then show ?case using length_escape_char(2) [of c] by simp
qed simp

lemma json_escape_loop_enough:
  "length out + length (json_escape s) + 1 < n \<Longrightarrow>
   json_escape_loop s out n = Some (out @ json_escape s)"
proof (induction s arbitrary: out)
  case (Cons c s)
  from Cons.prems length_escape_char(1) [of c]
  have "length out + max 2 (length (escape_char c)) < n" by simp
  moreover from Cons.prems Cons.IH [of "out @ escape_char c"]
  have "json_escape_loop s (out @ escape_char c) n = Some (out @ json_escape (c # s))" by simp
  ultimately show ?case by (simp add: json_escape_loop_step)
qed simp

lemma json_escape_string_SomeD:
  "json_escape_string s n = Some r \<Longrightarrow> r = json_escape s \<and> length r < n"
  by (auto simp: json_escape_string_def split: if_splits
      dest: json_escape_loop_Some json_escape_loop_fits)

lemma json_escape_string_enough:
  "length (json_escape s) + 1 < n \<Longrightarrow> json_escape_string s n = Some (json_escape s)"
  using json_escape_loop_enough [of "[]" s n] by (simp add: json_escape_string_def)

text \<open>The JSON decoder undoes each escape.\<close>

lemma json_unescape_escape_char:
  "json_unescape (escape_char c @ t) = map_option ((#) c) (json_unescape t)"
proof (cases "(of_char c :: nat) < 0x20")
  case True
  then have lt: "(of_char c :: nat) div 16 < 16" by simp
  have join: "nat (16 * int (of_char c div 16) + int (of_char c mod 16)) = (of_char c :: nat)"
    by (simp only: nibble_split nat_int)
  from True lt show ?thesis
    by (auto simp: escape_char_def unicode_escape_def hex_nibble_def [of "CHR ''0''"] join
        simp flip: of_nat_mult of_nat_add)
next
  case False
  then show ?thesis by (auto simp: escape_char_def)
qed

lemma json_unescape_escape: "json_unescape (json_escape s) = Some s"
  by (induction s) (simp_all add: json_unescape_escape_char)

text \<open>An escaped string has no control character, and a quote in it is preceded by a backslash.\<close>

lemma escape_char_no_control: "c' \<in> set (escape_char c) \<Longrightarrow> 0x20 \<le> (of_char c' :: nat)"
  using hex_digits_printable [of "of_char c div 16"] hex_digits_printable [of "of_char c mod 16"]
  by (auto simp: escape_char_def unicode_escape_def less_mult_imp_div_less split: if_splits)

lemma json_escape_no_control: "c \<in> set (json_escape s) \<Longrightarrow> 0x20 \<le> (of_char c :: nat)"
  by (induction s) (auto dest: escape_char_no_control)

subsection \<open>Hexadecimal coding\<close>

lemma length_hex_concat [simp]: "length (concat (map hex_byte bs)) = 2 * length bs"
  by (induction bs) auto

lemma hex_decode_loop_encode:
  "hex_decode_loop (concat (map hex_byte bs)) out = Some (out @ bs)"
proof (induction bs arbitrary: out)
  case (Cons b bs)
  have lt: "unat b < 256" using unsigned_less [of b] by simp
  have "push_bit 4 (int (unat b div 16)) OR int (unat b mod 16) = int (unat b)"
    by (simp add: nibble_join nibble_split)
  then have "(word_of_int (push_bit 4 (int (unat b div 16)) OR int (unat b mod 16)) :: u8) = b"
    by simp
  with lt Cons show ?case by (simp add: hex_byte_eq)
qed simp

interpretation hex_codec: buffer_codec hex_encode "\<lambda>s. hex_decode s (length s div 2)"
  by unfold_locales
    (auto simp: hex_encode_def hex_decode_def hex_decode_loop_encode split: if_splits)

interpretation json_codec: buffer_codec json_escape_string json_unescape
  by unfold_locales (auto dest!: json_escape_string_SomeD simp: json_unescape_escape)

lemma hex_digits_nth: "k < 16 \<Longrightarrow> hex_digits ! k = char_of (if k < 10 then 48 + k else 87 + k)"
  by (drule less_16_cases) (auto simp: hex_digits_def char_of_def bit_0)

lemma hex_nibble_lower:
  assumes "0 \<le> hex_nibble c"
  shows "tolower c = hex_digits ! nat (hex_nibble c)"
proof -
  have c: "c = char_of (of_char c :: nat)" by simp
  consider "48 \<le> (of_char c :: nat)" "(of_char c :: nat) \<le> 57"
    | "97 \<le> (of_char c :: nat)" "(of_char c :: nat) \<le> 102"
    | "65 \<le> (of_char c :: nat)" "(of_char c :: nat) \<le> 70"
    using assms by (auto simp: hex_nibble_def Let_def split: if_splits)
  then show ?thesis
  proof cases
    case 1
    then have "nat (hex_nibble c) = of_char c - 48" by (simp add: hex_nibble_def)
    with 1 show ?thesis by (auto simp: hex_digits_nth tolower_def)
  next
    case 2
    then have "nat (hex_nibble c) = of_char c - 87" by (simp add: hex_nibble_def)
    with 2 show ?thesis by (auto simp: hex_digits_nth tolower_def)
  next
    case 3
    then have "nat (hex_nibble c) = of_char c - 55" by (simp add: hex_nibble_def)
    with 3 show ?thesis by (auto simp: hex_digits_nth tolower_def)
  qed
qed

lemma unat_joined_nibbles:
  assumes "0 \<le> h" "h < 16" "0 \<le> l" "l < 16"
  shows "unat (word_of_int (push_bit 4 h OR l) :: u8) = nat (16 * h + l)"
proof -
  have "take_bit 8 (16 * h + l) = 16 * h + l"
    using assms by (intro take_bit_int_eq_self) auto
  then show ?thesis by (simp only: nibble_join [OF assms(3,4)] unsigned_of_int) simp
qed

lemma hex_byte_joined:
  assumes "0 \<le> h" "h < 16" "0 \<le> l" "l < 16"
  shows "hex_byte (word_of_int (push_bit 4 h OR l)) = [hex_digits ! nat h, hex_digits ! nat l]"
proof -
  have "nat (16 * h + l) = 16 * nat h + nat l" using assms by (simp add: nat_add_distrib nat_mult_distrib)
  moreover have "nat l < 16" using assms by simp
  ultimately show ?thesis by (simp add: hex_byte_eq unat_joined_nibbles [OF assms])
qed

lemma hex_decode_loop_Some:
  "hex_decode_loop s out = Some bs \<Longrightarrow> even (length s) \<Longrightarrow>
   concat (map hex_byte bs) = concat (map hex_byte out) @ map tolower s"
proof (induction s out rule: hex_decode_loop.induct)
  case (1 c d input out)
  then have nn: "0 \<le> hex_nibble c" "0 \<le> hex_nibble d"
    by (auto simp: Let_def split: if_splits)
  have "concat (map hex_byte bs) = concat (map hex_byte (out @ [word_of_int (push_bit 4 (hex_nibble c) OR hex_nibble d)]))
      @ map tolower input"
    using 1 nn by (auto simp: Let_def)
  then show ?case
    by (simp add: hex_byte_joined nn hex_nibble_less hex_nibble_lower)
qed auto

subsection \<open>Properties\<close>

text \<open>C22: \<open>json_escape_string\<close>, when it returns 0, leaves in the buffer a JSON string body that any
  JSON decoder maps back to the input, without control characters, and its terminator still
  fits the buffer.\<close>

theorem json_escape_string_correct:
  assumes "json_escape_string s n = Some r"
  shows "json_unescape r = Some s \<and> length r < n \<and> (\<forall>c. (of_char c :: nat) < 0x20 \<longrightarrow> c \<notin> set r)"
proof -
  from assms have "r = json_escape s" by (simp add: json_escape_string_SomeD)
  then have "c \<notin> set r" if "(of_char c :: nat) < 0x20" for c
    using json_escape_no_control [of c s] that by auto
  moreover have "json_unescape r = Some s" using assms by (rule json_codec.dec_enc)
  moreover have "length r < n" using assms by (rule json_codec.enc_fits)
  ultimately show ?thesis by blast
qed

theorem json_escape_string_correct_witness:
  "json_escape_string [CHR ''a'', CHR 0x22, CHR 0x01] 16
     = Some [CHR ''a'', CHR 0x5C, CHR 0x22, CHR 0x5C, CHR ''u'', CHR ''0'', CHR ''0'', CHR ''0'', CHR ''1''] \<and>
   json_unescape [CHR ''a'', CHR 0x5C, CHR 0x22, CHR 0x5C, CHR ''u'', CHR ''0'', CHR ''0'', CHR ''0'', CHR ''1'']
     = Some [CHR ''a'', CHR 0x22, CHR 0x01]"
proof -
  have h: "json_escape_string [CHR ''a'', CHR 0x22, CHR 0x01] 16
     = Some [CHR ''a'', CHR 0x5C, CHR 0x22, CHR 0x5C, CHR ''u'', CHR ''0'', CHR ''0'', CHR ''0'', CHR ''1'']"
    by (simp add: json_escape_string_def json_escape_loop_step escape_char_def unicode_escape_def hex_digits_def)
  show ?thesis using h json_escape_string_correct [OF h] by blast
qed

text \<open>C23: \<open>json_escape_string\<close> returns 0 whenever the escaped text, its terminator and one spare
  byte fit the output buffer, and never when the escaped text does not fit; a buffer of more than six times the
  length of the text and one byte is enough for every text.\<close>

theorem json_escape_string_succeeds:
  "(length (json_escape s) + 1 < n \<longrightarrow> json_escape_string s n = Some (json_escape s)) \<and>
   (n \<le> length (json_escape s) \<longrightarrow> json_escape_string s n = None) \<and>
   (6 * length s + 1 < n \<longrightarrow> json_escape_string s n = Some (json_escape s))"
proof (intro conjI impI)
  assume "6 * length s + 1 < n"
  then show "json_escape_string s n = Some (json_escape s)"
    using length_json_escape [of s] by (intro json_escape_string_enough) simp
next
  assume "length (json_escape s) + 1 < n"
  then show "json_escape_string s n = Some (json_escape s)" by (rule json_escape_string_enough)
next
  assume "n \<le> length (json_escape s)"
  then show "json_escape_string s n = None"
    by (cases "json_escape_string s n") (auto dest: json_escape_string_SomeD)
qed

theorem json_escape_string_succeeds_witness:
  "json_escape_string ''a/b'' 5 = Some ''a/b'' \<and> json_escape_string ''a/b'' 3 = None \<and>
   json_escape_string [CHR 0x01] 8 = Some [CHR 0x5C, CHR ''u'', CHR ''0'', CHR ''0'', CHR ''0'', CHR ''1'']"
  using json_escape_string_succeeds [of "''a/b''" 5] json_escape_string_succeeds [of "''a/b''" 3]
    json_escape_string_succeeds [of "[CHR 0x01]" 8]
  by (simp add: escape_char_def unicode_escape_def hex_digits_def)

text \<open>C24: hexadecimal round trip: what \<open>hex_encode\<close> writes, \<open>hex_decode\<close> reads back, for every
  byte string and every pair of buffers large enough.\<close>

theorem hex_roundtrip:
  assumes "2 * length bs < n" "length bs \<le> m"
  shows "\<exists>s. hex_encode bs n = Some s \<and> length s = 2 * length bs \<and> hex_decode s m = Some bs"
  using assms by (simp add: hex_encode_def hex_decode_def hex_decode_loop_encode)

theorem hex_roundtrip_witness:
  "\<exists>s. hex_encode [0x68, 0x0a] 5 = Some s \<and> length s = 4 \<and> hex_decode s 2 = Some [0x68, 0x0a]"
  using hex_roundtrip [of "[0x68, 0x0a]" 5 2] by simp

text \<open>C25: \<open>hex_decode\<close> accepts only strings of pairs of hexadecimal digits: the bytes it returns
  encode to its input up to the case of the letters, and they fit the output buffer.\<close>

theorem hex_decode_sound:
  assumes "hex_decode s n = Some bs"
  shows "concat (map hex_byte bs) = map tolower s \<and> length bs \<le> n"
proof -
  from assms have ev: "even (length s)" and n: "length s div 2 \<le> n"
    and loop: "hex_decode_loop s [] = Some bs"
    by (auto simp: hex_decode_def even_iff_mod_2_eq_zero split: if_splits)
  have eq: "concat (map hex_byte bs) = map tolower s"
    using hex_decode_loop_Some [OF loop ev] by simp
  have "2 * length bs = length s"
    using arg_cong [OF eq, of length] by (simp only: length_hex_concat length_map)
  with n eq show ?thesis by auto
qed

theorem hex_decode_sound_witness:
  "hex_decode ''4aF0'' 2 = Some [0x4a, 0xf0] \<and> concat (map hex_byte [0x4a, 0xf0]) = ''4af0''"
proof -
  have h: "hex_decode ''4aF0'' 2 = Some [0x4a, 0xf0]"
    by (simp add: hex_decode_def hex_nibble_def)
  show ?thesis using h hex_decode_sound [OF h] by (simp add: tolower_def char_of_def bit_0)
qed

end
