(* ===== verification/Md5.thy ===== *)
theory Md5
  imports Json_Utils
begin

text \<open>
  The MD5 implementation of \<open>src/hash_utils.c\<close>: the block transform, and the incremental context
  (\<open>md5_init\<close>, \<open>md5_update\<close>, \<open>md5_final\<close>). The 64 lines of \<open>MD5_STEP\<close> are the list
  \<open>md5_program\<close>, one entry per line with the line's own arguments, executed on the four local
  variables \<open>a, b, c, d\<close>. The reference is the algorithm of RFC 1321: padding, splitting into
  blocks of 64 bytes, and the rotating rounds of section 3.4; \<open>md5_update_represents\<close> is the
  data refinement between the incremental context and the message absorbed so far.
\<close>

unbundle bit_operations_syntax

subsection \<open>The block transform\<close>

definition MD5_F :: "u32 \<Rightarrow> u32 \<Rightarrow> u32 \<Rightarrow> u32" where
  "MD5_F x y z = (x AND y) OR (NOT x AND z)"

definition MD5_G :: "u32 \<Rightarrow> u32 \<Rightarrow> u32 \<Rightarrow> u32" where
  "MD5_G x y z = (x AND z) OR (y AND NOT z)"

definition MD5_H :: "u32 \<Rightarrow> u32 \<Rightarrow> u32 \<Rightarrow> u32" where
  "MD5_H x y z = x XOR y XOR z"

definition MD5_I :: "u32 \<Rightarrow> u32 \<Rightarrow> u32 \<Rightarrow> u32" where
  "MD5_I x y z = y XOR (x OR NOT z)"

definition MD5_ROTATE_LEFT :: "u32 \<Rightarrow> nat \<Rightarrow> u32" where
  "MD5_ROTATE_LEFT x n = push_bit n x OR drop_bit (32 - n) x"

datatype var = VA | VB | VC | VD

type_synonym vars = "u32 \<times> u32 \<times> u32 \<times> u32"

fun get_var :: "vars \<Rightarrow> var \<Rightarrow> u32" where
  "get_var (a, b, c, d) VA = a"
| "get_var (a, b, c, d) VB = b"
| "get_var (a, b, c, d) VC = c"
| "get_var (a, b, c, d) VD = d"

fun set_var :: "vars \<Rightarrow> var \<Rightarrow> u32 \<Rightarrow> vars" where
  "set_var (a, b, c, d) VA v = (v, b, c, d)"
| "set_var (a, b, c, d) VB v = (a, v, c, d)"
| "set_var (a, b, c, d) VC v = (a, b, v, d)"
| "set_var (a, b, c, d) VD v = (a, b, c, v)"

datatype md5_func = F | G | H | I

fun apply_func :: "md5_func \<Rightarrow> u32 \<Rightarrow> u32 \<Rightarrow> u32 \<Rightarrow> u32" where
  "apply_func F = MD5_F"
| "apply_func G = MD5_G"
| "apply_func H = MD5_H"
| "apply_func I = MD5_I"

text \<open>One use of the macro: \<open>MD5_STEP(func, a, b, c, d, x[k], s, ac)\<close>.\<close>

datatype md5_step = MD5_STEP md5_func var var var var nat nat u32

fun exec_step :: "u32 list \<Rightarrow> md5_step \<Rightarrow> vars \<Rightarrow> vars" where
  "exec_step x (MD5_STEP f a b c d k s ac) vs =
     (let v = get_var vs a + (apply_func f (get_var vs b) (get_var vs c) (get_var vs d) + x ! k + ac);
          v = MD5_ROTATE_LEFT v s;
          v = v + get_var vs b
      in set_var vs a v)"

definition md5_program :: "md5_step list" where
  "md5_program =
    [MD5_STEP F VA VB VC VD 0 7 0xd76aa478,
     MD5_STEP F VD VA VB VC 1 12 0xe8c7b756,
     MD5_STEP F VC VD VA VB 2 17 0x242070db,
     MD5_STEP F VB VC VD VA 3 22 0xc1bdceee,
     MD5_STEP F VA VB VC VD 4 7 0xf57c0faf,
     MD5_STEP F VD VA VB VC 5 12 0x4787c62a,
     MD5_STEP F VC VD VA VB 6 17 0xa8304613,
     MD5_STEP F VB VC VD VA 7 22 0xfd469501,
     MD5_STEP F VA VB VC VD 8 7 0x698098d8,
     MD5_STEP F VD VA VB VC 9 12 0x8b44f7af,
     MD5_STEP F VC VD VA VB 10 17 0xffff5bb1,
     MD5_STEP F VB VC VD VA 11 22 0x895cd7be,
     MD5_STEP F VA VB VC VD 12 7 0x6b901122,
     MD5_STEP F VD VA VB VC 13 12 0xfd987193,
     MD5_STEP F VC VD VA VB 14 17 0xa679438e,
     MD5_STEP F VB VC VD VA 15 22 0x49b40821,
     MD5_STEP G VA VB VC VD 1 5 0xf61e2562,
     MD5_STEP G VD VA VB VC 6 9 0xc040b340,
     MD5_STEP G VC VD VA VB 11 14 0x265e5a51,
     MD5_STEP G VB VC VD VA 0 20 0xe9b6c7aa,
     MD5_STEP G VA VB VC VD 5 5 0xd62f105d,
     MD5_STEP G VD VA VB VC 10 9 0x02441453,
     MD5_STEP G VC VD VA VB 15 14 0xd8a1e681,
     MD5_STEP G VB VC VD VA 4 20 0xe7d3fbc8,
     MD5_STEP G VA VB VC VD 9 5 0x21e1cde6,
     MD5_STEP G VD VA VB VC 14 9 0xc33707d6,
     MD5_STEP G VC VD VA VB 3 14 0xf4d50d87,
     MD5_STEP G VB VC VD VA 8 20 0x455a14ed,
     MD5_STEP G VA VB VC VD 13 5 0xa9e3e905,
     MD5_STEP G VD VA VB VC 2 9 0xfcefa3f8,
     MD5_STEP G VC VD VA VB 7 14 0x676f02d9,
     MD5_STEP G VB VC VD VA 12 20 0x8d2a4c8a,
     MD5_STEP H VA VB VC VD 5 4 0xfffa3942,
     MD5_STEP H VD VA VB VC 8 11 0x8771f681,
     MD5_STEP H VC VD VA VB 11 16 0x6d9d6122,
     MD5_STEP H VB VC VD VA 14 23 0xfde5380c,
     MD5_STEP H VA VB VC VD 1 4 0xa4beea44,
     MD5_STEP H VD VA VB VC 4 11 0x4bdecfa9,
     MD5_STEP H VC VD VA VB 7 16 0xf6bb4b60,
     MD5_STEP H VB VC VD VA 10 23 0xbebfbc70,
     MD5_STEP H VA VB VC VD 13 4 0x289b7ec6,
     MD5_STEP H VD VA VB VC 0 11 0xeaa127fa,
     MD5_STEP H VC VD VA VB 3 16 0xd4ef3085,
     MD5_STEP H VB VC VD VA 6 23 0x04881d05,
     MD5_STEP H VA VB VC VD 9 4 0xd9d4d039,
     MD5_STEP H VD VA VB VC 12 11 0xe6db99e5,
     MD5_STEP H VC VD VA VB 15 16 0x1fa27cf8,
     MD5_STEP H VB VC VD VA 2 23 0xc4ac5665,
     MD5_STEP I VA VB VC VD 0 6 0xf4292244,
     MD5_STEP I VD VA VB VC 7 10 0x432aff97,
     MD5_STEP I VC VD VA VB 14 15 0xab9423a7,
     MD5_STEP I VB VC VD VA 5 21 0xfc93a039,
     MD5_STEP I VA VB VC VD 12 6 0x655b59c3,
     MD5_STEP I VD VA VB VC 3 10 0x8f0ccc92,
     MD5_STEP I VC VD VA VB 10 15 0xffeff47d,
     MD5_STEP I VB VC VD VA 1 21 0x85845dd1,
     MD5_STEP I VA VB VC VD 8 6 0x6fa87e4f,
     MD5_STEP I VD VA VB VC 15 10 0xfe2ce6e0,
     MD5_STEP I VC VD VA VB 6 15 0xa3014314,
     MD5_STEP I VB VC VD VA 13 21 0x4e0811a1,
     MD5_STEP I VA VB VC VD 4 6 0xf7537e82,
     MD5_STEP I VD VA VB VC 11 10 0xbd3af235,
     MD5_STEP I VC VD VA VB 2 15 0x2ad7d2bb,
     MD5_STEP I VB VC VD VA 9 21 0xeb86d391]"

definition load_word :: "u8 list \<Rightarrow> nat \<Rightarrow> u32" where
  "load_word block i =
     ucast (block ! (i * 4)) OR push_bit 8 (ucast (block ! (i * 4 + 1)))
     OR push_bit 16 (ucast (block ! (i * 4 + 2))) OR push_bit 24 (ucast (block ! (i * 4 + 3)))"

definition md5_transform :: "u32 list \<Rightarrow> u8 list \<Rightarrow> u32 list" where
  "md5_transform state block =
     (let x = map (load_word block) [0..<16];
          (a, b, c, d) = fold (exec_step x) md5_program (state ! 0, state ! 1, state ! 2, state ! 3)
      in [state ! 0 + a, state ! 1 + b, state ! 2 + c, state ! 3 + d])"

subsection \<open>The incremental context\<close>

record md5_context =
  md5_state :: "u32 list"
  bit_count :: u64
  md5_buffer :: "u8 list"

definition md5_init :: "md5_context \<Rightarrow> md5_context" where
  "md5_init ctx = ctx\<lparr>bit_count := 0,
     md5_state := [0x67452301, 0xefcdab89, 0x98badcfe, 0x10325476]\<rparr>"

text \<open>\<open>memcpy(&dst[i], src, len)\<close> inside an array that is long enough.\<close>

definition memcpy_at :: "'a list \<Rightarrow> nat \<Rightarrow> 'a list \<Rightarrow> 'a list" where
  "memcpy_at dst i src = take i dst @ src @ drop (i + length src) dst"

text \<open>The loop over whole blocks of the input: the state, and the final value of \<open>i\<close>.\<close>

function md5_blocks :: "u32 list \<Rightarrow> u8 list \<Rightarrow> nat \<Rightarrow> u32 list \<times> nat" where
  "md5_blocks st input i =
     (if i + 63 < length input then md5_blocks (md5_transform st (take 64 (drop i input))) input (i + 64)
      else (st, i))"
  by pat_completeness auto
termination
  by (relation "measure (\<lambda>(st, input, i). length input - i)") auto

declare md5_blocks.simps [simp del]

definition md5_update :: "md5_context \<Rightarrow> u8 list \<Rightarrow> md5_context" where
  "md5_update ctx input =
     (let index = unat (drop_bit 3 (bit_count ctx) AND 0x3f);
          part_len = 64 - index;
          ctx = ctx\<lparr>bit_count := bit_count ctx + push_bit 3 (word_of_nat (length input))\<rparr>
      in if part_len \<le> length input then
           (let buf = memcpy_at (md5_buffer ctx) index (take part_len input);
                st = md5_transform (md5_state ctx) buf;
                (st, i) = md5_blocks st input part_len
            in ctx\<lparr>md5_state := st, md5_buffer := memcpy_at buf 0 (drop i input)\<rparr>)
         else ctx\<lparr>md5_buffer := memcpy_at (md5_buffer ctx) index input\<rparr>)"

definition md5_padding :: "u8 list" where
  "md5_padding = 0x80 # replicate 63 0"

definition md5_final :: "md5_context \<Rightarrow> u8 list" where
  "md5_final ctx =
     (let bits = map (\<lambda>i. ucast (drop_bit (i * 8) (bit_count ctx) AND 0xff)) [0..<8];
          index = unat (drop_bit 3 (bit_count ctx) AND 0x3f);
          pad_len = (if index < 56 then 56 - index else 120 - index);
          ctx = md5_update ctx (take pad_len md5_padding);
          ctx = md5_update ctx bits
      in concat (map (\<lambda>i. map (\<lambda>k. ucast (drop_bit (8 * k) (md5_state ctx ! i) AND 0xff)) [0..<4]) [0..<4]))"

subsection \<open>The reference: RFC 1321\<close>

definition rfc_func :: "nat \<Rightarrow> md5_func" where
  "rfc_func i = (if i < 16 then F else if i < 32 then G else if i < 48 then H else I)"

definition rfc_index :: "nat \<Rightarrow> nat" where
  "rfc_index i = (if i < 16 then i else if i < 32 then (5 * i + 1) mod 16
     else if i < 48 then (3 * i + 5) mod 16 else 7 * i mod 16)"

definition rfc_shift :: "nat \<Rightarrow> nat" where
  "rfc_shift i = (if i < 16 then [7, 12, 17, 22] else if i < 32 then [5, 9, 14, 20]
     else if i < 48 then [4, 11, 16, 23] else [6, 10, 15, 21]) ! (i mod 4)"

text \<open>The table of RFC 1321, section 3.4: \<open>T[i] = floor(2^32 * abs(sin(i)))\<close>.\<close>

definition rfc_table :: "u32 list" where
  "rfc_table =
     [0xd76aa478, 0xe8c7b756, 0x242070db, 0xc1bdceee, 0xf57c0faf, 0x4787c62a, 0xa8304613, 0xfd469501,
      0x698098d8, 0x8b44f7af, 0xffff5bb1, 0x895cd7be, 0x6b901122, 0xfd987193, 0xa679438e, 0x49b40821,
      0xf61e2562, 0xc040b340, 0x265e5a51, 0xe9b6c7aa, 0xd62f105d, 0x02441453, 0xd8a1e681, 0xe7d3fbc8,
      0x21e1cde6, 0xc33707d6, 0xf4d50d87, 0x455a14ed, 0xa9e3e905, 0xfcefa3f8, 0x676f02d9, 0x8d2a4c8a,
      0xfffa3942, 0x8771f681, 0x6d9d6122, 0xfde5380c, 0xa4beea44, 0x4bdecfa9, 0xf6bb4b60, 0xbebfbc70,
      0x289b7ec6, 0xeaa127fa, 0xd4ef3085, 0x04881d05, 0xd9d4d039, 0xe6db99e5, 0x1fa27cf8, 0xc4ac5665,
      0xf4292244, 0x432aff97, 0xab9423a7, 0xfc93a039, 0x655b59c3, 0x8f0ccc92, 0xffeff47d, 0x85845dd1,
      0x6fa87e4f, 0xfe2ce6e0, 0xa3014314, 0x4e0811a1, 0xf7537e82, 0xbd3af235, 0x2ad7d2bb, 0xeb86d391]"

type_synonym round_args = "md5_func \<times> nat \<times> nat \<times> u32"

definition rfc_args :: "nat \<Rightarrow> round_args" where
  "rfc_args i = (rfc_func i, rfc_index i, rfc_shift i, rfc_table ! i)"

text \<open>One round: the new value of \<open>b\<close>, and the four variables rotated by one place.\<close>

fun rfc_round :: "u32 list \<Rightarrow> round_args \<Rightarrow> vars \<Rightarrow> vars" where
  "rfc_round x (f, k, s, ac) (a, b, c, d) =
     (d, b + MD5_ROTATE_LEFT (a + (apply_func f b c d + x ! k + ac)) s, b, c)"

definition rfc_transform :: "u32 list \<Rightarrow> u8 list \<Rightarrow> u32 list" where
  "rfc_transform state block =
     (let x = map (load_word block) [0..<16];
          (a, b, c, d) = fold (rfc_round x) (map rfc_args [0..<64]) (state ! 0, state ! 1, state ! 2, state ! 3)
      in [state ! 0 + a, state ! 1 + b, state ! 2 + c, state ! 3 + d])"

function md5_absorb :: "u32 list \<Rightarrow> u8 list \<Rightarrow> u32 list" where
  "md5_absorb st m =
     (if length m < 64 then st else md5_absorb (rfc_transform st (take 64 m)) (drop 64 m))"
  by pat_completeness auto
termination
  by (relation "measure (\<lambda>(st, m). length m)") auto

declare md5_absorb.simps [simp del]

definition le64 :: "nat \<Rightarrow> u8 list" where
  "le64 n = map (\<lambda>i. word_of_nat (n div 256 ^ i)) [0..<8]"

definition md5_pad :: "u8 list \<Rightarrow> u8 list" where
  "md5_pad m = m @ 0x80 # replicate ((119 - length m mod 64) mod 64) 0 @ le64 (8 * length m)"

definition le32 :: "u32 \<Rightarrow> u8 list" where
  "le32 w = map (\<lambda>k. word_of_nat (unat w div 256 ^ k)) [0..<4]"

definition md5_iv :: "u32 list" where
  "md5_iv = [0x67452301, 0xefcdab89, 0x98badcfe, 0x10325476]"

definition md5_spec :: "u8 list \<Rightarrow> u8 list" where
  "md5_spec m = concat (map le32 (take 4 (md5_absorb md5_iv (md5_pad m))))"

subsection \<open>The unrolled transform is the reference transform\<close>

text \<open>
  Four consecutive lines of the source assign to \<open>a\<close>, \<open>d\<close>, \<open>c\<close>, \<open>b\<close> in turn: they are four
  rounds of the reference, after which the rotation is back where it started.
\<close>

fun quads :: "round_args list \<Rightarrow> md5_step list" where
  "quads ((f0, k0, s0, t0) # (f1, k1, s1, t1) # (f2, k2, s2, t2) # (f3, k3, s3, t3) # ps) =
     MD5_STEP f0 VA VB VC VD k0 s0 t0 # MD5_STEP f1 VD VA VB VC k1 s1 t1 #
     MD5_STEP f2 VC VD VA VB k2 s2 t2 # MD5_STEP f3 VB VC VD VA k3 s3 t3 # quads ps"
| "quads _ = []"

lemma fold_quads:
  "length ps mod 4 = 0 \<Longrightarrow> fold (exec_step x) (quads ps) vs = fold (rfc_round x) ps vs"
proof (induction ps arbitrary: vs rule: quads.induct)
  case (1 f0 k0 s0 t0 f1 k1 s1 t1 f2 k2 s2 t2 f3 k3 s3 t3 ps)
  obtain a b c d where vs: "vs = (a, b, c, d)" by (cases vs) auto
  from "1.prems" have "length ps mod 4 = 0" by simp
  with "1.IH" show ?case by (simp add: vs Let_def add.commute)
qed auto

lemma md5_program_quads: "md5_program = quads (map rfc_args [0..<64])"
  by code_simp

lemma md5_transform_eq [md5_simps]: "md5_transform = rfc_transform"
proof (intro ext)
  fix st block
  have "fold (exec_step x) md5_program vs = fold (rfc_round x) (map rfc_args [0..<64]) vs" for x vs
    unfolding md5_program_quads by (rule fold_quads) simp
  then show "md5_transform st block = rfc_transform st block"
    by (simp add: md5_transform_def rfc_transform_def)
qed

subsection \<open>Absorbing blocks\<close>

lemma md5_absorb_short [md5_simps]: "length m < 64 \<Longrightarrow> md5_absorb st m = st"
  by (subst md5_absorb.simps) simp

lemma md5_absorb_block [md5_simps]:
  "length b = 64 \<Longrightarrow> md5_absorb st (b @ m) = md5_absorb (rfc_transform st b) m"
  by (subst md5_absorb.simps) simp

lemma md5_absorb_append:
  "length a mod 64 = 0 \<Longrightarrow> md5_absorb st (a @ b) = md5_absorb (md5_absorb st a) b"
proof (induction st a rule: md5_absorb.induct)
  case (1 st a)
  show ?case
  proof (cases "length a < 64")
    case True
    with "1.prems" have "a = []" by simp
    then show ?thesis by (simp add: md5_absorb_short)
  next
    case False
    then have split: "a = take 64 a @ drop 64 a" and len: "length (take 64 a) = 64" by simp_all
    have "length (drop 64 a) mod 64 = 0" using False "1.prems" by (simp add: le_mod_geq)
    with "1.IH" False have IH: "md5_absorb (rfc_transform st (take 64 a)) (drop 64 a @ b)
        = md5_absorb (md5_absorb (rfc_transform st (take 64 a)) (drop 64 a)) b" by simp
    have "md5_absorb st (a @ b) = md5_absorb st (take 64 a @ (drop 64 a @ b))"
      by (metis append.assoc split)
    also have "\<dots> = md5_absorb (md5_absorb (rfc_transform st (take 64 a)) (drop 64 a)) b"
      by (simp only: md5_absorb_block [OF len] IH)
    also have "md5_absorb (rfc_transform st (take 64 a)) (drop 64 a) = md5_absorb st a"
      by (metis split md5_absorb_block [OF len])
    finally show ?thesis .
  qed
qed

lemma md5_absorb_tail: "md5_absorb st m = md5_absorb st (take (64 * (length m div 64)) m)"
proof -
  have m: "m = take (64 * (length m div 64)) m @ drop (64 * (length m div 64)) m" by simp
  have "length (take (64 * (length m div 64)) m) = 64 * (length m div 64)" by simp
  then have "md5_absorb st m = md5_absorb (md5_absorb st (take (64 * (length m div 64)) m))
      (drop (64 * (length m div 64)) m)"
    by (subst m, subst md5_absorb_append) (simp_all del: append_take_drop_id)
  moreover have "length (drop (64 * (length m div 64)) m) < 64"
    by (simp add: minus_mult_div_eq_mod)
  ultimately show ?thesis by (simp add: md5_absorb_short)
qed

lemma md5_blocks_absorb:
  "i \<le> length input \<Longrightarrow> md5_blocks st input i
     = (md5_absorb st (drop i input), i + 64 * ((length input - i) div 64))"
proof (induction st input i rule: md5_blocks.induct)
  case (1 st input i)
  show ?case
  proof (cases "i + 63 < length input")
    case True
    with "1.IH" have IH: "md5_blocks (md5_transform st (take 64 (drop i input))) input (i + 64)
       = (md5_absorb (md5_transform st (take 64 (drop i input))) (drop (i + 64) input),
          i + 64 + 64 * ((length input - (i + 64)) div 64))" by simp
    have split: "drop i input = take 64 (drop i input) @ drop (i + 64) input"
      by (metis append_take_drop_id drop_drop add.commute)
    have "md5_absorb st (drop i input)
        = md5_absorb (rfc_transform st (take 64 (drop i input))) (drop (i + 64) input)"
      using True by (subst split, subst md5_absorb_block) simp_all
    moreover have "(length input - i) div 64 = Suc ((length input - (i + 64)) div 64)"
      using True by (simp add: le_div_geq)
    ultimately show ?thesis using True IH by (subst md5_blocks.simps) (simp add: md5_transform_eq)
  next
    case False
    with "1.prems" show ?thesis
      by (subst md5_blocks.simps) (simp add: md5_absorb_short)
  qed
qed

subsection \<open>The incremental context represents the absorbed message\<close>

definition represents :: "md5_context \<Rightarrow> u8 list \<Rightarrow> bool" where
  "represents ctx m \<longleftrightarrow>
     bit_count ctx = word_of_nat (8 * length m) \<and> md5_state ctx = md5_absorb md5_iv m \<and>
     length (md5_buffer ctx) = 64 \<and>
     take (length m mod 64) (md5_buffer ctx) = drop (64 * (length m div 64)) m"

lemma index_of_count:
  "unat (drop_bit 3 (word_of_nat (8 * n) :: u64) AND 0x3f) = n mod 64"
proof -
  have "(drop_bit 3 (word_of_nat (8 * n) :: u64)) AND 0x3f = take_bit 6 (drop_bit 3 (word_of_nat (8 * n)))"
    by (simp add: take_bit_eq_mask mask_eq_exp_minus_1)
  then have "unat (drop_bit 3 (word_of_nat (8 * n) :: u64) AND 0x3f)
      = take_bit 6 (drop_bit 3 (take_bit 64 (8 * n)))"
    by (simp only: unsigned_take_bit_eq unat_drop_bit_eq unsigned_of_nat) simp
  also have "\<dots> = 8 * n mod 2 ^ 64 div 8 mod 64"
    by (simp add: take_bit_eq_mod drop_bit_eq_div)
  also have "8 * n mod 2 ^ 64 div 8 = n mod 2 ^ 61"
    using mult_mod_right [of 8 n "2 ^ 61"] by simp
  also have "n mod 2 ^ 61 mod 64 = n mod 64"
    by (rule mod_mod_cancel) simp
  finally show ?thesis .
qed

lemma count_add:
  "(word_of_nat (8 * n) :: u64) + push_bit 3 (word_of_nat k) = word_of_nat (8 * (n + k))"
  by (simp add: push_bit_eq_mult algebra_simps)

lemma represents_init: "length (md5_buffer ctx) = 64 \<Longrightarrow> represents (md5_init ctx) []"
  by (simp add: represents_def md5_init_def md5_iv_def md5_absorb_short)

lemma length_memcpy_at [simp]:
  "i + length src \<le> length dst \<Longrightarrow> length (memcpy_at dst i src) = length dst"
  by (simp add: memcpy_at_def)

lemma memcpy_at_zero: "memcpy_at dst 0 src = src @ drop (length src) dst"
  by (simp add: memcpy_at_def)

lemma split_at_blocks:
  "m = take (64 * (length m div 64)) m @ drop (64 * (length m div 64)) m"
  "length (take (64 * (length m div 64)) m) mod 64 = 0"
  "length (drop (64 * (length m div 64)) m) = length m mod 64"
  by (simp_all add: minus_mult_div_eq_mod)

lemma md5_absorb_extend:
  "md5_absorb st (m @ input) = md5_absorb (md5_absorb st m) (drop (64 * (length m div 64)) m @ input)"
  by (metis append.assoc md5_absorb_append md5_absorb_tail split_at_blocks(1,2))

lemma represents_block:
  assumes rep: "represents ctx m" and len: "64 - length m mod 64 \<le> length input"
  shows "represents (md5_update ctx input) (m @ input)"
proof -
  define r where "r = length m mod 64"
  define q where "q = length m div 64"
  define head where "head = take (64 - r) input"
  define i where "i = 64 - r + 64 * ((length input - (64 - r)) div 64)"
  define buf where "buf = memcpy_at (md5_buffer ctx) r head"
  have r: "r < 64" and rl: "64 - r \<le> length input" using len by (auto simp: r_def)
  have lm: "length m = 64 * q + r" by (simp add: q_def r_def)
  have idx: "unat (drop_bit 3 (bit_count ctx) AND 0x3f) = r"
    using rep by (simp only: represents_def index_of_count r_def)
  have lbuf: "length (md5_buffer ctx) = 64" and tl: "take r (md5_buffer ctx) = drop (64 * q) m"
    and st: "md5_state ctx = md5_absorb md5_iv m"
    using rep by (simp_all add: represents_def r_def q_def)
  have buf: "buf = drop (64 * q) m @ head" and lb: "length buf = 64"
    using r rl lbuf tl lm by (auto simp: buf_def memcpy_at_def head_def)
  have blocks: "md5_blocks (rfc_transform (md5_absorb md5_iv m) buf) input (64 - r)
      = (md5_absorb md5_iv (m @ input), i)"
  proof -
    have "md5_absorb md5_iv (m @ input) = md5_absorb (md5_absorb md5_iv m) (buf @ drop (64 - r) input)"
      using md5_absorb_extend [of md5_iv m input] by (simp add: buf head_def q_def)
    then show ?thesis
      using lb rl by (simp add: md5_blocks_absorb md5_absorb_block i_def)
  qed
  have upd: "md5_update ctx input = ctx\<lparr>bit_count := bit_count ctx + push_bit 3 (word_of_nat (length input)),
      md5_state := md5_absorb md5_iv (m @ input), md5_buffer := memcpy_at buf 0 (drop i input)\<rparr>"
    unfolding md5_update_def Let_def idx using rl
    by (simp add: blocks st md5_transform_eq flip: buf_def head_def)
  obtain k e where ke: "length input = 64 - r + (64 * k + e)" "e < 64"
  proof
    let ?x = "length input - (64 - r)"
    show "length input = 64 - r + (64 * (?x div 64) + ?x mod 64)" using rl by simp
    show "?x mod 64 < 64" by simp
  qed
  then have ik: "i = 64 - r + 64 * k" by (simp add: i_def)
  have tot: "length m + length input = 64 * (q + 1 + k) + e"
    using lm ke(1) r by simp
  have dm: "(length m + length input) div 64 = q + 1 + k" "(length m + length input) mod 64 = e"
    unfolding tot using ke(2) by (simp_all only: div_mult_self4 mod_mult_self4) simp_all
  have pos: "64 * (q + 1 + k) = length m + i" and rest: "length (drop i input) = e"
    using lm r ke(1) by (simp_all add: ik)
  have "drop (64 * (q + 1 + k)) (m @ input) = drop i input"
    unfolding pos by simp
  with rest ke(2) lb rep show ?thesis unfolding represents_def upd
    by (simp add: count_add dm memcpy_at_zero del: of_nat_add of_nat_mult drop_append)
qed

lemma represents_buffer:
  assumes rep: "represents ctx m" and len: "\<not> 64 - length m mod 64 \<le> length input"
  shows "represents (md5_update ctx input) (m @ input)"
proof -
  define r where "r = length m mod 64"
  define q where "q = length m div 64"
  have lt: "r + length input < 64" using len by (simp add: r_def)
  have lm: "length m = 64 * q + r" by (simp add: q_def r_def)
  have idx: "unat (drop_bit 3 (bit_count ctx) AND 0x3f) = r"
    using rep by (simp only: represents_def index_of_count r_def)
  have dm: "(length m + length input) div 64 = q" "(length m + length input) mod 64 = r + length input"
    using lt by (simp_all add: lm add.assoc)
  have "md5_absorb md5_iv (m @ input) = md5_absorb md5_iv m"
    using lt split_at_blocks(3) [of m] unfolding r_def
    by (subst md5_absorb_extend, subst md5_absorb_short) simp_all
  moreover have "md5_update ctx input = ctx\<lparr>bit_count := bit_count ctx + push_bit 3 (word_of_nat (length input)),
      md5_buffer := memcpy_at (md5_buffer ctx) r input\<rparr>"
    unfolding md5_update_def Let_def idx using len by (simp add: r_def)
  moreover have "take (r + length input) (memcpy_at (md5_buffer ctx) r input) = drop (64 * q) (m @ input)"
    using rep lt lm by (simp add: represents_def memcpy_at_def flip: r_def q_def)
  ultimately show ?thesis
    using rep lt unfolding represents_def
    by (simp add: count_add dm del: of_nat_add of_nat_mult drop_append)
qed

lemma md5_update_represents:
  "represents ctx m \<Longrightarrow> represents (md5_update ctx input) (m @ input)"
  using represents_block represents_buffer by blast

subsection \<open>Finishing the digest\<close>

lemma pow_256: "(256 :: nat) ^ i = 2 ^ (8 * i)"
  by (simp add: power_mult)

lemma bits_le64:
  "map (\<lambda>i. ucast (drop_bit (i * 8) (word_of_nat n :: u64) AND 0xff)) [0..<8] = le64 n"
  unfolding le64_def
proof (rule map_cong [OF refl])
  fix i :: nat
  assume "i \<in> set [0..<8]"
  then have i: "i < 8" by simp
  show "(ucast (drop_bit (i * 8) (word_of_nat n :: u64) AND 0xff) :: u8) = word_of_nat (n div 256 ^ i)"
  proof (rule bit_word_eqI)
    fix k
    assume k: "k < LENGTH(8)"
    have "w AND 0xff = take_bit 8 w" for w :: u64
      by (simp add: take_bit_eq_mask mask_eq_exp_minus_1)
    moreover have "n div 256 ^ i = drop_bit (i * 8) n"
      unfolding drop_bit_eq_div pow_256 by (simp only: mult.commute)
    ultimately show "bit (ucast (drop_bit (i * 8) (word_of_nat n :: u64) AND 0xff) :: u8) k
        = bit (word_of_nat (n div 256 ^ i) :: u8) k"
      using i k by (auto simp: bit_ucast_iff bit_drop_bit_eq bit_take_bit_iff bit_of_nat_iff)
  qed
qed

lemma digest_le32:
  "map (\<lambda>k. ucast (drop_bit (8 * k) (w :: u32) AND 0xff)) [0..<4] = le32 w"
  unfolding le32_def
proof (rule map_cong [OF refl])
  fix i :: nat
  assume "i \<in> set [0..<4]"
  show "(ucast (drop_bit (8 * i) w AND 0xff) :: u8) = word_of_nat (unat w div 256 ^ i)"
  proof (rule bit_word_eqI)
    fix k
    assume k: "k < LENGTH(8)"
    have "w AND 0xff = take_bit 8 w" for w :: u32
      by (simp add: take_bit_eq_mask mask_eq_exp_minus_1)
    moreover have "unat w div 256 ^ i = unat (drop_bit (8 * i) w)"
      unfolding unat_drop_bit_eq pow_256 by (rule drop_bit_eq_div [symmetric])
    ultimately show "bit (ucast (drop_bit (8 * i) w AND 0xff) :: u8) k
        = bit (word_of_nat (unat w div 256 ^ i) :: u8) k"
      using k by (simp add: bit_ucast_iff bit_take_bit_iff bit_of_nat_iff bit_unsigned_iff)
  qed
qed

lemma take_md5_padding:
  "0 < k \<Longrightarrow> k \<le> 64 \<Longrightarrow> take k md5_padding = 0x80 # replicate (k - 1) 0"
  by (cases k) (auto simp: md5_padding_def take_Cons')

lemma md5_pad_eq:
  "md5_pad m = m @ take (if length m mod 64 < 56 then 56 - length m mod 64 else 120 - length m mod 64) md5_padding
     @ le64 (8 * length m)"
proof (cases "length m mod 64 < 56")
  case True
  then have "119 - length m mod 64 = 64 + (55 - length m mod 64)" by simp
  then have "(119 - length m mod 64) mod 64 = 55 - length m mod 64"
    by (metis mod_add_self1 mod_less less_imp_diff_less numeral_less_iff semiring_norm(75,76,78,79,80,81))
  with True show ?thesis by (simp add: md5_pad_def take_md5_padding)
next
  case False
  moreover have "length m mod 64 < 64" by simp
  ultimately have "119 - length m mod 64 < 64" by linarith
  then have "(119 - length m mod 64) mod 64 = 119 - length m mod 64" by (rule mod_less)
  with False show ?thesis by (simp add: md5_pad_def take_md5_padding)
qed

lemma length_md5_absorb: "length st = 4 \<Longrightarrow> length (md5_absorb st m) = 4"
proof (induction st m rule: md5_absorb.induct)
  case (1 st m)
  have "length (rfc_transform st (take 64 m)) = 4"
    by (simp add: rfc_transform_def Let_def split: prod.splits)
  with 1 show ?case by (subst md5_absorb.simps) simp
qed

lemma md5_final_spec:
  assumes "represents ctx m"
  shows "md5_final ctx = md5_spec m"
proof -
  define pad_len where "pad_len = (if length m mod 64 < 56 then 56 - length m mod 64 else 120 - length m mod 64)"
  define ctx' where "ctx' = md5_update (md5_update ctx (take pad_len md5_padding)) (le64 (8 * length m))"
  have bc: "bit_count ctx = word_of_nat (8 * length m)" using assms by (simp add: represents_def)
  have "represents ctx' ((m @ take pad_len md5_padding) @ le64 (8 * length m))"
    unfolding ctx'_def by (intro md5_update_represents assms)
  then have st: "md5_state ctx' = md5_absorb md5_iv (md5_pad m)"
    by (simp add: represents_def md5_pad_eq pad_len_def)
  have "md5_final ctx = concat (map (\<lambda>i. le32 (md5_state ctx' ! i)) [0..<4])"
    unfolding md5_final_def Let_def digest_le32 bc bits_le64 index_of_count
    by (simp only: ctx'_def pad_len_def)
  also have "map (\<lambda>i. le32 (md5_state ctx' ! i)) [0..<4] = map le32 (take 4 (md5_state ctx'))"
    using length_md5_absorb [of md5_iv "md5_pad m"]
    by (simp add: st md5_iv_def list_eq_iff_nth_eq)
  finally show ?thesis by (simp add: md5_spec_def st)
qed

end
