(* ===== verification/Hash_Utils.thy ===== *)
theory Hash_Utils
  imports Md5
begin

text \<open>
  The two functions \<open>src/hash_utils.c\<close> exports: the sampled digest of a chunk of a file, and the
  syntax check of a digest. The pointers of the C interface are the callers' buffers (never
  \<open>NULL\<close> in the program), so the only error is a negative offset. The locale \<open>content_digest\<close> is
  what client and server rely on when they compare digests of a chunk.
\<close>

unbundle bit_operations_syntax

subsection \<open>Definitions\<close>

text \<open>
  The loop over the data: the byte at absolute offset \<open>off\<close> is hashed when 10 divides \<open>off\<close>. The offset is an \<open>off_t\<close> of 64 bits in
  the code; it does not wrap here.
\<close>

fun sparse_loop :: "md5_context \<Rightarrow> u8 list \<Rightarrow> int \<Rightarrow> md5_context" where
  "sparse_loop ctx [] off = ctx"
| "sparse_loop ctx (b # data) off =
     sparse_loop (if off mod 10 = 0 then md5_update ctx [b] else ctx) data (off + 1)"

text \<open>\<open>ctx\<close> is the uninitialised stack variable of the C function.\<close>

definition sparse_md5_hex_from :: "md5_context \<Rightarrow> u8 list \<Rightarrow> int \<Rightarrow> string option" where
  "sparse_md5_hex_from ctx data base_offset =
     (if base_offset < 0 then None
      else (let digest = md5_final (sparse_loop (md5_init ctx) data base_offset)
            in Some (concat (map (\<lambda>b. [hex_digits ! unat (drop_bit 4 b), hex_digits ! unat (b AND 0x0f)])
                 digest))))"

definition stack_context :: md5_context where
  "stack_context = \<lparr>md5_state = [], bit_count = 0, md5_buffer = replicate 64 0\<rparr>"

definition httpfs_sparse_md5_hex :: "u8 list \<Rightarrow> int \<Rightarrow> string option" where
  "httpfs_sparse_md5_hex data base_offset = sparse_md5_hex_from stack_context data base_offset"

definition httpfs_is_valid_md5_hex :: "string \<Rightarrow> bool" where
  "httpfs_is_valid_md5_hex value \<longleftrightarrow> length value = 32 \<and>
     list_all (\<lambda>ch. 48 \<le> (of_char ch :: nat) \<and> (of_char ch :: nat) \<le> 57 \<or>
       97 \<le> (of_char ch :: nat) \<and> (of_char ch :: nat) \<le> 102) value"

text \<open>The reference: the bytes whose absolute offset is a multiple of 10.\<close>

fun sampled :: "u8 list \<Rightarrow> int \<Rightarrow> u8 list" where
  "sampled [] off = []"
| "sampled (b # data) off = (if off mod 10 = 0 then [b] else []) @ sampled data (off + 1)"

subsection \<open>The digest of a chunk\<close>

lemma represents_sparse_loop:
  "represents ctx m \<Longrightarrow> represents (sparse_loop ctx data off) (m @ sampled data off)"
proof (induction data arbitrary: ctx m off)
  case (Cons b data)
  then show ?case
    using md5_update_represents [OF Cons.prems, of "[b]"] by (cases "off mod 10 = 0") fastforce+
qed simp

lemma length_md5_spec: "length (md5_spec m) = 16"
proof -
  have "length (md5_absorb md5_iv (md5_pad m)) = 4"
    by (rule length_md5_absorb) (simp add: md5_iv_def)
  then obtain a b c d where "md5_absorb md5_iv (md5_pad m) = [a, b, c, d]"
    by (auto simp: length_Suc_conv numeral_eq_Suc)
  then show ?thesis by (simp add: md5_spec_def le32_def)
qed

lemma hex_byte_shift: "[hex_digits ! unat (drop_bit 4 b), hex_digits ! unat (b AND 0x0f)] = hex_byte b"
proof -
  have "unat (drop_bit 4 b) = unat b div 16"
    unfolding unat_drop_bit_eq by (simp add: drop_bit_eq_div)
  then show ?thesis unfolding hex_byte_eq unat_low_nibble by simp
qed

lemma sparse_md5_hex_from_spec:
  assumes "length (md5_buffer ctx) = 64" "0 \<le> off"
  shows "sparse_md5_hex_from ctx data off = Some (concat (map hex_byte (md5_spec (sampled data off))))"
proof -
  have "represents (sparse_loop (md5_init ctx) data off) ([] @ sampled data off)"
    by (rule represents_sparse_loop) (rule represents_init, fact)
  then have "md5_final (sparse_loop (md5_init ctx) data off) = md5_spec (sampled data off)"
    by (intro md5_final_spec) simp
  with assms show ?thesis
    by (simp only: sparse_md5_hex_from_def Let_def hex_byte_shift) simp
qed

lemma sparse_md5_hex_spec [md5_simps]:
  "0 \<le> off \<Longrightarrow> httpfs_sparse_md5_hex data off = Some (concat (map hex_byte (md5_spec (sampled data off))))"
  unfolding httpfs_sparse_md5_hex_def
  by (rule sparse_md5_hex_from_spec) (simp_all add: stack_context_def)

lemma sparse_md5_hex_None [md5_simps]: "httpfs_sparse_md5_hex data off = None \<longleftrightarrow> off < 0"
  by (auto simp: httpfs_sparse_md5_hex_def sparse_md5_hex_from_def Let_def)

lemma hex_digit_valid:
  "k < 16 \<Longrightarrow> 48 \<le> (of_char (hex_digits ! k) :: nat) \<and> (of_char (hex_digits ! k) :: nat) \<le> 57 \<or>
     97 \<le> (of_char (hex_digits ! k) :: nat) \<and> (of_char (hex_digits ! k) :: nat) \<le> 102"
  by (drule less_16_cases) (auto simp: hex_digits_def)

lemma hex_byte_valid:
  "c \<in> set (hex_byte b) \<Longrightarrow> 48 \<le> (of_char c :: nat) \<and> (of_char c :: nat) \<le> 57 \<or>
     97 \<le> (of_char c :: nat) \<and> (of_char c :: nat) \<le> 102"
proof -
  have "unat b < 256" using unsigned_less [of b] by simp
  then have "unat b div 16 < 16" "unat b mod 16 < 16" by auto
  moreover assume "c \<in> set (hex_byte b)"
  ultimately show ?thesis
    using hex_digit_valid [of "unat b div 16"] hex_digit_valid [of "unat b mod 16"]
    by (auto simp: hex_byte_eq)
qed

lemma sparse_md5_hex_valid: "httpfs_sparse_md5_hex data off = Some h \<Longrightarrow> httpfs_is_valid_md5_hex h"
proof -
  assume h: "httpfs_sparse_md5_hex data off = Some h"
  then have "0 \<le> off" by (metis linorder_not_le option.distinct(1) sparse_md5_hex_None)
  with h have h: "h = concat (map hex_byte (md5_spec (sampled data off)))"
    by (simp add: sparse_md5_hex_spec)
  moreover have "length h = 32" by (simp add: h length_md5_spec)
  ultimately show ?thesis
    using hex_byte_valid by (auto simp: httpfs_is_valid_md5_hex_def list_all_iff)
qed

lemma sampled_append: "sampled (a @ b) off = sampled a off @ sampled b (off + int (length a))"
  by (induction a arbitrary: off) (auto simp: algebra_simps)

lemma sampled_cong:
  "length d = length e \<Longrightarrow> (\<And>i. i < length d \<Longrightarrow> (off + int i) mod 10 = 0 \<Longrightarrow> d ! i = e ! i) \<Longrightarrow>
   sampled d off = sampled e off"
proof (induction d e arbitrary: off rule: list_induct2)
  case (Cons x xs y ys)
  have "sampled xs (off + 1) = sampled ys (off + 1)"
    using Cons.prems [of "Suc _"] by (intro Cons.IH) (simp add: algebra_simps)
  moreover have "off mod 10 = 0 \<Longrightarrow> x = y" using Cons.prems [of 0] by simp
  ultimately show ?case by simp
qed simp

subsection \<open>The contract of the chunk digest\<close>

text \<open>
  A peer attaches the digest of a chunk, the other side recomputes it and compares. The laws:
  a digest exists exactly for the offsets of a file, and it passes the peer's syntax check.
\<close>

locale content_digest =
  fixes digest :: "'b list \<Rightarrow> int \<Rightarrow> string option"
    and valid :: "string \<Rightarrow> bool"
  assumes digest_None: "digest d off = None \<longleftrightarrow> off < 0"
    and digest_valid: "digest d off = Some h \<Longrightarrow> valid h"
begin

lemma digest_total: "0 \<le> off \<Longrightarrow> \<exists>h. digest d off = Some h \<and> valid h"
  using digest_None [of d off] digest_valid by (cases "digest d off") auto


end

interpretation sparse_digest: content_digest httpfs_sparse_md5_hex httpfs_is_valid_md5_hex
  by unfold_locales (auto simp: sparse_md5_hex_None intro: sparse_md5_hex_valid)

subsection \<open>Properties\<close>

text \<open>C20: the incremental, in-place MD5 of the program computes RFC 1321: for a chunk at a
  non-negative offset, \<open>httpfs_sparse_md5_hex\<close> returns the 32 hexadecimal digits of the MD5 of
  exactly the bytes at absolute offsets divisible by 10, whatever the stack variable held.\<close>

theorem sparse_md5_is_md5_of_samples:
  assumes "0 \<le> off" "length (md5_buffer ctx) = 64"
  shows "sparse_md5_hex_from ctx data off = Some (concat (map hex_byte (md5_spec (sampled data off)))) \<and>
    httpfs_sparse_md5_hex data off = sparse_md5_hex_from ctx data off"
  using assms by (simp add: sparse_md5_hex_from_spec sparse_md5_hex_spec)

theorem sparse_md5_is_md5_of_samples_witness:
  "httpfs_sparse_md5_hex [0x68, 0x69, 0x68, 0x69, 0x68, 0x69, 0x68, 0x69, 0x68, 0x69, 0x64] 0
     = Some ''b25ffa68ad761f8578cc61700c0140ed'' \<and>
   httpfs_sparse_md5_hex [0x68, 0x69, 0x68, 0x69, 0x68, 0x69, 0x68, 0x69, 0x68, 0x69, 0x64] 0
     = Some (concat (map hex_byte (md5_spec [0x68, 0x64])))"
proof -
  have v: "httpfs_sparse_md5_hex [0x68, 0x69, 0x68, 0x69, 0x68, 0x69, 0x68, 0x69, 0x68, 0x69, 0x64] 0
     = Some ''b25ffa68ad761f8578cc61700c0140ed''"
    by code_simp
  show ?thesis
    using v sparse_md5_is_md5_of_samples [of 0 stack_context
        "[0x68, 0x69, 0x68, 0x69, 0x68, 0x69, 0x68, 0x69, 0x68, 0x69, 0x64]"]
    by (simp add: stack_context_def)
qed

text \<open>C21: feeding a message to \<open>md5_update\<close> in pieces and calling \<open>md5_final\<close> gives the RFC 1321
  digest of the concatenation, for every way of cutting it and every length (the bit counter
  wraps around at 64 bits as the RFC asks).\<close>

theorem md5_update_pieces:
  assumes "length (md5_buffer ctx) = 64"
  shows "md5_final (fold (\<lambda>p c. md5_update c p) pieces (md5_init ctx)) = md5_spec (concat pieces)"
proof -
  have "represents c m \<Longrightarrow> represents (fold (\<lambda>p c. md5_update c p) pieces c) (m @ concat pieces)" for c m
  proof (induction pieces arbitrary: c m)
    case (Cons p ps)
    have "represents (md5_update c p) (m @ p)" by (rule md5_update_represents) (rule Cons.prems)
    from Cons.IH [OF this] show ?case by simp
  qed simp
  from this [OF represents_init [OF assms]] show ?thesis by (intro md5_final_spec) simp
qed

theorem md5_update_pieces_witness:
  "md5_final (fold (\<lambda>p c. md5_update c p) [[0x61], [0x62, 0x63]] (md5_init stack_context))
     = md5_spec [0x61, 0x62, 0x63] \<and>
   concat (map hex_byte (md5_spec [0x61, 0x62, 0x63])) = ''900150983cd24fb0d6963f7d28e17f72''"
proof -
  have v: "concat (map hex_byte (md5_final (fold (\<lambda>p c. md5_update c p) [[0x61], [0x62, 0x63]]
      (md5_init stack_context)))) = ''900150983cd24fb0d6963f7d28e17f72''"
    by code_simp
  have eq: "md5_final (fold (\<lambda>p c. md5_update c p) [[0x61], [0x62, 0x63]] (md5_init stack_context))
      = md5_spec (concat [[0x61], [0x62, 0x63]])"
    by (rule md5_update_pieces) (simp add: stack_context_def)
  from v eq show ?thesis by (simp only: concat.simps append_Cons append_Nil append_Nil2 simp_thms)
qed

text \<open>C26: every digest the program computes is accepted by its own syntax check, and there is one
  exactly for non-negative offsets.\<close>

theorem sparse_md5_accepted:
  "(0 \<le> off \<longrightarrow> (\<exists>h. httpfs_sparse_md5_hex data off = Some h \<and> httpfs_is_valid_md5_hex h)) \<and>
   (off < 0 \<longrightarrow> httpfs_sparse_md5_hex data off = None)"
  using sparse_digest.digest_total sparse_digest.digest_None by blast

theorem sparse_md5_accepted_witness:
  "(\<exists>h. httpfs_sparse_md5_hex [1, 2] 30 = Some h \<and> httpfs_is_valid_md5_hex h) \<and>
   httpfs_sparse_md5_hex [1, 2] (-1) = None"
  using sparse_md5_accepted [of 30 "[1, 2]"] sparse_md5_accepted [of "-1" "[1, 2]"] by simp

text \<open>C27: the digest protects only the sampled bytes: two chunks of the same length that agree at
  the absolute offsets divisible by 10 have the same digest, so a change anywhere else in the
  chunk passes the verification of client and server.\<close>

theorem sparse_md5_blind_spot:
  assumes "length d = length e" "0 \<le> off"
    and "\<And>i. i < length d \<Longrightarrow> (off + int i) mod 10 = 0 \<Longrightarrow> d ! i = e ! i"
  shows "httpfs_sparse_md5_hex d off = httpfs_sparse_md5_hex e off"
  using sampled_cong [OF assms(1,3)] assms(2) by (simp add: sparse_md5_hex_spec)

theorem sparse_md5_blind_spot_witness:
  "httpfs_sparse_md5_hex [7, 1, 2] 20 = httpfs_sparse_md5_hex [7, 9, 9] 20"
proof (rule sparse_md5_blind_spot)
  fix i :: nat
  assume "i < length [7, 1, 2 :: u8]" "(20 + int i) mod 10 = 0"
  then have "i < 3" "(20 + int i) mod 10 = 0" by simp_all
  then have "i = 0" by presburger
  then show "[7, 1, 2 :: u8] ! i = [7, 9, 9] ! i" by simp
qed simp_all

end
