(* ===== verification/Server_Text.thy ===== *)
theory Server_Text
  imports Json_Utils
begin

text \<open>
  The text processing of \<open>demo/service_provider/c/httpfs_server.c\<close>: percent decoding and query
  strings, the substring based reader of JSON request bodies, path resolution, the request line
  and the header lines, and the texts of the responses. A result that the C code leaves in a
  buffer is the C string a later reader of the buffer sees, so a decoded NUL byte ends it.
\<close>

unbundle bit_operations_syntax

subsection \<open>Query strings\<close>

definition hex_value :: "char \<Rightarrow> int" where
  "hex_value ch =
     (let c = int (of_char ch)
      in if 48 \<le> c \<and> c \<le> 57 then c - 48
         else if 97 \<le> c \<and> c \<le> 102 then c - 97 + 10
         else if 65 \<le> c \<and> c \<le> 70 then c - 65 + 10
         else -1)"

fun url_decode_loop :: "string \<Rightarrow> bytes \<Rightarrow> nat \<Rightarrow> bytes option" where
  "url_decode_loop [] out n = Some out"
| "url_decode_loop (c # s) out n =
     (if length out + 1 \<ge> n then None
      else if c = CHR ''%'' then
        (case s of
          h # l # r \<Rightarrow>
            (let high = hex_value h; low = hex_value l
             in if high < 0 \<or> low < 0 then None
                else url_decode_loop r (out @ [char_of (nat (push_bit 4 high OR low))]) n)
        | _ \<Rightarrow> None)
      else if c = CHR ''+'' then url_decode_loop s (out @ [CHR '' '']) n
      else url_decode_loop s (out @ [c]) n)"

definition url_decode :: "string \<Rightarrow> nat \<Rightarrow> string option" where
  "url_decode input n = map_option c_str (url_decode_loop input [] n)"

function query_value :: "string \<Rightarrow> string \<Rightarrow> nat \<Rightarrow> string option" where
  "query_value cursor key n =
     (if cursor = [] then None
      else let segment = takeWhile (\<lambda>c. c \<noteq> CHR ''&'') cursor;
               next_cursor = drop (length segment + 1) cursor
           in case strchr segment (CHR ''='') of
                Some e \<Rightarrow>
                  (if e = length key \<and> take e segment = key then
                     (let encoded = drop (e + 1) segment
                      in if length encoded + 1 > 2048 then None else url_decode encoded n)
                   else query_value next_cursor key n)
              | None \<Rightarrow> query_value next_cursor key n)"
  by pat_completeness auto
termination
  by (relation "measure (\<lambda>(cursor, key, n). length cursor)") (auto simp: neq_Nil_conv)

declare query_value.simps [simp del]

subsection \<open>Request bodies\<close>

definition json_unescape_simple :: "char \<Rightarrow> char option" where
  "json_unescape_simple e =
     (if e = CHR ''n'' then Some (CHR 0x0A)
      else if e = CHR ''r'' then Some (CHR 0x0D)
      else if e = CHR ''t'' then Some (CHR 0x09)
      else if e = CHR 0x5C \<or> e = CHR 0x22 \<or> e = CHR ''/'' then Some e
      else None)"

fun json_get_loop :: "string \<Rightarrow> string \<Rightarrow> nat \<Rightarrow> string option" where
  "json_get_loop [] out n = None"
| "json_get_loop (c # s) out n =
     (if c = CHR 0x22 then Some out
      else if c = CHR 0x5C then
        (case s of
          [] \<Rightarrow> None
        | e # r \<Rightarrow>
            (case json_unescape_simple e of
              None \<Rightarrow> None
            | Some x \<Rightarrow> if length out + 2 \<ge> n then None else json_get_loop r (out @ [x]) n))
      else if length out + 2 \<ge> n then None else json_get_loop s (out @ [c]) n)"

definition json_get_string :: "string \<Rightarrow> string \<Rightarrow> nat \<Rightarrow> string option" where
  "json_get_string json key n =
     (let pattern = fst (snprintf 128 (CHR 0x22 # key @ [CHR 0x22, CHR '':'', CHR 0x22]))
      in case strstr json pattern of
           None \<Rightarrow> None
         | Some start \<Rightarrow> json_get_loop (drop (start + length pattern) json) [] n)"

definition json_get_long :: "string \<Rightarrow> string \<Rightarrow> int option" where
  "json_get_long json key =
     (let pattern = fst (snprintf 128 (CHR 0x22 # key @ [CHR 0x22, CHR '':'']))
      in case strstr json pattern of
           None \<Rightarrow> None
         | Some start \<Rightarrow>
             (let (value, endptr) = strtoll (drop (start + length pattern) json)
              in if endptr = 0 then None else Some value))"

subsection \<open>Paths\<close>

definition resolve_path :: "string \<Rightarrow> string \<Rightarrow> nat \<Rightarrow> string option" where
  "resolve_path root_dir path n =
     (if path = [] \<or> hd path \<noteq> CHR ''/'' then None
      else if path = ''/'' then (if snd (snprintf n root_dir) < n then Some root_dir else None)
      else if strstr path ''/../'' \<noteq> None \<or> strstr path ''/./'' \<noteq> None \<or> strstr path ''//'' \<noteq> None \<or>
              path = ''/..'' \<or> path = ''/.'' then None
      else if snd (snprintf n (root_dir @ path)) < n then Some (root_dir @ path) else None)"

subsection \<open>Request line and headers\<close>

definition CRLF :: string where
  "CRLF = [CHR 0x0D, CHR 0x0A]"

text \<open>
  The header lines start at \<open>headers_start\<close>; \<open>h\<close> is the C string there, and positions are relative
  to it. \<open>headers_end\<close> is the position of the empty line, or negative when there is no header line.
\<close>

function extract_header_loop :: "string \<Rightarrow> int \<Rightarrow> nat \<Rightarrow> string \<Rightarrow> nat \<Rightarrow> string option" where
  "extract_header_loop h headers_end cursor name n =
     (if int cursor < headers_end then
        (case strstr (drop cursor h) CRLF of
          None \<Rightarrow> None
        | Some k \<Rightarrow>
            (if int (cursor + k) > headers_end then None
             else if k > length name \<and> strncaseeq (drop cursor h) name (length name) \<and>
                     h ! (cursor + length name) = CHR '':'' then
               (let line = take k (drop cursor h);
                    v = dropWhile (\<lambda>c. c = CHR '' '' \<or> c = CHR 0x09) (drop (length name + 1) line)
                in if length v + 1 > n then None else Some v)
             else extract_header_loop h headers_end (cursor + k + 2) name n))
      else None)"
  by pat_completeness auto
termination
  by (relation "measure (\<lambda>(h, headers_end, cursor, name, n). nat (headers_end - int cursor))") auto

declare extract_header_loop.simps [simp del]

definition extract_header_value :: "string \<Rightarrow> int \<Rightarrow> string \<Rightarrow> nat \<Rightarrow> string option" where
  "extract_header_value h headers_end name n =
     (if n = 0 then None else extract_header_loop h headers_end 0 name n)"

text \<open>\<open>sscanf(line, "%7s %2047s", ...)\<close>: \<open>Some\<close> when both conversions succeed.\<close>

definition scan_two_words :: "string \<Rightarrow> (string \<times> string) option" where
  "scan_two_words line =
     (let s = dropWhile is_space line;
          w = take 7 (takeWhile (\<lambda>c. \<not> is_space c) s);
          t = dropWhile is_space (drop (length w) s);
          u = take 2047 (takeWhile (\<lambda>c. \<not> is_space c) t)
      in if w = [] \<or> u = [] then None else Some (w, u))"

text \<open>The method, the path and the query.\<close>

definition parse_request_line :: "string \<Rightarrow> (string \<times> string \<times> string) option" where
  "parse_request_line line =
     (case scan_two_words line of
        None \<Rightarrow> None
      | Some (req_method, raw_uri) \<Rightarrow>
          (case strchr raw_uri (CHR ''?'') of
             Some i \<Rightarrow> Some (req_method, fst (snprintf 2048 (take i raw_uri)),
                fst (snprintf 2048 (drop (i + 1) raw_uri)))
           | None \<Rightarrow> Some (req_method, fst (snprintf 2048 raw_uri), [])))"

subsection \<open>Responses\<close>

definition http_header_json :: "int \<Rightarrow> nat \<Rightarrow> string" where
  "http_header_json status_code body_length =
     ''HTTP/1.1 '' @ show_int status_code @ '' OK'' @ CRLF @
     ''Content-Type: application/json; charset=utf-8'' @ CRLF @
     ''Content-Length: '' @ show_nat body_length @ CRLF @
     ''Connection: close'' @ CRLF @ CRLF"

text \<open>
  The bytes \<open>send_json\<close> and \<open>send_binary\<close> hand to \<open>send_all\<close>, the header before the body. The header is
  formatted into a buffer of 256 bytes and \<open>send_all\<close> is given the length \<open>snprintf\<close> returned, which is more than
  the buffer holds when the header does not fit; a list has no bytes behind the buffer, so the model then sends
  what the buffer holds, and \<open>replies_complete\<close> shows that it never happens. \<open>body_length\<close> is a \<open>size_t\<close>.
\<close>

definition send_json :: "int \<Rightarrow> string \<Rightarrow> bytes" where
  "send_json status_code body =
     (let body_length = length body mod 2 ^ 64;
          (header, header_length) = snprintf 256 (http_header_json status_code body_length)
      in (if header_length > 0 then take header_length header else []) @ body)"

definition send_ok :: "string \<Rightarrow> bytes" where
  "send_ok payload = send_json 200 payload"

definition http_header_binary :: "string \<Rightarrow> nat \<Rightarrow> string" where
  "http_header_binary content_md5 body_length =
     ''HTTP/1.1 200 OK'' @ CRLF @
     ''Content-Type: application/octet-stream'' @ CRLF @
     ''X-HTTPFS-Content-MD5: '' @ content_md5 @ CRLF @
     ''Content-Length: '' @ show_nat body_length @ CRLF @
     ''Connection: close'' @ CRLF @ CRLF"

definition send_binary :: "bytes \<Rightarrow> string \<Rightarrow> bytes" where
  "send_binary body content_md5 =
     (let body_length = length body mod 2 ^ 64;
          (header, header_length) = snprintf 256 (http_header_binary content_md5 body_length)
      in (if header_length > 0 then take header_length header else []) @ (if length body > 0 then body else []))"

definition quoted :: "string \<Rightarrow> string" where
  "quoted s = CHR 0x22 # s @ [CHR 0x22]"

definition error_payload :: "int \<Rightarrow> string \<Rightarrow> string" where
  "error_payload errno_value escaped = ''{'' @ quoted ''status'' @ '':'' @ quoted ''error'' @ '','' @
     quoted ''errno'' @ '':'' @ show_int errno_value @ '','' @
     quoted ''message'' @ '':'' @ quoted escaped @ ''}''"

definition send_error_json :: "int \<Rightarrow> string \<Rightarrow> bytes" where
  "send_error_json errno_value message =
     (let escaped = (case json_escape_string message 1024 of Some e \<Rightarrow> e | None \<Rightarrow> ''internal error'');
          payload = fst (snprintf 1400 (error_payload errno_value escaped))
      in send_json 200 payload)"

record stat =
  st_mode :: u32
  st_size :: int
  st_uid :: u32
  st_gid :: u32
  st_nlink :: u64
  st_atime :: int
  st_mtime :: int
  st_ctime :: int

definition S_ISDIR :: "u32 \<Rightarrow> bool" where
  "S_ISDIR m \<longleftrightarrow> m AND 0xF000 = 0x4000"

definition meta_payload :: "string \<Rightarrow> stat \<Rightarrow> string" where
  "meta_payload path st = ''{'' @ quoted ''status'' @ '':'' @ quoted ''ok'' @ '','' @
     quoted ''meta'' @ '':{'' @ quoted ''path'' @ '':'' @ quoted path @ '','' @
     quoted ''type'' @ '':'' @ quoted (if S_ISDIR (st_mode st) then ''dir'' else ''file'') @ '','' @
     quoted ''mode'' @ '':'' @ show_nat (unat (st_mode st)) @ '','' @
     quoted ''size'' @ '':'' @ show_int (st_size st) @ '','' @
     quoted ''uid'' @ '':'' @ show_nat (unat (st_uid st)) @ '','' @
     quoted ''gid'' @ '':'' @ show_nat (unat (st_gid st)) @ '','' @
     quoted ''nlink'' @ '':'' @ show_nat (unat (st_nlink st)) @ '','' @
     quoted ''atime'' @ '':'' @ show_int (st_atime st) @ '','' @
     quoted ''mtime'' @ '':'' @ show_int (st_mtime st) @ '','' @
     quoted ''ctime'' @ '':'' @ show_int (st_ctime st) @ ''}}''"

definition stat_to_json :: "string \<Rightarrow> stat \<Rightarrow> nat \<Rightarrow> string" where
  "stat_to_json path st n = fst (snprintf n (meta_payload path st))"

subsection \<open>Searching for a key in a JSON text\<close>

text \<open>\<open>no_start a b p\<close>: no occurrence of \<open>p\<close> in \<open>a @ b\<close> starts inside \<open>a\<close>.\<close>

fun no_start :: "string \<Rightarrow> string \<Rightarrow> string \<Rightarrow> bool" where
  "no_start [] b p = True"
| "no_start (x # a) b p = (\<not> prefix p (x # a @ b) \<and> no_start a b p)"

lemma no_start_append [simp]: "no_start (a @ c) b p \<longleftrightarrow> no_start a (c @ b) p \<and> no_start c b p"
  by (induction a) auto

lemma strstr_skip: "no_start a b p \<Longrightarrow> strstr (a @ b) p = map_option (\<lambda>k. length a + k) (strstr b p)"
  by (cases "strstr b p"; induction a) auto

lemma strstr_at: "no_start a b p \<Longrightarrow> prefix p b \<Longrightarrow> strstr (a @ b) p = Some (length a)"
proof -
  assume "no_start a b p" "prefix p b"
  moreover from this have "strstr b p = Some 0" by (cases b) auto
  ultimately show ?thesis by (simp add: strstr_skip)
qed

lemma no_start_no_hd: "x \<notin> set a \<Longrightarrow> no_start a b (x # p)"
  by (induction a) auto

text \<open>The pattern of a key never starts inside an escaped JSON string.\<close>

definition plain_key :: "string \<Rightarrow> bool" where
  "plain_key key \<longleftrightarrow> key \<noteq> [] \<and> CHR 0x22 \<notin> set key \<and> CHR 0x5C \<notin> set key \<and> CHR '','' \<notin> set key"

lemma escape_char_cases:
  obtains (plain) "escape_char c = [c]" "c \<noteq> CHR 0x22" "c \<noteq> CHR 0x5C"
  | (quote) "escape_char c = [CHR 0x5C, CHR 0x22]"
  | (other) r where "escape_char c = CHR 0x5C # r" "CHR 0x22 \<notin> set r"
proof (cases "c = CHR 0x22")
  case True
  then have "escape_char c = [CHR 0x5C, CHR 0x22]" by (simp add: escape_char_def)
  then show ?thesis by (rule quote)
next
  case nq: False
  show ?thesis
  proof (cases "escape_char c = [c]")
    case True
    moreover from this nq have "c \<noteq> CHR 0x5C" by (auto simp: escape_char_def)
    ultimately show ?thesis using nq plain by blast
  next
    case False
    have "CHR 0x22 \<noteq> hex_digits ! k" if "k < 16" for k
      using less_16_cases [OF that] by (auto simp: hex_digits_def)
    then have "CHR 0x22 \<notin> set (unicode_escape c)" if "(of_char c :: nat) < 0x20"
      using that by (simp add: unicode_escape_def less_mult_imp_div_less)
    with False nq show ?thesis
      by (intro other [of "tl (escape_char c)"]) (auto simp: escape_char_def unicode_escape_def split: if_splits)
  qed
qed

lemma escaped_no_key:
  "CHR 0x22 \<notin> set key \<Longrightarrow> CHR 0x5C \<notin> set key \<Longrightarrow>
   \<not> prefix (key @ CHR 0x22 # CHR '':'' # q) (json_escape s @ CHR 0x22 # CHR '','' # rest)"
proof (induction s arbitrary: key)
  case Nil
  then show ?case by (cases key) auto
next
  case (Cons c s)
  show ?case
  proof (cases c rule: escape_char_cases)
    case plain
    show ?thesis
    proof (cases key)
      case Nil
      with plain show ?thesis by simp
    next
      case (Cons k ks)
      with Cons.prems Cons.IH [of ks] plain show ?thesis by simp
    qed
  next
    case quote
    with Cons.prems show ?thesis by (cases key) auto
  next
    case (other r)
    with Cons.prems show ?thesis by (cases key) auto
  qed
qed

lemma no_start_escaped:
  assumes "plain_key key"
  shows "no_start (json_escape s) (CHR 0x22 # CHR '','' # rest) (CHR 0x22 # key @ CHR 0x22 # CHR '':'' # q)"
proof (induction s)
  case (Cons c s)
  show ?case
  proof (cases c rule: escape_char_cases)
    case plain
    with Cons show ?thesis by simp
  next
    case quote
    with Cons escaped_no_key [of key q s rest] assms show ?thesis by (simp add: plain_key_def)
  next
    case (other r)
    with Cons no_start_no_hd [of "CHR 0x22" r] show ?thesis by simp
  qed
qed simp

text \<open>A quoted string followed by a comma.\<close>

lemma no_start_quoted:
  assumes "plain_key key"
  shows "no_start (CHR 0x22 # json_escape s @ [CHR 0x22, CHR '','']) rest
           (CHR 0x22 # key @ CHR 0x22 # CHR '':'' # q)"
proof -
  from assms obtain k ks where key: "key = k # ks" "k \<noteq> CHR '',''"
    by (cases key) (auto simp: plain_key_def)
  with assms show ?thesis
    using escaped_no_key [of key q s rest] no_start_escaped [OF assms, of s rest q]
    by (simp add: plain_key_def)
qed

subsection \<open>Reading an escaped string back\<close>

definition json_simple :: "char \<Rightarrow> bool" where
  "json_simple c \<longleftrightarrow> 0x20 \<le> (of_char c :: nat) \<or> c = CHR 0x0A \<or> c = CHR 0x0D \<or> c = CHR 0x09"

lemma json_get_loop_simple:
  "json_simple c \<Longrightarrow> json_get_loop (escape_char c @ t) out n =
     (if length out + 2 \<ge> n then None else json_get_loop t (out @ [c]) n)"
  by (auto simp: json_simple_def escape_char_def json_unescape_simple_def)

lemma json_get_loop_not_simple:
  assumes "\<not> json_simple c"
  shows "json_get_loop (escape_char c @ t) out n = None"
proof -
  have nq: "c \<noteq> CHR 0x5C \<and> c \<noteq> CHR 0x22" using assms by (auto simp: json_simple_def)
  have "c = CHR 0x08 \<or> c = CHR 0x0C \<or> escape_char c = unicode_escape c"
    using assms nq by (simp add: json_simple_def escape_char_def)
  then obtain e r where "escape_char c = CHR 0x5C # e # r" "json_unescape_simple e = None"
    by (auto simp: escape_char_def unicode_escape_def json_unescape_simple_def)
  then show ?thesis by simp
qed

lemma json_get_loop_escape:
  "list_all json_simple s \<Longrightarrow> s = [] \<or> length out + length s + 1 < n \<Longrightarrow>
   json_get_loop (json_escape s @ CHR 0x22 # r) out n = Some (out @ s)"
proof (induction s arbitrary: out)
  case (Cons c s)
  then have "json_get_loop (json_escape s @ CHR 0x22 # r) (out @ [c]) n = Some ((out @ [c]) @ s)"
    by (intro Cons.IH) auto
  with Cons.prems show ?case by (simp add: json_get_loop_simple)
qed simp

lemma json_get_loop_reject:
  "c \<in> set s \<Longrightarrow> \<not> json_simple c \<Longrightarrow> json_get_loop (json_escape s @ t) out n = None"
proof (induction s arbitrary: out)
  case (Cons d s)
  then show ?case
    by (cases "json_simple d") (auto simp: json_get_loop_simple json_get_loop_not_simple)
qed simp

lemma drop_pattern:
  "drop (3 + length key) (x # key @ y # z # t) = t"
  "drop (4 + length key) (x # key @ y # z # w # t) = t"
  by (simp_all add: eval_nat_numeral)

lemma json_get_string_found:
  assumes "length key + 4 < 128" "list_all json_simple s" "length s + 1 < n"
    and "no_start a (CHR 0x22 # key @ CHR 0x22 # CHR '':'' # CHR 0x22 # json_escape s @ CHR 0x22 # r)
           (CHR 0x22 # key @ CHR 0x22 # CHR '':'' # [CHR 0x22])"
  shows "json_get_string (a @ CHR 0x22 # key @ CHR 0x22 # CHR '':'' # CHR 0x22 # json_escape s @ CHR 0x22 # r) key n
     = Some s"
proof -
  let ?p = "CHR 0x22 # key @ CHR 0x22 # CHR '':'' # [CHR 0x22]"
  have "strstr (a @ ?p @ json_escape s @ CHR 0x22 # r) ?p = Some (length a)"
    by (rule strstr_at) (use assms(4) in simp_all)
  with assms show ?thesis by (simp add: json_get_string_def snprintf_def json_get_loop_escape drop_pattern)
qed

lemma json_get_string_rejects:
  assumes "length key + 4 < 128" "c \<in> set s" "\<not> json_simple c"
    and "no_start a (CHR 0x22 # key @ CHR 0x22 # CHR '':'' # CHR 0x22 # json_escape s @ CHR 0x22 # r)
           (CHR 0x22 # key @ CHR 0x22 # CHR '':'' # [CHR 0x22])"
  shows "json_get_string (a @ CHR 0x22 # key @ CHR 0x22 # CHR '':'' # CHR 0x22 # json_escape s @ CHR 0x22 # r) key n
     = None"
proof -
  let ?p = "CHR 0x22 # key @ CHR 0x22 # CHR '':'' # [CHR 0x22]"
  have "strstr (a @ ?p @ json_escape s @ CHR 0x22 # r) ?p = Some (length a)"
    by (rule strstr_at) (use assms(4) in simp_all)
  with assms json_get_loop_reject [of c s "CHR 0x22 # r" "[]" n] show ?thesis
    by (simp add: json_get_string_def snprintf_def drop_pattern)
qed

lemma json_get_long_found:
  assumes "length key + 3 < 128" "LONG_MIN \<le> i" "i \<le> LONG_MAX" "r = [] \<or> \<not> is_digit (hd r)"
    and "no_start a (CHR 0x22 # key @ CHR 0x22 # CHR '':'' # show_int i @ r)
           (CHR 0x22 # key @ CHR 0x22 # CHR '':'' # [])"
  shows "json_get_long (a @ CHR 0x22 # key @ CHR 0x22 # CHR '':'' # show_int i @ r) key = Some i"
proof -
  let ?p = "CHR 0x22 # key @ CHR 0x22 # CHR '':'' # []"
  have "strstr (a @ ?p @ show_int i @ r) ?p = Some (length a)"
    by (rule strstr_at) (use assms(5) in simp_all)
  moreover have "show_int i \<noteq> []" by (simp add: show_int_def)
  ultimately show ?thesis
    using assms by (simp add: json_get_long_def snprintf_def strtoll_show_int drop_pattern)
qed

subsection \<open>Percent encoding\<close>

text \<open>
  \<open>pct_encoded enc\<close>: \<open>enc\<close> writes a character as itself when it is unreserved (RFC 3986) and
  as a percent sign with two hexadecimal digits otherwise.
\<close>

definition url_unreserved :: "char \<Rightarrow> bool" where
  "url_unreserved c \<longleftrightarrow> (let n = (of_char c :: nat) in 48 \<le> n \<and> n \<le> 57 \<or> 65 \<le> n \<and> n \<le> 90 \<or> 97 \<le> n \<and> n \<le> 122 \<or>
     n = 45 \<or> n = 46 \<or> n = 95 \<or> n = 126)"

definition pct_encoded :: "(char \<Rightarrow> string) \<Rightarrow> bool" where
  "pct_encoded enc \<longleftrightarrow> (\<forall>c. if url_unreserved c then enc c = [c]
     else \<exists>h l. enc c = [CHR ''%'', h, l] \<and> hex_value h = int (of_char c div 16) \<and>
            hex_value l = int (of_char c mod 16))"

lemma char_of_join: "char_of (nat (push_bit 4 (int (of_char c div 16)) OR int (of_char c mod 16))) = (c :: char)"
proof -
  have "push_bit 4 (int (of_char c div 16)) OR int (of_char c mod 16) = int (of_char c)"
    by (simp add: nibble_join nibble_split)
  then show ?thesis by simp
qed

lemma url_decode_loop_char:
  assumes "pct_encoded enc" "length out + 1 < n"
  shows "url_decode_loop (enc c @ t) out n = url_decode_loop t (out @ [c]) n"
proof (cases "url_unreserved c")
  case True
  with assms(1) have "enc c = [c]" by (auto simp: pct_encoded_def)
  moreover from True have "c \<noteq> CHR ''%''" "c \<noteq> CHR ''+''" by (auto simp: url_unreserved_def)
  ultimately show ?thesis using assms(2) by simp
next
  case False
  with assms(1) obtain h l where "enc c = [CHR ''%'', h, l]"
    "hex_value h = int (of_char c div 16)" "hex_value l = int (of_char c mod 16)"
    unfolding pct_encoded_def by meson
  then show ?thesis using assms(2) by (simp add: Let_def char_of_join)
qed

lemma url_decode_loop_encoded:
  "pct_encoded enc \<Longrightarrow> length out + length s < n \<Longrightarrow>
   url_decode_loop (concat (map enc s)) out n = Some (out @ s)"
  by (induction s arbitrary: out) (simp_all add: url_decode_loop_char)

lemma url_decode_encoded:
  "pct_encoded enc \<Longrightarrow> CHR 0x00 \<notin> set s \<Longrightarrow> length s < n \<Longrightarrow>
   url_decode (concat (map enc s)) n = Some s"
  by (simp add: url_decode_def url_decode_loop_encoded)

lemma hex_value_alnum: "0 \<le> hex_value c \<Longrightarrow> c \<noteq> CHR ''&'' \<and> c \<noteq> CHR ''?'' \<and> \<not> is_space c"
  by (auto simp: hex_value_def Let_def is_space_def split: if_splits)

lemma pct_encoded_chars:
  assumes "pct_encoded enc" "x \<in> set (concat (map enc s))"
  shows "x \<noteq> CHR ''&'' \<and> x \<noteq> CHR ''?'' \<and> \<not> is_space x"
proof -
  from assms(2) obtain c where x: "x \<in> set (enc c)" by auto
  show ?thesis
  proof (cases "url_unreserved c")
    case True
    with assms(1) x have "x = c" by (auto simp: pct_encoded_def)
    with True show ?thesis by (auto simp: url_unreserved_def is_space_def Let_def)
  next
    case False
    with assms(1) obtain h l where "enc c = [CHR ''%'', h, l]" "0 \<le> hex_value h" "0 \<le> hex_value l"
      unfolding pct_encoded_def by (metis of_nat_0_le_iff)
    with x show ?thesis using hex_value_alnum by (auto simp: is_space_def)
  qed
qed

text \<open>The value of the first segment, and skipping a segment with another key.\<close>

lemma query_value_here:
  assumes "CHR ''&'' \<notin> set v" "CHR ''&'' \<notin> set key" "CHR ''='' \<notin> set key" "length v < 2048"
    and "r = [] \<or> hd r = CHR ''&''"
  shows "query_value (key @ CHR ''='' # v @ r) key n = url_decode v n"
proof -
  have "takeWhile (\<lambda>c. c \<noteq> CHR ''&'') (key @ CHR ''='' # v @ r) = key @ CHR ''='' # v"
    using assms by (cases r) (auto simp: takeWhile_append takeWhile_eq_all_conv)
  with assms show ?thesis by (subst query_value.simps) (simp add: Let_def)
qed

lemma query_value_next:
  assumes "CHR ''&'' \<notin> set v" "CHR ''&'' \<notin> set k" "CHR ''='' \<notin> set k" "k \<noteq> key"
  shows "query_value (k @ CHR ''='' # v @ CHR ''&'' # r) key n = query_value r key n"
proof -
  have "takeWhile (\<lambda>c. c \<noteq> CHR ''&'') (k @ CHR ''='' # v @ CHR ''&'' # r) = k @ CHR ''='' # v"
    using assms by (auto simp: takeWhile_append takeWhile_eq_all_conv)
  with assms show ?thesis by (subst query_value.simps) (auto simp: Let_def)
qed

subsection \<open>Confinement of resolved paths\<close>

text \<open>The components of a path, after its leading slash, and the depth reached below the root.\<close>

fun split_slash :: "string \<Rightarrow> string list" where
  "split_slash [] = [[]]"
| "split_slash (c # s) =
     (if c = CHR ''/'' then [] # split_slash s
      else (case split_slash s of [] \<Rightarrow> [[c]] | w # ws \<Rightarrow> (c # w) # ws))"

fun stays_below :: "nat \<Rightarrow> string list \<Rightarrow> bool" where
  "stays_below d [] = True"
| "stays_below d (c # cs) =
     (if c = [] \<or> c = ''.'' then stays_below d cs
      else if c = ''..'' then 0 < d \<and> stays_below (d - 1) cs
      else stays_below (d + 1) cs)"

lemma split_slash_nonempty [simp]: "split_slash s \<noteq> []"
  by (induction s) (auto split: list.splits)

lemma split_slash_join: "CHR ''/'' # s = concat (map ((#) (CHR ''/'')) (split_slash s))"
proof (induction s)
  case (Cons c s)
  show ?case
  proof (cases "c = CHR ''/''")
    case True
    show ?thesis unfolding True Cons.IH [symmetric] split_slash.simps if_True by (simp flip: Cons.IH)
  next
    case False
    obtain w ws where w: "split_slash s = w # ws" by (cases "split_slash s") auto
    with Cons have "s = w @ concat (map ((#) (CHR ''/'')) ws)" by simp
    with False w show ?thesis by simp
  qed
qed simp

lemma inner_component_sublist:
  assumes "split_slash s = as @ w # b # bs"
  shows "sublist (CHR ''/'' # w @ ''/'') (CHR ''/'' # s)"
proof -
  have "CHR ''/'' # s = concat (map ((#) (CHR ''/'')) as) @ (CHR ''/'' # w @ ''/'') @ b @ concat (map ((#) (CHR ''/'')) bs)"
    unfolding split_slash_join [of s] assms by simp
  then show ?thesis by (metis sublist_appendI)
qed

lemma single_component: "split_slash s = [w] \<Longrightarrow> s = w"
  using split_slash_join [of s] by simp

lemma stays_below_names:
  "\<forall>w \<in> set ws. w \<noteq> [] \<and> w \<noteq> ''.'' \<and> w \<noteq> ''..'' \<Longrightarrow>
   stays_below d (ws @ cs) = stays_below (d + length ws) cs"
  by (induction ws arbitrary: d) auto

lemma accepted_components:
  assumes "strstr (CHR ''/'' # s) ''/../'' = None" "strstr (CHR ''/'' # s) ''/./'' = None"
    and "strstr (CHR ''/'' # s) ''//'' = None"
    and "split_slash s = ws @ [l]"
  shows "\<forall>w \<in> set ws. w \<noteq> [] \<and> w \<noteq> ''.'' \<and> w \<noteq> ''..''"
proof
  fix w assume "w \<in> set ws"
  then obtain as bs where "ws = as @ w # bs" by (meson split_list)
  with assms(4) obtain b cs where "split_slash s = as @ w # b # cs"
    by (cases bs) auto
  then have "sublist (CHR ''/'' # w @ ''/'') (CHR ''/'' # s)" by (rule inner_component_sublist)
  with assms(1-3) show "w \<noteq> [] \<and> w \<noteq> ''.'' \<and> w \<noteq> ''..''"
    unfolding strstr_None_iff by auto
qed

lemma resolve_path_SomeD:
  assumes "resolve_path root p n = Some r"
  shows "\<exists>s. p = CHR ''/'' # s \<and> length r < n \<and>
     (if s = [] then r = root else r = root @ p \<and> stays_below 0 (split_slash s))"
proof -
  from assms obtain s where p: "p = CHR ''/'' # s"
    by (cases p) (auto simp: resolve_path_def split: if_splits)
  show ?thesis
  proof (cases "s = []")
    case True
    with assms p show ?thesis by (auto simp: resolve_path_def snprintf_def split: if_splits)
  next
    case False
    with assms p have r: "r = root @ p" "length r < n"
      and none: "strstr p ''/../'' = None" "strstr p ''/./'' = None" "strstr p ''//'' = None"
      and dots: "s \<noteq> ''..''" "s \<noteq> ''.''"
      by (auto simp: resolve_path_def snprintf_def simp del: strstr.simps split: if_splits)
    obtain ws l where wl: "split_slash s = ws @ [l]"
      by (metis split_slash_nonempty rev_exhaust)
    have names: "\<forall>w \<in> set ws. w \<noteq> [] \<and> w \<noteq> ''.'' \<and> w \<noteq> ''..''"
      by (rule accepted_components [OF _ _ _ wl]) (use none p in simp_all)
    have "stays_below (length ws) [l]"
      using dots wl single_component [of s l] by (cases ws) auto
    with names have "stays_below 0 (split_slash s)"
      unfolding wl using stays_below_names [OF names, of 0 "[l]"] by simp
    with False r p show ?thesis by auto
  qed
qed

subsection \<open>Buffer sizes of the responses\<close>

lemma length_show_u32: "length (show_nat (unat (w :: u32))) \<le> 10"
  using unsigned_less [of w, where ?'a = nat] by (intro length_show_nat_le) simp_all

lemma length_show_u64: "length (show_nat (unat (w :: u64))) \<le> 20"
  using unsigned_less [of w, where ?'a = nat] by (intro length_show_nat_le) simp_all

lemma length_quoted [simp]: "length (quoted s) = length s + 2"
  by (simp add: quoted_def)

definition stat_ok :: "stat \<Rightarrow> bool" where
  "stat_ok st \<longleftrightarrow> (\<forall>x \<in> {st_size st, st_atime st, st_mtime st, st_ctime st}. LONG_MIN \<le> x \<and> x \<le> LONG_MAX)"

lemma length_meta_payload:
  assumes "stat_ok st"
  shows "length (meta_payload path st) < length path + 256"
proof -
  from assms have "length (show_int (st_size st)) \<le> 20" "length (show_int (st_atime st)) \<le> 20"
    "length (show_int (st_mtime st)) \<le> 20" "length (show_int (st_ctime st)) \<le> 20"
    by (auto simp: stat_ok_def intro: length_show_int_le)
  then show ?thesis
    using length_show_u32 [of "st_mode st"] length_show_u32 [of "st_uid st"]
      length_show_u32 [of "st_gid st"] length_show_u64 [of "st_nlink st"]
    by (simp add: meta_payload_def)
qed

lemma length_error_payload:
  "LONG_MIN \<le> e \<Longrightarrow> e \<le> LONG_MAX \<Longrightarrow> length m < 1024 \<Longrightarrow> length (error_payload e m) < 1400"
  using length_show_int_le [of e] by (simp add: error_payload_def)

lemma length_show_size: "length (show_nat (n mod 2 ^ 64)) \<le> 20"
proof -
  have "n mod 2 ^ 64 < 2 ^ 64" by simp
  also have "\<dots> \<le> (10 :: nat) ^ 20" by simp
  finally show ?thesis by (intro length_show_nat_le) simp_all
qed

lemma length_http_header_json:
  "LONG_MIN \<le> c \<Longrightarrow> c \<le> LONG_MAX \<Longrightarrow> length (http_header_json c (n mod 2 ^ 64)) < 256"
  using length_show_int_le [of c] length_show_size [of n] by (simp add: http_header_json_def CRLF_def)

lemma length_http_header_binary:
  "length md5 \<le> 32 \<Longrightarrow> length (http_header_binary md5 (n mod 2 ^ 64)) < 256"
  using length_show_size [of n] by (simp add: http_header_binary_def CRLF_def)

lemma send_json_full:
  "LONG_MIN \<le> c \<Longrightarrow> c \<le> LONG_MAX \<Longrightarrow> send_json c body = http_header_json c (length body mod 2 ^ 64) @ body"
  using length_http_header_json [of c "length body"] by (simp add: send_json_def snprintf_def Let_def)

lemma send_ok_full: "send_ok payload = http_header_json 200 (length payload mod 2 ^ 64) @ payload"
  by (simp add: send_ok_def send_json_full LONG_MIN_def LONG_MAX_def)

lemma send_binary_full:
  "length md5 \<le> 32 \<Longrightarrow> send_binary body md5 = http_header_binary md5 (length body mod 2 ^ 64) @ body"
  using length_http_header_binary [of md5 "length body"] by (cases body) (simp_all add: send_binary_def snprintf_def Let_def)

subsection \<open>Clean paths are accepted\<close>

lemma split_slash_append: "split_slash (a @ CHR ''/'' # b) = split_slash a @ split_slash b"
proof (induction a)
  case (Cons c a)
  then show ?case by (cases "split_slash a") auto
qed simp

lemma split_slash_no_slash: "CHR ''/'' \<notin> set w \<Longrightarrow> split_slash w = [w]"
  by (induction w) auto

definition clean_path :: "string \<Rightarrow> bool" where
  "clean_path p \<longleftrightarrow> p \<noteq> [] \<and> hd p = CHR ''/'' \<and> (\<forall>w \<in> set (split_slash (tl p)). w \<noteq> [] \<and> w \<noteq> ''.'' \<and> w \<noteq> ''..'')"

text \<open>A component followed by a slash is not the last one.\<close>

lemma inner_component:
  assumes "hd p = CHR ''/''" "sublist (CHR ''/'' # w @ ''/'') p" "CHR ''/'' \<notin> set w"
  shows "w \<in> set (butlast (split_slash (tl p)))"
proof -
  from assms(2) obtain xs ys where p: "p = xs @ CHR ''/'' # w @ CHR ''/'' # ys" by (auto simp: sublist_def)
  then have "p \<noteq> []" by simp
  then have "p = CHR ''/'' # tl p" using assms(1) hd_Cons_tl [of p] by simp
  then have "[] # split_slash (tl p) = split_slash p" by (metis split_slash.simps(2))
  also have "\<dots> = split_slash xs @ [w] @ split_slash ys"
    using split_slash_append [of xs "w @ CHR ''/'' # ys"] split_slash_append [of w ys] split_slash_no_slash [OF assms(3)]
    by (simp add: p)
  finally show ?thesis by (cases "split_slash xs") (auto simp: butlast_append)
qed

lemma inner_clean_strstr:
  assumes "hd p = CHR ''/''" "\<forall>w \<in> set (butlast (split_slash (tl p))). w \<noteq> [] \<and> w \<noteq> ''.'' \<and> w \<noteq> ''..''"
  shows "strstr p ''/../'' = None" "strstr p ''/./'' = None" "strstr p ''//'' = None"
  using inner_component [OF assms(1), of "''..''"] inner_component [OF assms(1), of "''.''"]
    inner_component [OF assms(1), of "[]"] assms(2) by (auto simp: strstr_None_iff)

lemma resolve_path_inner_clean:
  assumes "p \<noteq> []" "hd p = CHR ''/''" "\<forall>w \<in> set (butlast (split_slash (tl p))). w \<noteq> [] \<and> w \<noteq> ''.'' \<and> w \<noteq> ''..''"
    and "p \<noteq> ''/''" "p \<noteq> ''/..''" "p \<noteq> ''/.''" "length root + length p < n"
  shows "resolve_path root p n = Some (root @ p)"
  using inner_clean_strstr [OF assms(2,3)] assms by (simp add: resolve_path_def snprintf_def del: strstr.simps)

lemma resolve_path_clean:
  assumes "clean_path p" "length root + length p < n"
  shows "resolve_path root p n = Some (root @ p)"
proof (rule resolve_path_inner_clean)
  show "\<forall>w \<in> set (butlast (split_slash (tl p))). w \<noteq> [] \<and> w \<noteq> ''.'' \<and> w \<noteq> ''..''"
    using assms(1) in_set_butlastD by (fastforce simp: clean_path_def)
  have "\<not> clean_path ''/''" "\<not> clean_path ''/..''" "\<not> clean_path ''/.''" by (simp_all add: clean_path_def)
  then show "p \<noteq> ''/''" "p \<noteq> ''/..''" "p \<noteq> ''/.''" using assms(1) by metis+
qed (use assms in \<open>simp_all add: clean_path_def\<close>)

lemma resolve_path_clean_then:
  assumes "clean_path p" "CHR ''/'' \<notin> set w" "length root + length p + length w + 1 < n"
  shows "resolve_path root (p @ CHR ''/'' # w) n = Some (root @ p @ CHR ''/'' # w)"
proof (rule resolve_path_inner_clean)
  obtain s where p: "p = CHR ''/'' # s" using assms(1) by (metis clean_path_def list.collapse)
  then have "split_slash (tl (p @ CHR ''/'' # w)) = split_slash s @ [w]"
    using split_slash_append [of s w] split_slash_no_slash [OF assms(2)] by simp
  then show "\<forall>v \<in> set (butlast (split_slash (tl (p @ CHR ''/'' # w)))). v \<noteq> [] \<and> v \<noteq> ''.'' \<and> v \<noteq> ''..''"
    using assms(1) p by (simp add: clean_path_def)
  have slash: "x \<noteq> ''/'' \<and> x \<noteq> ''/..'' \<and> x \<noteq> ''/.''" if "CHR ''/'' \<in> set (tl x)" for x using that by auto
  have "CHR ''/'' \<in> set (tl (p @ CHR ''/'' # w))" using p by simp
  from slash [OF this]
  show "p @ CHR ''/'' # w \<noteq> ''/''" "p @ CHR ''/'' # w \<noteq> ''/..''" "p @ CHR ''/'' # w \<noteq> ''/.''" by simp_all
  show "p @ CHR ''/'' # w \<noteq> []" "hd (p @ CHR ''/'' # w) = CHR ''/''" using p by simp_all
  show "length root + length (p @ CHR ''/'' # w) < n" using assms(3) by simp
qed

lemma resolve_path_inner_dots:
  assumes "w = ''.'' \<or> w = ''..''"
  shows "resolve_path root (p @ CHR ''/'' # w @ CHR ''/'' # q) n = None"
proof -
  have "sublist (CHR ''/'' # w @ ''/'') (p @ CHR ''/'' # w @ CHR ''/'' # q)" by (auto simp: sublist_def)
  then have "strstr (p @ CHR ''/'' # w @ CHR ''/'' # q) (CHR ''/'' # w @ ''/'') \<noteq> None" using strstr_None_iff by blast
  then show ?thesis using assms by (cases p) (auto simp: resolve_path_def simp del: strstr.simps)
qed

subsection \<open>Properties\<close>

text \<open>C12: paths stay below the root directory. What \<open>resolve_path\<close> gives is the root itself or the root followed by
  the path of the request, it fits the buffer, and walking through the components of that path never leads
  above the root; and every path whose components are non-empty names other than \<open>.\<close> and \<open>..\<close> is accepted.\<close>

theorem resolve_path_confined:
  "(resolve_path root p n = Some r \<longrightarrow>
      (\<exists>s. p = CHR ''/'' # s \<and> length r < n \<and>
         (if s = [] then r = root else r = root @ p \<and> stays_below 0 (split_slash s)))) \<and>
   (clean_path p \<and> length root + length p < n \<longrightarrow> resolve_path root p n = Some (root @ p))"
  using resolve_path_SomeD [of root p n r] resolve_path_clean [of p root n] by blast

theorem resolve_path_confined_witness:
  "resolve_path ''/srv'' ''/a/b'' 4096 = Some ''/srv/a/b'' \<and> stays_below 0 (split_slash ''a/b'')"
proof -
  have "clean_path ''/a/b''" by (simp add: clean_path_def)
  then have "resolve_path ''/srv'' ''/a/b'' 4096 = Some ''/srv/a/b''"
    using resolve_path_confined [of "''/srv''" "''/a/b''" 4096 "''/srv/a/b''"] by simp
  with resolve_path_confined [of "''/srv''" "''/a/b''" 4096 "''/srv/a/b''"] show ?thesis by simp
qed

text \<open>C35: the checks of \<open>resolve_path\<close> do not see a last component \<open>..\<close> or \<open>.\<close> behind other components: every
  clean path followed by \<open>/..\<close> or \<open>/.\<close> is handed to the kernel, which resolves it, although the same components
  are refused wherever a slash follows them and alone.\<close>

theorem trailing_dots_accepted:
  assumes "clean_path p" "length root + length p + 3 < n" "w = ''.'' \<or> w = ''..''"
  shows "resolve_path root (p @ CHR ''/'' # w) n = Some (root @ p @ CHR ''/'' # w) \<and>
    resolve_path root (p @ CHR ''/'' # w @ CHR ''/'' # q) n = None \<and> resolve_path root (CHR ''/'' # w) n = None"
proof (intro conjI)
  show "resolve_path root (p @ CHR ''/'' # w) n = Some (root @ p @ CHR ''/'' # w)"
    by (rule resolve_path_clean_then) (use assms in auto)
  show "resolve_path root (p @ CHR ''/'' # w @ CHR ''/'' # q) n = None" by (rule resolve_path_inner_dots [OF assms(3)])
  show "resolve_path root (CHR ''/'' # w) n = None" using assms(3) by (auto simp: resolve_path_def)
qed

theorem trailing_dots_accepted_witness:
  "resolve_path ''/srv'' ''/a/b/..'' 4096 = Some ''/srv/a/b/..'' \<and> resolve_path ''/srv'' ''/a/b/../c'' 4096 = None"
proof -
  have "clean_path ''/a/b''" by (simp add: clean_path_def)
  from trailing_dots_accepted [OF this, of "''/srv''" 4096 "''..''" "''c''"] show ?thesis by simp
qed

text \<open>C28: responses are never cut off by their buffers. For every file whose numbers fit their C types the metadata
  response of \<open>handle_meta\<close>, whose buffer is 256 bytes larger than the path, is complete; every error
  response is a complete error object with the given number; and the headers of \<open>send_json\<close> and \<open>send_binary\<close>
  with their terminator fit their buffers of 256 bytes, so that the whole header and the whole body are sent and
  nothing behind the buffer, for every status, every body and every digest text of at most 32 characters.\<close>

theorem replies_complete:
  assumes "stat_ok st" "LONG_MIN \<le> e" "e \<le> LONG_MAX" "- (2 ^ 31) \<le> status" "status < 2 ^ 31" "length md5 \<le> 32"
  shows "stat_to_json path st (length path + 256) = meta_payload path st \<and>
    (\<exists>m. send_error_json e msg = send_ok (error_payload e m) \<and> (json_escape_string msg 1024 = Some m \<or> m = ''internal error'')) \<and>
    snd (snprintf 256 (http_header_json status (length body mod 2 ^ 64))) < 256 \<and>
    send_json status body = http_header_json status (length body mod 2 ^ 64) @ body \<and>
    snd (snprintf 256 (http_header_binary md5 (length body mod 2 ^ 64))) < 256 \<and>
    send_binary body md5 = http_header_binary md5 (length body mod 2 ^ 64) @ body"
proof (intro conjI)
  show "stat_to_json path st (length path + 256) = meta_payload path st"
    using length_meta_payload [OF assms(1), of path] by (simp add: stat_to_json_def snprintf_def)
  define m where "m = (case json_escape_string msg 1024 of Some x \<Rightarrow> x | None \<Rightarrow> ''internal error'')"
  have m: "json_escape_string msg 1024 = Some m \<or> m = ''internal error''" by (auto simp: m_def split: option.splits)
  then have "length m < 1024" using json_codec.enc_fits [of msg 1024 m] by auto
  then have "length (error_payload e m) < 1400" by (rule length_error_payload [OF assms(2,3)])
  then have "send_error_json e msg = send_ok (error_payload e m)"
    by (simp add: send_error_json_def send_ok_def snprintf_def m_def [symmetric])
  with m show "\<exists>m. send_error_json e msg = send_ok (error_payload e m) \<and> (json_escape_string msg 1024 = Some m \<or> m = ''internal error'')"
    by blast
  have status: "LONG_MIN \<le> status" "status \<le> LONG_MAX" using assms(4,5) by (simp_all add: LONG_MIN_def LONG_MAX_def)
  show "snd (snprintf 256 (http_header_json status (length body mod 2 ^ 64))) < 256"
    using length_http_header_json [OF status] by (simp add: snprintf_def)
  show "send_json status body = http_header_json status (length body mod 2 ^ 64) @ body" by (rule send_json_full [OF status])
  show "snd (snprintf 256 (http_header_binary md5 (length body mod 2 ^ 64))) < 256"
    using length_http_header_binary [OF assms(6)] by (simp add: snprintf_def)
  show "send_binary body md5 = http_header_binary md5 (length body mod 2 ^ 64) @ body" by (rule send_binary_full [OF assms(6)])
qed

theorem replies_complete_witness:
  "stat_to_json ''/a'' \<lparr>st_mode = 0x41ED, st_size = 4096, st_uid = 0, st_gid = 0, st_nlink = 2, st_atime = 1, st_mtime = 2, st_ctime = 3\<rparr>
     (length ''/a'' + 256)
   = meta_payload ''/a'' \<lparr>st_mode = 0x41ED, st_size = 4096, st_uid = 0, st_gid = 0, st_nlink = 2, st_atime = 1, st_mtime = 2, st_ctime = 3\<rparr> \<and>
   send_binary ''data'' (replicate 32 CHR ''0'') = http_header_binary (replicate 32 CHR ''0'') 4 @ ''data''"
  using replies_complete [of "\<lparr>st_mode = 0x41ED, st_size = 4096, st_uid = 0, st_gid = 0, st_nlink = 2, st_atime = 1, st_mtime = 2, st_ctime = 3\<rparr>"
      2 200 "replicate 32 CHR ''0''" "''/a''" "''no''" "''data''"] by (simp add: stat_ok_def LONG_MIN_def LONG_MAX_def)

end
