(* ===== verification/Client_Http.thy ===== *)
theory Client_Http
  imports Client_Json Hash_Utils Server_Text
begin

text \<open>
  The requests of the client, \<open>src/http_client.c\<close>: the base URL, the callbacks that collect a response,
  \<open>http_request_ex\<close> and the public operations of \<open>include/http_client.h\<close>. libcurl is not part of the
  repository: it is the parameter \<open>'w runtime\<close> of the definitions, over a world \<open>'w\<close> that stands for the
  network and the peer. Memory allocation is taken to succeed.
\<close>

subsection \<open>libcurl and the state of a client\<close>

text \<open>
  A request as it is configured with \<open>curl_easy_setopt\<close>; the body is the one of \<open>CURLOPT_POSTFIELDS\<close>, and
  \<open>None\<close> for a GET request.
\<close>

record request =
  rq_url :: string
  rq_timeout_ms :: int
  rq_verbose :: bool
  rq_headers :: "string list"
  rq_body :: "bytes option"

text \<open>
  A transfer either ends with an error text, or calls the header callback once per header line and the
  write callback once per piece of the body and gives a status code.
\<close>

datatype transfer = CurlError string | Transferred int "string list" "bytes list"

text \<open>
  libcurl, and what a local array of tokens holds before it is written: the token at each index.
\<close>

record 'w runtime =
  curl_easy_init :: "'w \<Rightarrow> bool \<times> 'w"
  curl_easy_escape :: "string \<Rightarrow> string option"
  curl_easy_perform :: "request \<Rightarrow> 'w \<Rightarrow> transfer \<times> 'w"
  stack :: "nat \<Rightarrow> jsmntok"

definition local_tokens :: "'w runtime \<Rightarrow> nat \<Rightarrow> jsmntok list" where
  "local_tokens rt n = map (stack rt) [0..<n]"

record httpfs_client =
  base_url :: string
  timeout_ms :: int
  verbose :: bool

record response_metadata =
  content_type :: string
  content_md5 :: string

subsection \<open>The base URL\<close>

definition strip_slashes :: "string \<Rightarrow> string" where
  "strip_slashes s = rev (dropWhile (\<lambda>c. c = CHR ''/'') (rev s))"

definition normalize_base_url :: "nat \<Rightarrow> string option \<Rightarrow> string" where
  "normalize_base_url output_size url =
     (case url of
        None \<Rightarrow> []
      | Some u \<Rightarrow>
          (let s = strip_slashes (fst (snprintf output_size u));
               s' = (if length s \<ge> 3 \<and> drop (length s - 3) s = ''/v1'' then take (length s - 3) s else s)
           in strip_slashes s'))"

definition httpfs_client_init :: "string option \<Rightarrow> int \<Rightarrow> httpfs_client" where
  "httpfs_client_init url timeout =
     \<lparr>base_url = normalize_base_url 512 url, timeout_ms = timeout, verbose = False\<rparr>"

definition httpfs_client_set_verbose :: "httpfs_client \<Rightarrow> bool \<Rightarrow> httpfs_client" where
  "httpfs_client_set_verbose client v = client\<lparr>verbose := v\<rparr>"

subsection \<open>Callbacks\<close>

definition write_callback :: "bytes \<Rightarrow> bytes \<Rightarrow> bytes" where
  "write_callback contents buffer = buffer @ contents"

text \<open>
  The value of a header line behind its name, cut to a buffer of \<open>n\<close> bytes and read as a C string. The loop that
  skips blanks does not look at the length of the line: \<open>None\<close> when it runs over the end.
\<close>

definition header_text :: "nat \<Rightarrow> string \<Rightarrow> string option" where
  "header_text n line =
     (let v = dropWhile (\<lambda>c. c = CHR '' '' \<or> c = CHR 0x09) line
      in if v = [] then None
         else Some (c_str (take (n - 1)
                (rev (dropWhile (\<lambda>c. c = CHR 0x0D \<or> c = CHR 0x0A \<or> c = CHR '' '' \<or> c = CHR 0x09) (rev v))))))"

definition header_callback :: "string \<Rightarrow> response_metadata \<Rightarrow> response_metadata option" where
  "header_callback header metadata =
     (if length header > length ''Content-Type:'' \<and> strncaseeq header ''Content-Type:'' (length ''Content-Type:'')
      then map_option (\<lambda>v. metadata\<lparr>content_type := v\<rparr>) (header_text 128 (drop (length ''Content-Type:'') header))
      else if length header \<le> length ''X-HTTPFS-Content-MD5:'' \<or>
              \<not> strncaseeq header ''X-HTTPFS-Content-MD5:'' (length ''X-HTTPFS-Content-MD5:'')
      then Some metadata
      else map_option (\<lambda>v. metadata\<lparr>content_md5 := v\<rparr>)
             (header_text 33 (drop (length ''X-HTTPFS-Content-MD5:'') header)))"

fun header_callbacks :: "string list \<Rightarrow> response_metadata \<Rightarrow> response_metadata option" where
  "header_callbacks [] metadata = Some metadata"
| "header_callbacks (h # hs) metadata = Option.bind (header_callback h metadata) (header_callbacks hs)"

definition is_content_type_json :: "string \<Rightarrow> bool" where
  "is_content_type_json ct \<longleftrightarrow> strncaseeq ct ''application/json'' (length ''application/json'')"

definition is_content_type_octet_stream :: "string \<Rightarrow> bool" where
  "is_content_type_octet_stream ct \<longleftrightarrow>
     strncaseeq ct ''application/octet-stream'' (length ''application/octet-stream'')"

subsection \<open>One request\<close>

text \<open>The result: the status code, the bytes of the body and the metadata.\<close>

definition request_headers :: "string option \<Rightarrow> string option \<Rightarrow> string list outcome" where
  "request_headers ct md5 =
     (let ct_header = (case ct of None \<Rightarrow> [] | Some c \<Rightarrow> [''Content-Type: '' @ c]);
          md5_header = (case md5 of None \<Rightarrow> [] | Some m \<Rightarrow> [''X-HTTPFS-Content-MD5: '' @ m])
      in if \<exists>h \<in> set ct_header. length h \<ge> 128 then Fail (set_error EINVAL ''Content-Type header is too long'')
         else if \<exists>h \<in> set md5_header. length h \<ge> 128 then Fail (set_error EINVAL ''Content MD5 header is too long'')
         else Ret (ct_header @ md5_header @ [''Expect:'']))"

definition http_request_ex ::
  "'w runtime \<Rightarrow> httpfs_client \<Rightarrow> string \<Rightarrow> string \<Rightarrow> bytes \<Rightarrow> string option \<Rightarrow> string option \<Rightarrow> 'w \<Rightarrow>
   (int \<times> bytes \<times> response_metadata) outcome \<times> 'w" where
  "http_request_ex rt client meth endpoint body ct md5 w =
     (let url = base_url client @ endpoint
      in if length url \<ge> 1024 then (Fail (set_error ENAMETOOLONG ''Request URL is too long''), w)
         else
           (let (ok, w) = curl_easy_init rt w
            in if \<not> ok then (Fail (set_error EIO ''Failed to initialize curl''), w)
               else
                 (case (if meth = ''POST'' then request_headers ct md5 else Ret []) of
                    Crash \<Rightarrow> (Crash, w)
                  | Fail e \<Rightarrow> (Fail e, w)
                  | Ret headers \<Rightarrow>
                      (let (result, w) = curl_easy_perform rt
                             \<lparr>rq_url = url, rq_timeout_ms = timeout_ms client, rq_verbose = verbose client,
                              rq_headers = headers, rq_body = (if meth = ''POST'' then Some body else None)\<rparr> w
                       in case result of
                            CurlError m \<Rightarrow> (Fail (set_error EIO m), w)
                          | Transferred status_code hs chunks \<Rightarrow>
                              (case header_callbacks hs \<lparr>content_type = [], content_md5 = []\<rparr> of
                                 None \<Rightarrow> (Crash, w)
                               | Some metadata \<Rightarrow> (Ret (status_code, fold write_callback chunks [], metadata), w))))))"

text \<open>\<open>http_request\<close> drops the size and the metadata: its callers read the body as a C string.\<close>

definition http_request ::
  "'w runtime \<Rightarrow> httpfs_client \<Rightarrow> string \<Rightarrow> string \<Rightarrow> bytes \<Rightarrow> string option \<Rightarrow> string option \<Rightarrow> 'w \<Rightarrow>
   (int \<times> string) outcome \<times> 'w" where
  "http_request rt client meth endpoint body ct md5 w =
     (let (r, w) = http_request_ex rt client meth endpoint body ct md5 w
      in (bind_outcome r (\<lambda>(status_code, response, metadata). Ret (status_code, c_str response)), w))"

subsection \<open>Endpoints\<close>

text \<open>The three builders differ only in what they print around the escaped path.\<close>

definition escaped_endpoint ::
  "'w runtime \<Rightarrow> string \<Rightarrow> (string \<Rightarrow> string) \<Rightarrow> nat \<Rightarrow> 'w \<Rightarrow> string option \<times> 'w" where
  "escaped_endpoint rt path print endpoint_size w =
     (let (ok, w) = curl_easy_init rt w
      in if \<not> ok then (None, w)
         else case curl_easy_escape rt path of
                None \<Rightarrow> (None, w)
              | Some escaped_path \<Rightarrow>
                  (let (endpoint, written) = snprintf endpoint_size (print escaped_path)
                   in (if written < endpoint_size then Some endpoint else None, w)))"

definition build_read_endpoint :: "'w runtime \<Rightarrow> string \<Rightarrow> int \<Rightarrow> nat \<Rightarrow> nat \<Rightarrow> 'w \<Rightarrow> string option \<times> 'w" where
  "build_read_endpoint rt path offset sz endpoint_size w =
     escaped_endpoint rt path
       (\<lambda>e. ''/v1/read?path='' @ e @ ''&offset='' @ show_int offset @ ''&size='' @ show_nat sz) endpoint_size w"

definition build_write_endpoint :: "'w runtime \<Rightarrow> string \<Rightarrow> int \<Rightarrow> nat \<Rightarrow> 'w \<Rightarrow> string option \<times> 'w" where
  "build_write_endpoint rt path offset endpoint_size w =
     escaped_endpoint rt path (\<lambda>e. ''/v1/write?path='' @ e @ ''&offset='' @ show_int offset) endpoint_size w"

definition build_simple_get_endpoint :: "'w runtime \<Rightarrow> string \<Rightarrow> string \<Rightarrow> nat \<Rightarrow> 'w \<Rightarrow> string option \<times> 'w" where
  "build_simple_get_endpoint rt endpoint_prefix path endpoint_size w =
     escaped_endpoint rt path (\<lambda>e. endpoint_prefix @ ''?path='' @ e) endpoint_size w"

subsection \<open>Properties\<close>

lemma strip_slashes_last: "strip_slashes s = [] \<or> last (strip_slashes s) \<noteq> CHR ''/''"
proof -
  let ?r = "dropWhile (\<lambda>c. c = CHR ''/'') (rev s)"
  have "hd ?r \<noteq> CHR ''/''" if "?r \<noteq> []" using hd_dropWhile [OF that] .
  then show ?thesis by (cases "?r = []") (auto simp: strip_slashes_def last_rev)
qed

lemma strip_slashes_id: "s = [] \<or> last s \<noteq> CHR ''/'' \<Longrightarrow> strip_slashes (s @ replicate n (CHR ''/'')) = s"
  by (cases s rule: rev_cases) (auto simp: strip_slashes_def dropWhile_append3)

text \<open>C30: the base URL is normalised. It never ends in a slash, and a URL with trailing slashes, with the version \<open>/v1\<close>, or with
  both gives the same base URL as without, so that the endpoints, which start with \<open>/v1\<close>, are formed correctly.\<close>

theorem base_url_normalized:
  assumes "u = [] \<or> last u \<noteq> CHR ''/''" "length u < 3 \<or> drop (length u - 3) u \<noteq> ''/v1''" "length u + m + n + 3 < 512"
  shows "base_url (httpfs_client_init (Some (u @ replicate m (CHR ''/''))) t) = u \<and>
    base_url (httpfs_client_init (Some (u @ ''/v1'' @ replicate n (CHR ''/''))) t) = u \<and>
    (\<forall>url. base_url (httpfs_client_init url t) = [] \<or> last (base_url (httpfs_client_init url t)) \<noteq> CHR ''/'')"
proof (intro conjI allI)
  have s: "strip_slashes u = u" using strip_slashes_id [OF assms(1), of 0] by simp
  show "base_url (httpfs_client_init (Some (u @ replicate m (CHR ''/''))) t) = u"
    using assms strip_slashes_id [OF assms(1), of m] s by (auto simp: httpfs_client_init_def normalize_base_url_def snprintf_def Let_def)
  have "strip_slashes ((u @ ''/v1'') @ replicate n (CHR ''/'')) = u @ ''/v1''" by (rule strip_slashes_id) simp
  then show "base_url (httpfs_client_init (Some (u @ ''/v1'' @ replicate n (CHR ''/''))) t) = u"
    using assms(3) s by (simp add: httpfs_client_init_def normalize_base_url_def snprintf_def Let_def)
  show "base_url (httpfs_client_init url t) = [] \<or> last (base_url (httpfs_client_init url t)) \<noteq> CHR ''/''" for url
    using strip_slashes_last by (simp add: httpfs_client_init_def normalize_base_url_def Let_def split: option.split)
qed

theorem base_url_normalized_witness:
  "base_url (httpfs_client_init (Some ''http://h:1///'') 5000) = ''http://h:1'' \<and>
   base_url (httpfs_client_init (Some ''http://h:1/v1/'') 5000) = ''http://h:1''"
  using base_url_normalized [of "''http://h:1''" 3 1 5000] by (simp add: numeral_3_eq_3)

end
