(* ===== verification/Client_Ops.thy ===== *)
theory Client_Ops
  imports Client_Http
begin

text \<open>
  The public operations of the client, \<open>httpfs_get_meta\<close> to \<open>httpfs_update_times\<close> of \<open>src/http_client.c\<close>. Each
  takes the runtime, the client and the world, and gives its outcome and the new world. The local token
  arrays have the sizes of the source (512, 1024, 256 and 128).
\<close>

subsection \<open>Metadata and directories\<close>

text \<open>The common part of the GET operations: build the endpoint, send the request, check the status code.\<close>

definition simple_get ::
  "'w runtime \<Rightarrow> httpfs_client \<Rightarrow> string \<Rightarrow> string \<Rightarrow> string \<Rightarrow> string \<Rightarrow> 'w \<Rightarrow> string outcome \<times> 'w" where
  "simple_get rt client endpoint_prefix path build_message status_message w =
     (case build_simple_get_endpoint rt endpoint_prefix path 1024 w of
        (None, w) \<Rightarrow> (Fail (set_error ENAMETOOLONG build_message), w)
      | (Some endpoint, w) \<Rightarrow>
          (let (r, w) = http_request rt client ''GET'' endpoint [] None None w
           in (bind_outcome r (\<lambda>(status_code, response).
                 if status_code \<noteq> 200 then Fail (set_error EIO status_message) else Ret response), w)))"

definition httpfs_get_meta ::
  "'w runtime \<Rightarrow> httpfs_client \<Rightarrow> string \<Rightarrow> 'w \<Rightarrow> httpfs_meta outcome \<times> 'w" where
  "httpfs_get_meta rt client path w =
     (let (r, w) = simple_get rt client ''/v1/meta'' path ''Failed to build meta request''
            ''Meta request returned a non-200 status'' w
      in (bind_outcome r (\<lambda>response.
            bind_outcome (parse_ok_response response (local_tokens rt 512)) (\<lambda>(token_count, tokens).
              case Option.bind (find_object_value response tokens token_count 0 ''meta'')
                     (parse_meta_object response tokens token_count) of
                None \<Rightarrow> Fail (set_error EIO ''Meta response is missing valid metadata'')
              | Some meta \<Rightarrow> Ret meta)), w))"

text \<open>
  The loop over the entries from token \<open>i\<close> on, with the entries \<open>used\<close> so far, the size \<open>max_entries\<close> of the
  caller's array and the end \<open>e\<close> of the array of entries.
\<close>

function list_loop ::
  "string \<Rightarrow> jsmntok list \<Rightarrow> nat \<Rightarrow> nat \<Rightarrow> int \<Rightarrow> nat \<Rightarrow> httpfs_dir_entry list \<Rightarrow> nat \<Rightarrow> httpfs_dir_entry list outcome" where
  "list_loop json tokens token_count entries_index e max_entries used i =
     (if i < token_count \<and> tok_start (tokens ! i) < e then
        if tok_parent (tokens ! i) \<noteq> int entries_index \<or> tok_type (tokens ! i) \<noteq> JSMN_OBJECT
        then list_loop json tokens token_count entries_index e max_entries used (i + 1)
        else if length used \<ge> max_entries then Fail (set_error ENOBUFS ''Directory entry buffer is too small'')
        else
          (case (find_object_value json tokens token_count i ''name'', find_object_value json tokens token_count i ''type'') of
             (Some name_index, Some type_index) \<Rightarrow>
               (case (token_to_string json (tokens ! name_index) 256, token_to_string json (tokens ! type_index) 8) of
                  (Some name, Some ty) \<Rightarrow>
                    list_loop json tokens token_count entries_index e max_entries
                      (used @ [\<lparr>entry_name = name, entry_type = ty\<rparr>]) (next_token_index tokens token_count i)
                | _ \<Rightarrow> Fail (set_error EIO ''Failed to parse directory entry''))
           | _ \<Rightarrow> Fail (set_error EIO ''Failed to parse directory entry''))
      else Ret used)"
  by pat_completeness auto
termination
proof (relation "measure (\<lambda>(json, tokens, count, ei, e, m, used, i). count - i)", goal_cases)
  case (3 json tokens count ei e m used i)
  then show ?case using next_token_index_gt [of i tokens count] by (auto intro: diff_less_mono2)
qed auto

declare list_loop.simps [simp del]

definition httpfs_list_dir ::
  "'w runtime \<Rightarrow> httpfs_client \<Rightarrow> string \<Rightarrow> nat \<Rightarrow> 'w \<Rightarrow> httpfs_dir_entry list outcome \<times> 'w" where
  "httpfs_list_dir rt client path max_entries w =
     (let (r, w) = simple_get rt client ''/v1/list'' path ''Failed to build list request''
            ''List request returned a non-200 status'' w
      in (bind_outcome r (\<lambda>response.
            bind_outcome (parse_ok_response response (local_tokens rt 1024)) (\<lambda>(token_count, tokens).
              case find_object_value response tokens token_count 0 ''entries'' of
                None \<Rightarrow> Fail (set_error EIO ''List response is missing the entries array'')
              | Some entries_index \<Rightarrow>
                  if tok_type (tokens ! entries_index) \<noteq> JSMN_ARRAY
                  then Fail (set_error EIO ''List response is missing the entries array'')
                  else list_loop response tokens token_count entries_index (tok_end (tokens ! entries_index)) max_entries
                         [] (entries_index + 1))), w))"

subsection \<open>Reading\<close>

definition HTTPFS_READ_CHUNK_SIZE :: nat where "HTTPFS_READ_CHUNK_SIZE = 1024 * 1024"
definition HTTPFS_WRITE_CHUNK_SIZE :: nat where "HTTPFS_WRITE_CHUNK_SIZE = 1024 * 1024"

text \<open>The checks of one read response, in their order; the result is the data to copy.\<close>

definition check_read_response ::
  "'w runtime \<Rightarrow> nat \<Rightarrow> int \<Rightarrow> int \<times> bytes \<times> response_metadata \<Rightarrow> bytes outcome" where
  "check_read_response rt chunk_size offset reply =
     (let (status_code, response, metadata) = reply
      in if status_code \<noteq> 200 then Fail (set_error EIO ''Read request returned a non-200 status'')
         else if is_content_type_json (content_type metadata) then
           bind_outcome (parse_error_response (c_str response) (local_tokens rt 256))
             (\<lambda>_. Fail (set_error EIO ''Read request returned an unexpected JSON success response''))
         else if \<not> is_content_type_octet_stream (content_type metadata)
           then Fail (set_error EIO ''Read response returned an unexpected Content-Type'')
         else if \<not> httpfs_is_valid_md5_hex (content_md5 metadata)
           then Fail (set_error EIO ''Read response is missing a valid content MD5'')
         else if length response > chunk_size
           then Fail (set_error EIO ''Read response exceeded the requested chunk size'')
         else (case httpfs_sparse_md5_hex (map byte_of response) offset of
                 None \<Rightarrow> Fail (set_error EIO ''Failed to compute read content MD5'')
               | Some expected_md5 \<Rightarrow>
                   if expected_md5 \<noteq> content_md5 metadata
                   then Fail (set_error EIO ''Read content MD5 verification failed'')
                   else Ret response))"

text \<open>\<open>data\<close> is what the buffer of the caller holds so far, \<open>total_read\<close> bytes.\<close>

function read_loop ::
  "'w runtime \<Rightarrow> httpfs_client \<Rightarrow> string \<Rightarrow> int \<Rightarrow> nat \<Rightarrow> bytes \<Rightarrow> 'w \<Rightarrow> bytes outcome \<times> 'w" where
  "read_loop rt client path offset sz data w =
     (if length data < sz then
        (let chunk_size = min (sz - length data) HTTPFS_READ_CHUNK_SIZE; off = offset + int (length data)
         in case build_read_endpoint rt path off chunk_size 1024 w of
              (None, w) \<Rightarrow> (Fail (set_error ENAMETOOLONG ''Failed to build read request''), w)
            | (Some endpoint, w) \<Rightarrow>
                (case http_request_ex rt client ''GET'' endpoint [] None None w of
                   (Ret reply, w) \<Rightarrow>
                     (case check_read_response rt chunk_size off reply of
                        Ret response \<Rightarrow>
                          if length response < chunk_size then (Ret (data @ response), w)
                          else read_loop rt client path offset sz (data @ response) w
                      | Fail e \<Rightarrow> (Fail e, w)
                      | Crash \<Rightarrow> (Crash, w))
                 | (Fail e, w) \<Rightarrow> (Fail e, w)
                 | (Crash, w) \<Rightarrow> (Crash, w)))
      else (Ret data, w))"
  by pat_completeness auto
termination
  by (relation "measure (\<lambda>(rt, client, path, offset, sz, data, w). sz - length data)")
    (auto simp: HTTPFS_READ_CHUNK_SIZE_def min_def split: if_splits)

declare read_loop.simps [simp del]

definition httpfs_read_file ::
  "'w runtime \<Rightarrow> httpfs_client \<Rightarrow> string \<Rightarrow> int \<Rightarrow> nat \<Rightarrow> 'w \<Rightarrow> bytes outcome \<times> 'w" where
  "httpfs_read_file rt client path offset sz w =
     (if sz = 0 then (Ret [], w) else read_loop rt client path offset sz [] w)"

subsection \<open>Writing\<close>

text \<open>The checks of one write response; the result is the number of bytes written.\<close>

definition check_written :: "nat \<Rightarrow> string \<Rightarrow> int \<Rightarrow> string option \<Rightarrow> nat outcome" where
  "check_written chunk_size expected_md5 server_bytes_written md5_text =
     (case md5_text of
        None \<Rightarrow> Fail (set_error EIO ''Write response is missing a valid content MD5'')
      | Some response_md5 \<Rightarrow>
          if \<not> httpfs_is_valid_md5_hex response_md5
          then Fail (set_error EIO ''Write response is missing a valid content MD5'')
          else if server_bytes_written < 0 \<or> nat server_bytes_written \<noteq> chunk_size
          then Fail (set_error EIO ''Write response returned an invalid bytes_written value'')
          else if expected_md5 \<noteq> response_md5
          then Fail (set_error EIO ''Write content MD5 verification failed'')
          else Ret (nat server_bytes_written))"

definition check_write_response ::
  "'w runtime \<Rightarrow> nat \<Rightarrow> string \<Rightarrow> int \<times> string \<Rightarrow> nat outcome" where
  "check_write_response rt chunk_size expected_md5 reply =
     (let (status_code, response) = reply
      in if status_code \<noteq> 200 then Fail (set_error EIO ''Write request returned a non-200 status'')
         else bind_outcome (parse_ok_response response (local_tokens rt 256)) (\<lambda>(token_count, tokens).
           case Option.bind (find_object_value response tokens token_count 0 ''bytes_written'') (long_field response tokens) of
             None \<Rightarrow> Fail (set_error EIO ''Write response is missing bytes_written'')
           | Some server_bytes_written \<Rightarrow>
               check_written chunk_size expected_md5 server_bytes_written
                 (Option.bind (find_object_value response tokens token_count 0 ''content_md5'')
                   (\<lambda>i. token_to_string response (tokens ! i) 33))))"

lemma bind_outcome_Ret: "bind_outcome r f = Ret y \<longleftrightarrow> (\<exists>x. r = Ret x \<and> f x = Ret y)"
  by (cases r) auto

lemma check_written_Ret: "check_written chunk_size md5 k t = Ret n \<Longrightarrow> n = chunk_size \<and> t = Some md5 \<and> k = int n"
  unfolding check_written_def by (simp split: option.split_asm if_split_asm)

lemma check_write_response_Ret: "check_write_response rt chunk_size md5 reply = Ret n \<Longrightarrow> n = chunk_size"
  unfolding check_write_response_def Let_def
  by (cases reply) (fastforce simp: bind_outcome_Ret split: if_split_asm option.split_asm dest: check_written_Ret)

text \<open>\<open>data\<close> is the buffer of the caller and \<open>total_written\<close> the number of bytes already sent.\<close>

function write_loop ::
  "'w runtime \<Rightarrow> httpfs_client \<Rightarrow> string \<Rightarrow> int \<Rightarrow> bytes \<Rightarrow> nat \<Rightarrow> 'w \<Rightarrow> nat outcome \<times> 'w" where
  "write_loop rt client path offset data total_written w =
     (if total_written < length data then
        (let chunk_size = min (length data - total_written) HTTPFS_WRITE_CHUNK_SIZE;
             chunk = take chunk_size (drop total_written data);
             off = offset + int total_written
         in case build_write_endpoint rt path off 1024 w of
              (None, w) \<Rightarrow> (Fail (set_error ENAMETOOLONG ''Failed to build write request''), w)
            | (Some endpoint, w) \<Rightarrow>
                (case httpfs_sparse_md5_hex (map byte_of chunk) off of
                   None \<Rightarrow> (Fail (set_error EIO ''Failed to compute write content MD5''), w)
                 | Some expected_md5 \<Rightarrow>
                     (case http_request rt client ''POST'' endpoint chunk (Some ''application/octet-stream'')
                             (Some expected_md5) w of
                        (Ret reply, w) \<Rightarrow>
                          (case check_write_response rt chunk_size expected_md5 reply of
                             Ret n \<Rightarrow> write_loop rt client path offset data (total_written + n) w
                           | Fail e \<Rightarrow> (Fail e, w)
                           | Crash \<Rightarrow> (Crash, w))
                      | (Fail e, w) \<Rightarrow> (Fail e, w)
                      | (Crash, w) \<Rightarrow> (Crash, w))))
      else (Ret total_written, w))"
  by pat_completeness auto
termination
  by (relation "measure (\<lambda>(rt, client, path, offset, data, total, w). length data - total)")
    (auto simp: HTTPFS_WRITE_CHUNK_SIZE_def dest!: check_write_response_Ret)

declare write_loop.simps [simp del]

definition httpfs_write_file ::
  "'w runtime \<Rightarrow> httpfs_client \<Rightarrow> string \<Rightarrow> int \<Rightarrow> bytes \<Rightarrow> 'w \<Rightarrow> nat outcome \<times> 'w" where
  "httpfs_write_file rt client path offset data w =
     (if data = [] then (Ret 0, w) else write_loop rt client path offset data 0 w)"

subsection \<open>Operations with a JSON body\<close>

text \<open>
  Sending a JSON body and reading a response that carries only a status. Every operation below ends with
  this sequence, with its own text for a status code other than 200.
\<close>

definition post_json ::
  "'w runtime \<Rightarrow> httpfs_client \<Rightarrow> string \<Rightarrow> string \<Rightarrow> string \<Rightarrow> 'w \<Rightarrow> unit outcome \<times> 'w" where
  "post_json rt client endpoint body status_message w =
     (let (r, w) = http_request rt client ''POST'' endpoint body (Some ''application/json; charset=utf-8'') None w
      in (bind_outcome r (\<lambda>(status_code, response).
            if status_code \<noteq> 200 then Fail (set_error EIO status_message)
            else bind_outcome (parse_ok_response response (local_tokens rt 128)) (\<lambda>_. Ret ())), w))"

text \<open>The bodies, before they are cut to the size of their buffer.\<close>

definition path_body :: "string \<Rightarrow> string" where
  "path_body escaped = ''{'' @ quoted ''path'' @ '':'' @ quoted escaped @ ''}''"

definition path_mode_body :: "string \<Rightarrow> int \<Rightarrow> string" where
  "path_mode_body escaped mode =
     ''{'' @ quoted ''path'' @ '':'' @ quoted escaped @ '','' @ quoted ''mode'' @ '':'' @ show_int mode @ ''}''"

definition rename_body :: "string \<Rightarrow> string \<Rightarrow> string" where
  "rename_body escaped_old escaped_new =
     ''{'' @ quoted ''old_path'' @ '':'' @ quoted escaped_old @ '','' @
     quoted ''new_path'' @ '':'' @ quoted escaped_new @ ''}''"

definition truncate_body :: "string \<Rightarrow> int \<Rightarrow> string" where
  "truncate_body escaped sz =
     ''{'' @ quoted ''path'' @ '':'' @ quoted escaped @ '','' @ quoted ''size'' @ '':'' @ show_int sz @ ''}''"

definition utimens_body :: "string \<Rightarrow> timespec \<Rightarrow> timespec \<Rightarrow> string" where
  "utimens_body escaped atime mtime =
     ''{'' @ quoted ''path'' @ '':'' @ quoted escaped @ '','' @
     quoted ''atime_sec'' @ '':'' @ show_int (tv_sec atime) @ '','' @
     quoted ''atime_nsec'' @ '':'' @ show_int (tv_nsec atime) @ '','' @
     quoted ''mtime_sec'' @ '':'' @ show_int (tv_sec mtime) @ '','' @
     quoted ''mtime_nsec'' @ '':'' @ show_int (tv_nsec mtime) @ ''}''"

definition post_path_only ::
  "'w runtime \<Rightarrow> httpfs_client \<Rightarrow> string \<Rightarrow> string \<Rightarrow> int \<Rightarrow> bool \<Rightarrow> 'w \<Rightarrow> unit outcome \<times> 'w" where
  "post_path_only rt client endpoint path mode with_mode w =
     (case json_escape_string path (HTTPFS_MAX_PATH * 2) of
        None \<Rightarrow> (Fail (set_error EINVAL ''Failed to escape request path''), w)
      | Some escaped_path \<Rightarrow>
          (let body = fst (snprintf (HTTPFS_MAX_PATH * 2 + 64)
                 (if with_mode then path_mode_body escaped_path mode else path_body escaped_path))
           in post_json rt client endpoint body ''Request returned a non-200 status'' w))"

definition httpfs_create_file :: "'w runtime \<Rightarrow> httpfs_client \<Rightarrow> string \<Rightarrow> u32 \<Rightarrow> 'w \<Rightarrow> unit outcome \<times> 'w" where
  "httpfs_create_file rt client path mode w = post_path_only rt client ''/v1/create-file'' path (uint mode) True w"

definition httpfs_create_dir :: "'w runtime \<Rightarrow> httpfs_client \<Rightarrow> string \<Rightarrow> u32 \<Rightarrow> 'w \<Rightarrow> unit outcome \<times> 'w" where
  "httpfs_create_dir rt client path mode w = post_path_only rt client ''/v1/create-dir'' path (uint mode) True w"

definition httpfs_remove_file :: "'w runtime \<Rightarrow> httpfs_client \<Rightarrow> string \<Rightarrow> 'w \<Rightarrow> unit outcome \<times> 'w" where
  "httpfs_remove_file rt client path w = post_path_only rt client ''/v1/remove-file'' path 0 False w"

definition httpfs_remove_dir :: "'w runtime \<Rightarrow> httpfs_client \<Rightarrow> string \<Rightarrow> 'w \<Rightarrow> unit outcome \<times> 'w" where
  "httpfs_remove_dir rt client path w = post_path_only rt client ''/v1/remove-dir'' path 0 False w"

definition httpfs_rename_path ::
  "'w runtime \<Rightarrow> httpfs_client \<Rightarrow> string \<Rightarrow> string \<Rightarrow> 'w \<Rightarrow> unit outcome \<times> 'w" where
  "httpfs_rename_path rt client old_path new_path w =
     (case (json_escape_string old_path (HTTPFS_MAX_PATH * 2), json_escape_string new_path (HTTPFS_MAX_PATH * 2)) of
        (Some escaped_old, Some escaped_new) \<Rightarrow>
          (let body = fst (snprintf (HTTPFS_MAX_PATH * 4 + 64) (rename_body escaped_old escaped_new))
           in post_json rt client ''/v1/rename'' body ''Rename request returned a non-200 status'' w)
      | _ \<Rightarrow> (Fail (set_error EINVAL ''Failed to escape rename request path''), w))"

definition httpfs_truncate_file ::
  "'w runtime \<Rightarrow> httpfs_client \<Rightarrow> string \<Rightarrow> int \<Rightarrow> 'w \<Rightarrow> unit outcome \<times> 'w" where
  "httpfs_truncate_file rt client path sz w =
     (case json_escape_string path (HTTPFS_MAX_PATH * 2) of
        None \<Rightarrow> (Fail (set_error EINVAL ''Failed to escape truncate request path''), w)
      | Some escaped_path \<Rightarrow>
          (let body = fst (snprintf (HTTPFS_MAX_PATH * 2 + 64) (truncate_body escaped_path sz))
           in post_json rt client ''/v1/truncate'' body ''Truncate request returned a non-200 status'' w))"

definition httpfs_update_times ::
  "'w runtime \<Rightarrow> httpfs_client \<Rightarrow> string \<Rightarrow> (timespec \<times> timespec) option \<Rightarrow> 'w \<Rightarrow> unit outcome \<times> 'w" where
  "httpfs_update_times rt client path tv w =
     (case tv of
        None \<Rightarrow> (Fail (set_error EINVAL ''Missing timespec array''), w)
      | Some (atime, mtime) \<Rightarrow>
          (case json_escape_string path (HTTPFS_MAX_PATH * 2) of
             None \<Rightarrow> (Fail (set_error EINVAL ''Failed to escape utimens request path''), w)
           | Some escaped_path \<Rightarrow>
               (let body = fst (snprintf (HTTPFS_MAX_PATH * 2 + 256) (utimens_body escaped_path atime mtime))
                in post_json rt client ''/v1/utimens'' body ''Utimens request returned a non-200 status'' w)))"

end
