(* ===== verification/Fuse_Ops.thy ===== *)
theory Fuse_Ops
  imports Client_Ops
begin

text \<open>
  The FUSE operations of \<open>src/httpfs_fuse.c\<close> over the client operations, in the FUSE 3 variant. libfuse
  itself is not modelled: \<open>fuse_get_context\<close> gives the client, and the \<open>filler\<close> of a directory listing is an
  argument. A result is \<open>None\<close> when the client operation crashes.
\<close>

text \<open>\<open>-(int) error.errno_value\<close> and \<open>(int) n\<close> at the width of \<open>int\<close>.\<close>

definition neg_errno :: "httpfs_error \<Rightarrow> int" where
  "neg_errno e = sint (- (word_of_int (errno_value e) :: 32 word))"

definition int_of_size :: "nat \<Rightarrow> int" where
  "int_of_size n = sint (word_of_nat n :: 32 word)"

definition fuse_result :: "('a \<Rightarrow> int \<times> 'b) \<Rightarrow> 'b \<Rightarrow> 'a outcome \<Rightarrow> (int \<times> 'b) option" where
  "fuse_result f dflt r =
     (case r of Ret x \<Rightarrow> Some (f x) | Fail e \<Rightarrow> Some (neg_errno e, dflt) | Crash \<Rightarrow> None)"

definition fuse_status :: "unit outcome \<Rightarrow> int option" where
  "fuse_status r = map_option fst (fuse_result (\<lambda>_. (0, ())) () r)"

definition zero_stat :: stat where
  "zero_stat = \<lparr>st_mode = 0, st_size = 0, st_uid = 0, st_gid = 0, st_nlink = 0, st_atime = 0, st_mtime = 0, st_ctime = 0\<rparr>"

definition stat_of_meta :: "httpfs_meta \<Rightarrow> stat" where
  "stat_of_meta meta =
     \<lparr>st_mode = m_mode meta, st_size = m_size meta, st_uid = m_uid meta, st_gid = m_gid meta, st_nlink = m_nlink meta,
      st_atime = m_atime meta, st_mtime = m_mtime meta, st_ctime = m_ctime meta\<rparr>"

definition httpfs_getattr_impl ::
  "'w runtime \<Rightarrow> httpfs_client \<Rightarrow> string \<Rightarrow> 'w \<Rightarrow> (int \<times> stat) option \<times> 'w" where
  "httpfs_getattr_impl rt client path w =
     (let (r, w) = httpfs_get_meta rt client path w
      in (fuse_result (\<lambda>meta. (0, stat_of_meta meta)) zero_stat r, w))"

text \<open>The loop over the entries; the flag of \<open>filler\<close> is a result other than 0.\<close>

fun fill_entries :: "('b \<Rightarrow> string \<Rightarrow> bool \<times> 'b) \<Rightarrow> httpfs_dir_entry list \<Rightarrow> 'b \<Rightarrow> int \<times> 'b" where
  "fill_entries filler [] buf = (0, buf)"
| "fill_entries filler (e # es) buf =
     (let (full, buf) = filler buf (entry_name e)
      in if full then (- ENOMEM, buf) else fill_entries filler es buf)"

definition httpfs_readdir_impl ::
  "'w runtime \<Rightarrow> httpfs_client \<Rightarrow> string \<Rightarrow> ('b \<Rightarrow> string \<Rightarrow> bool \<times> 'b) \<Rightarrow> 'b \<Rightarrow> 'w \<Rightarrow> (int \<times> 'b) option \<times> 'w" where
  "httpfs_readdir_impl rt client path filler buf w =
     (let (r, w) = httpfs_list_dir rt client path 512 w
      in (fuse_result (\<lambda>entries. fill_entries filler entries buf) buf r, w))"

definition httpfs_open :: "'w runtime \<Rightarrow> httpfs_client \<Rightarrow> string \<Rightarrow> 'w \<Rightarrow> int option \<times> 'w" where
  "httpfs_open rt client path w =
     (let (r, w) = httpfs_get_meta rt client path w in (fuse_status (bind_outcome r (\<lambda>_. Ret ())), w))"

text \<open>The buffer that was filled is returned beside the result.\<close>

definition httpfs_read ::
  "'w runtime \<Rightarrow> httpfs_client \<Rightarrow> string \<Rightarrow> nat \<Rightarrow> int \<Rightarrow> 'w \<Rightarrow> (int \<times> bytes) option \<times> 'w" where
  "httpfs_read rt client path sz offset w =
     (let (r, w) = httpfs_read_file rt client path offset sz w
      in (fuse_result (\<lambda>data. (int_of_size (length data), data)) [] r, w))"

definition httpfs_write ::
  "'w runtime \<Rightarrow> httpfs_client \<Rightarrow> string \<Rightarrow> bytes \<Rightarrow> int \<Rightarrow> 'w \<Rightarrow> int option \<times> 'w" where
  "httpfs_write rt client path data offset w =
     (let (r, w) = httpfs_write_file rt client path offset data w
      in (map_option fst (fuse_result (\<lambda>n. (int_of_size n, ())) () r), w))"

definition httpfs_create :: "'w runtime \<Rightarrow> httpfs_client \<Rightarrow> string \<Rightarrow> u32 \<Rightarrow> 'w \<Rightarrow> int option \<times> 'w" where
  "httpfs_create rt client path mode w = apfst fuse_status (httpfs_create_file rt client path mode w)"

definition httpfs_mkdir :: "'w runtime \<Rightarrow> httpfs_client \<Rightarrow> string \<Rightarrow> u32 \<Rightarrow> 'w \<Rightarrow> int option \<times> 'w" where
  "httpfs_mkdir rt client path mode w = apfst fuse_status (httpfs_create_dir rt client path mode w)"

definition httpfs_unlink :: "'w runtime \<Rightarrow> httpfs_client \<Rightarrow> string \<Rightarrow> 'w \<Rightarrow> int option \<times> 'w" where
  "httpfs_unlink rt client path w = apfst fuse_status (httpfs_remove_file rt client path w)"

definition httpfs_rmdir :: "'w runtime \<Rightarrow> httpfs_client \<Rightarrow> string \<Rightarrow> 'w \<Rightarrow> int option \<times> 'w" where
  "httpfs_rmdir rt client path w = apfst fuse_status (httpfs_remove_dir rt client path w)"

definition httpfs_rename_impl :: "'w runtime \<Rightarrow> httpfs_client \<Rightarrow> string \<Rightarrow> string \<Rightarrow> 'w \<Rightarrow> int option \<times> 'w" where
  "httpfs_rename_impl rt client from_path to_path w = apfst fuse_status (httpfs_rename_path rt client from_path to_path w)"

definition httpfs_truncate_impl :: "'w runtime \<Rightarrow> httpfs_client \<Rightarrow> string \<Rightarrow> int \<Rightarrow> 'w \<Rightarrow> int option \<times> 'w" where
  "httpfs_truncate_impl rt client path sz w = apfst fuse_status (httpfs_truncate_file rt client path sz w)"

definition httpfs_utimens_impl ::
  "'w runtime \<Rightarrow> httpfs_client \<Rightarrow> string \<Rightarrow> (timespec \<times> timespec) option \<Rightarrow> 'w \<Rightarrow> int option \<times> 'w" where
  "httpfs_utimens_impl rt client path tv w = apfst fuse_status (httpfs_update_times rt client path tv w)"

text \<open>The entry points of libfuse 3; the file information and the flags of \<open>readdir\<close> are ignored by the code.\<close>

definition httpfs_getattr :: "'w runtime \<Rightarrow> httpfs_client \<Rightarrow> string \<Rightarrow> 'w \<Rightarrow> (int \<times> stat) option \<times> 'w" where
  "httpfs_getattr rt client path w = httpfs_getattr_impl rt client path w"

definition httpfs_readdir ::
  "'w runtime \<Rightarrow> httpfs_client \<Rightarrow> string \<Rightarrow> ('b \<Rightarrow> string \<Rightarrow> bool \<times> 'b) \<Rightarrow> 'b \<Rightarrow> 'w \<Rightarrow> (int \<times> 'b) option \<times> 'w" where
  "httpfs_readdir rt client path filler buf w = httpfs_readdir_impl rt client path filler buf w"

definition httpfs_rename ::
  "'w runtime \<Rightarrow> httpfs_client \<Rightarrow> string \<Rightarrow> string \<Rightarrow> nat \<Rightarrow> 'w \<Rightarrow> int option \<times> 'w" where
  "httpfs_rename rt client from_path to_path flags w =
     (if flags \<noteq> 0 then (Some (- EINVAL), w) else httpfs_rename_impl rt client from_path to_path w)"

definition httpfs_truncate_op :: "'w runtime \<Rightarrow> httpfs_client \<Rightarrow> string \<Rightarrow> int \<Rightarrow> 'w \<Rightarrow> int option \<times> 'w" where
  "httpfs_truncate_op rt client path sz w = httpfs_truncate_impl rt client path sz w"

definition httpfs_utimens ::
  "'w runtime \<Rightarrow> httpfs_client \<Rightarrow> string \<Rightarrow> (timespec \<times> timespec) option \<Rightarrow> 'w \<Rightarrow> int option \<times> 'w" where
  "httpfs_utimens rt client path tv w = httpfs_utimens_impl rt client path tv w"

text \<open>
  The table of operations: one call of libfuse with the arguments of the operation, and what libfuse gets back.
  The buffer of \<open>readdir\<close> is the list of names handed to \<open>filler\<close>, which never reports that it is full.
\<close>

datatype fuse_call =
    FuseGetattr string | FuseReaddir string | FuseOpen string | FuseRead string nat int | FuseWrite string bytes int
  | FuseCreate string u32 | FuseMkdir string u32 | FuseUnlink string | FuseRmdir string | FuseRename string string nat
  | FuseTruncate string int | FuseUtimens string "(timespec \<times> timespec) option"

datatype fuse_answer = Answer int | AnswerStat int stat | AnswerNames int "string list" | AnswerData int bytes | Crashed

definition answer :: "('a \<Rightarrow> fuse_answer) \<Rightarrow> 'a option \<times> 'w \<Rightarrow> fuse_answer \<times> 'w" where
  "answer f = apfst (\<lambda>r. case r of None \<Rightarrow> Crashed | Some x \<Rightarrow> f x)"

definition httpfs_ops :: "'w runtime \<Rightarrow> httpfs_client \<Rightarrow> fuse_call \<Rightarrow> 'w \<Rightarrow> fuse_answer \<times> 'w" where
  "httpfs_ops rt client call w =
     (case call of
        FuseGetattr p \<Rightarrow> answer (\<lambda>(r, st). AnswerStat r st) (httpfs_getattr rt client p w)
      | FuseReaddir p \<Rightarrow> answer (\<lambda>(r, ns). AnswerNames r ns) (httpfs_readdir rt client p (\<lambda>ns n. (False, ns @ [n])) [] w)
      | FuseOpen p \<Rightarrow> answer Answer (httpfs_open rt client p w)
      | FuseRead p sz off \<Rightarrow> answer (\<lambda>(r, d). AnswerData r d) (httpfs_read rt client p sz off w)
      | FuseWrite p d off \<Rightarrow> answer Answer (httpfs_write rt client p d off w)
      | FuseCreate p m \<Rightarrow> answer Answer (httpfs_create rt client p m w)
      | FuseMkdir p m \<Rightarrow> answer Answer (httpfs_mkdir rt client p m w)
      | FuseUnlink p \<Rightarrow> answer Answer (httpfs_unlink rt client p w)
      | FuseRmdir p \<Rightarrow> answer Answer (httpfs_rmdir rt client p w)
      | FuseRename p q flags \<Rightarrow> answer Answer (httpfs_rename rt client p q flags w)
      | FuseTruncate p sz \<Rightarrow> answer Answer (httpfs_truncate_op rt client p sz w)
      | FuseUtimens p tv \<Rightarrow> answer Answer (httpfs_utimens rt client p tv w))"

text \<open>The client that \<open>httpfs_fuse_main\<close> hands to libfuse.\<close>

definition httpfs_fuse_client :: "string \<Rightarrow> httpfs_client" where
  "httpfs_fuse_client url = httpfs_client_init (Some url) 5000"

end
