(* ===== verification/Server_Conn.thy ===== *)
theory Server_Conn
  imports Server_Text
begin

text \<open>
  Collecting a request on a non-blocking socket: \<open>ensure_connection_capacity\<close>,
  \<open>connection_has_complete_request\<close>, \<open>add_client_to_worker\<close> and \<open>handle_client_event\<close> of
  \<open>demo/service_provider/c/httpfs_server.c\<close>. The buffer is the list of the bytes received so far; the byte behind them
  is the NUL that the code stores. The socket is the list of what \<open>recv\<close> still has to report, cut into pieces
  that fit the space it is given. \<open>alloc n\<close> tells whether \<open>realloc\<close> to \<open>n\<close> bytes succeeds.
\<close>

subsection \<open>Definitions\<close>

definition SERVER_INITIAL_REQUEST_BUFFER_SIZE :: nat where "SERVER_INITIAL_REQUEST_BUFFER_SIZE = 8192"
definition SERVER_MAX_REQUEST_SIZE :: nat where "SERVER_MAX_REQUEST_SIZE = 8 * 1024 * 1024"

record connection_state =
  c_data :: bytes
  c_capacity :: nat
  c_content_length :: int
  c_header_bytes :: nat

definition received :: "connection_state \<Rightarrow> nat" where
  "received conn = length (c_data conn)"

text \<open>The doubling loop; it would not end from capacity 0.\<close>

partial_function (option) grow_capacity :: "nat \<Rightarrow> nat \<Rightarrow> nat option" where
  "grow_capacity new_capacity required_size =
     (if new_capacity < required_size then
        if new_capacity \<ge> SERVER_MAX_REQUEST_SIZE div 2 then Some SERVER_MAX_REQUEST_SIZE
        else grow_capacity (new_capacity * 2) required_size
      else Some new_capacity)"

definition ensure_connection_capacity ::
  "(nat \<Rightarrow> bool) \<Rightarrow> connection_state \<Rightarrow> nat \<Rightarrow> (bool \<times> connection_state) option" where
  "ensure_connection_capacity alloc conn required_size =
     (if required_size \<le> c_capacity conn then Some (True, conn)
      else if required_size > SERVER_MAX_REQUEST_SIZE then Some (False, conn)
      else
        (case grow_capacity (if c_capacity conn > 0 then c_capacity conn else SERVER_INITIAL_REQUEST_BUFFER_SIZE) required_size of
           None \<Rightarrow> None
         | Some new_capacity \<Rightarrow>
             if new_capacity < required_size \<or> new_capacity > SERVER_MAX_REQUEST_SIZE then Some (False, conn)
             else if \<not> alloc new_capacity then Some (False, conn)
             else Some (True, conn\<lparr>c_capacity := new_capacity\<rparr>)))"

definition HEADER_END :: string where
  "HEADER_END = CRLF @ CRLF"

text \<open>The first part: the header is looked for until it was found; \<open>Inl\<close> is an early return.\<close>

definition parse_connection_header :: "connection_state \<Rightarrow> int \<times> connection_state + connection_state" where
  "parse_connection_header conn =
     (let buffer = c_str (c_data conn)
      in if c_header_bytes conn \<noteq> 0 then Inr conn
         else case strstr buffer HEADER_END of
                None \<Rightarrow> Inl (0, conn)
              | Some header_end \<Rightarrow>
                  (case strstr buffer ''Content-Length:'' of
                     None \<Rightarrow> Inr (conn\<lparr>c_header_bytes := header_end + 4, c_content_length := 0\<rparr>)
                   | Some i \<Rightarrow>
                       if i < header_end then
                         (let n = fst (strtol (drop (i + length ''Content-Length:'') buffer));
                              conn = conn\<lparr>c_header_bytes := header_end + 4, c_content_length := n\<rparr>
                          in if n < 0 then Inl (-1, conn) else Inr conn)
                       else Inr (conn\<lparr>c_header_bytes := header_end + 4, c_content_length := 0\<rparr>)))"

text \<open>The result is the return value \<open>1\<close>, \<open>0\<close>, \<open>-1\<close> or \<open>-2\<close>.\<close>

definition connection_has_complete_request ::
  "(nat \<Rightarrow> bool) \<Rightarrow> connection_state \<Rightarrow> (int \<times> connection_state) option" where
  "connection_has_complete_request alloc conn =
     (case parse_connection_header conn of
        Inl (r, conn) \<Rightarrow> Some (r, conn)
      | Inr conn \<Rightarrow>
          (let total_required = c_header_bytes conn + nat (c_content_length conn)
           in if total_required + 1 > SERVER_MAX_REQUEST_SIZE then Some (-2, conn)
              else case ensure_connection_capacity alloc conn (total_required + 1) of
                     None \<Rightarrow> None
                   | Some (ok, conn) \<Rightarrow>
                       if \<not> ok then Some (-2, conn)
                       else Some (if received conn \<ge> total_required then 1 else 0, conn)))"

datatype recv_event = RData bytes | RIntr | RAgain | RError

fun sock_recv :: "nat \<Rightarrow> recv_event list \<Rightarrow> recv_event \<times> recv_event list" where
  "sock_recv n [] = (RAgain, [])"
| "sock_recv n (RData d # s) = (if length d \<le> n then (RData d, s) else (RData (take n d), RData (drop n d) # s))"
| "sock_recv n (e # s) = (e, s)"

text \<open>
  What becomes of a connection: it stays open, it is closed after a reply was sent (\<open>[]\<close> when nothing is sent), its
  request is complete and handed to \<open>process_connection_request\<close>, or the code does not come back.
\<close>

datatype conn_result = Waiting connection_state | Closed bytes | Complete connection_state | Diverges

definition sock_weight :: "recv_event list \<Rightarrow> nat" where
  "sock_weight s = sum_list (map (\<lambda>e. case e of RData d \<Rightarrow> Suc (length d) | _ \<Rightarrow> 1) s)"

lemma sock_recv_weight:
  "sock_recv n s = (RData d, s') \<Longrightarrow> d \<noteq> [] \<Longrightarrow> sock_weight s' < sock_weight s"
  "sock_recv n s = (RIntr, s') \<Longrightarrow> sock_weight s' < sock_weight s"
  by (cases "(n, s)" rule: sock_recv.cases; auto simp: sock_weight_def split: if_splits)+

text \<open>The room for the next \<open>recv\<close>: the buffer grows when only the byte for the NUL is left.\<close>

definition make_room :: "(nat \<Rightarrow> bool) \<Rightarrow> connection_state \<Rightarrow> (bool \<times> connection_state) option" where
  "make_room alloc conn =
     (if c_capacity conn - received conn \<le> 1 then
        ensure_connection_capacity alloc conn
          (min (if c_capacity conn > 0 then c_capacity conn * 2 else SERVER_INITIAL_REQUEST_BUFFER_SIZE)
            SERVER_MAX_REQUEST_SIZE)
      else Some (True, conn))"

text \<open>\<open>hup\<close>: one of \<open>EPOLLERR\<close>, \<open>EPOLLHUP\<close>, \<open>EPOLLRDHUP\<close> is set; \<open>blocking\<close>: the \<open>fcntl\<close> call succeeds.\<close>

function handle_client_event ::
  "(nat \<Rightarrow> bool) \<Rightarrow> bool \<Rightarrow> bool \<Rightarrow> connection_state \<Rightarrow> recv_event list \<Rightarrow> conn_result \<times> recv_event list" where
  "handle_client_event alloc blocking hup conn sock =
     (if hup then (Closed [], sock)
      else
        (case make_room alloc conn of
           None \<Rightarrow> (Diverges, sock)
         | Some (False, conn) \<Rightarrow> (Closed (send_error_json ENOBUFS ''request too large''), sock)
         | Some (True, conn) \<Rightarrow>
             (case sock_recv (c_capacity conn - received conn - 1) sock of
                (RIntr, sock') \<Rightarrow> handle_client_event alloc blocking hup conn sock'
              | (RAgain, sock') \<Rightarrow> (Waiting conn, sock')
              | (RError, sock') \<Rightarrow> (Closed [], sock')
              | (RData d, sock') \<Rightarrow>
                  if d = [] then (Closed [], sock')
                  else
                    (case connection_has_complete_request alloc (conn\<lparr>c_data := c_data conn @ d\<rparr>) of
                       None \<Rightarrow> (Diverges, sock')
                     | Some (state, conn) \<Rightarrow>
                         if state = -2 then (Closed (send_error_json ENOBUFS ''request too large''), sock')
                         else if state < 0 then (Closed (send_error_json EINVAL ''invalid http request''), sock')
                         else if state > 0 then (if blocking then (Complete conn, sock') else (Closed [], sock'))
                         else handle_client_event alloc blocking hup conn sock'))))"
  by pat_completeness auto
termination
  by (relation "measure (\<lambda>(alloc, blocking, hup, conn, sock). sock_weight sock)")
    (auto dest: sock_recv_weight [OF sym])

declare handle_client_event.simps [simp del]

text \<open>\<open>add_client_to_worker\<close>: \<open>epoll_ok\<close> tells whether \<open>epoll_ctl\<close> succeeds.\<close>

definition new_connection :: connection_state where
  "new_connection = \<lparr>c_data = [], c_capacity = 0, c_content_length = -1, c_header_bytes = 0\<rparr>"

definition add_client_to_worker :: "(nat \<Rightarrow> bool) \<Rightarrow> bool \<Rightarrow> connection_state option" where
  "add_client_to_worker alloc epoll_ok =
     (case ensure_connection_capacity alloc new_connection SERVER_INITIAL_REQUEST_BUFFER_SIZE of
        Some (True, conn) \<Rightarrow> if epoll_ok then Some conn else None
      | _ \<Rightarrow> None)"

subsection \<open>Capacity\<close>

lemma grow_capacity_total:
  assumes "0 < cap" "req \<le> SERVER_MAX_REQUEST_SIZE" "cap \<le> SERVER_MAX_REQUEST_SIZE"
  shows "\<exists>c. grow_capacity cap req = Some c \<and> req \<le> c \<and> cap \<le> c \<and> c \<le> SERVER_MAX_REQUEST_SIZE"
  using assms
proof (induction "SERVER_MAX_REQUEST_SIZE - cap" arbitrary: cap rule: less_induct)
  case less
  show ?case
  proof (cases "cap < req \<and> cap < SERVER_MAX_REQUEST_SIZE div 2")
    case True
    then have "\<exists>c. grow_capacity (cap * 2) req = Some c \<and> req \<le> c \<and> cap * 2 \<le> c \<and> c \<le> SERVER_MAX_REQUEST_SIZE"
      using less(2,3) by (intro less(1)) auto
    with True show ?thesis by (subst grow_capacity.simps) auto
  next
    case False
    with less(2-) show ?thesis by (subst grow_capacity.simps) auto
  qed
qed

text \<open>What \<open>recv\<close> relies on: the bytes received and a NUL fit the buffer, which is never over the limit.\<close>

definition conn_inv :: "connection_state \<Rightarrow> bool" where
  "conn_inv conn \<longleftrightarrow> received conn < c_capacity conn \<and> c_capacity conn \<le> SERVER_MAX_REQUEST_SIZE"

lemma ensure_capacity_cases:
  assumes "c_capacity conn \<le> SERVER_MAX_REQUEST_SIZE"
  obtains (grown) cap where "ensure_connection_capacity alloc conn req = Some (True, conn\<lparr>c_capacity := cap\<rparr>)"
      "req \<le> cap" "c_capacity conn \<le> cap" "cap \<le> SERVER_MAX_REQUEST_SIZE" "req \<le> SERVER_MAX_REQUEST_SIZE"
  | (refused) "ensure_connection_capacity alloc conn req = Some (False, conn)"
      "req > SERVER_MAX_REQUEST_SIZE \<or> (\<exists>n \<le> SERVER_MAX_REQUEST_SIZE. \<not> alloc n)" "c_capacity conn < req"
proof -
  let ?c0 = "if c_capacity conn > 0 then c_capacity conn else SERVER_INITIAL_REQUEST_BUFFER_SIZE"
  have "0 < ?c0" "?c0 \<le> SERVER_MAX_REQUEST_SIZE"
    using assms by (auto simp: SERVER_INITIAL_REQUEST_BUFFER_SIZE_def SERVER_MAX_REQUEST_SIZE_def)
  show thesis
  proof (cases "c_capacity conn < req \<and> req \<le> SERVER_MAX_REQUEST_SIZE")
    case True
    then obtain c where "grow_capacity ?c0 req = Some c" "req \<le> c" "?c0 \<le> c" "c \<le> SERVER_MAX_REQUEST_SIZE"
      using grow_capacity_total [OF \<open>0 < ?c0\<close> _ \<open>?c0 \<le> SERVER_MAX_REQUEST_SIZE\<close>, of req] by auto
    then show ?thesis using True that
      by (cases "alloc c") (auto simp: ensure_connection_capacity_def split: if_splits)
  next
    case False
    then show ?thesis using that(1) [of "c_capacity conn"] that(2) assms
      by (auto simp: ensure_connection_capacity_def)
  qed
qed

subsection \<open>No byte is lost and none is written behind the buffer\<close>

definition sock_bytes :: "recv_event list \<Rightarrow> bytes" where
  "sock_bytes s = concat (map (\<lambda>e. case e of RData d \<Rightarrow> d | _ \<Rightarrow> []) s)"

lemma sock_recv_bytes:
  "sock_recv n s = (RData d, s') \<Longrightarrow> sock_bytes s = d @ sock_bytes s' \<and> length d \<le> n"
  "sock_recv n s = (RIntr, s') \<Longrightarrow> sock_bytes s' = sock_bytes s"
  "sock_recv n s = (RAgain, s') \<Longrightarrow> sock_bytes s' = sock_bytes s"
  by (cases "(n, s)" rule: sock_recv.cases; auto simp: sock_bytes_def split: if_splits)+

lemma received_update [simp]:
  "received (conn\<lparr>c_capacity := k\<rparr>) = received conn"
  "received (conn\<lparr>c_header_bytes := k\<rparr>) = received conn"
  "received (conn\<lparr>c_content_length := l\<rparr>) = received conn"
  by (simp_all add: received_def)

lemma parse_connection_header_Inr:
  "parse_connection_header conn = Inr conn' \<or> parse_connection_header conn = Inl (r, conn') \<Longrightarrow>
   \<exists>k l. conn' = conn\<lparr>c_header_bytes := k, c_content_length := l\<rparr>"
  unfolding parse_connection_header_def Let_def
  by (cases conn) (auto split: option.splits if_splits)

lemma has_complete_inv:
  assumes "conn_inv conn"
  shows "\<exists>r conn'. connection_has_complete_request alloc conn = Some (r, conn') \<and> conn_inv conn' \<and> c_data conn' = c_data conn"
proof (cases "parse_connection_header conn")
  case (Inl rc)
  obtain r c where rc: "rc = (r, c)" by fastforce
  with Inl assms have "conn_inv c" "c_data c = c_data conn" using parse_connection_header_Inr [of conn c r]
    by (auto simp: conn_inv_def received_def)
  with Inl rc show ?thesis by (simp add: connection_has_complete_request_def)
next
  case (Inr c)
  then have c: "conn_inv c" "c_data c = c_data conn" using assms parse_connection_header_Inr [of conn c]
    by (auto simp: conn_inv_def received_def)
  show ?thesis
  proof (rule ensure_capacity_cases [of c alloc "c_header_bytes c + nat (c_content_length c) + 1"])
    show "c_capacity c \<le> SERVER_MAX_REQUEST_SIZE" using c by (simp add: conn_inv_def)
  qed (use c Inr in \<open>auto simp: connection_has_complete_request_def conn_inv_def Let_def\<close>)
qed

text \<open>The buffer before a call of \<open>recv\<close>.\<close>

lemma make_room_inv:
  assumes "conn_inv conn"
  shows "\<exists>ok conn'. make_room alloc conn = Some (ok, conn') \<and> conn_inv conn' \<and> c_data conn' = c_data conn \<and>
      c_header_bytes conn' = c_header_bytes conn \<and> c_content_length conn' = c_content_length conn \<and>
      ((\<forall>n \<le> SERVER_MAX_REQUEST_SIZE. alloc n) \<longrightarrow> ok \<and>
        (received conn + 1 < SERVER_MAX_REQUEST_SIZE \<longrightarrow> received conn + 1 < c_capacity conn'))"
proof (cases "c_capacity conn - received conn \<le> 1")
  case True
  with assms have cap: "c_capacity conn = received conn + 1" "c_capacity conn \<le> SERVER_MAX_REQUEST_SIZE"
    by (auto simp: conn_inv_def)
  let ?req = "min (c_capacity conn * 2) SERVER_MAX_REQUEST_SIZE"
  have room: "make_room alloc conn = ensure_connection_capacity alloc conn ?req" using cap by (simp add: make_room_def)
  show ?thesis
  proof (rule ensure_capacity_cases [OF cap(2), of alloc ?req])
    fix c assume c: "ensure_connection_capacity alloc conn ?req = Some (True, conn\<lparr>c_capacity := c\<rparr>)" "?req \<le> c"
      "c_capacity conn \<le> c" "c \<le> SERVER_MAX_REQUEST_SIZE"
    have "received conn + 1 < SERVER_MAX_REQUEST_SIZE \<Longrightarrow> received conn + 1 < c" using c(2) cap by (simp add: min_def split: if_splits)
    then show ?thesis using room c cap by (auto simp: conn_inv_def)
  next
    assume r: "ensure_connection_capacity alloc conn ?req = Some (False, conn)"
      "?req > SERVER_MAX_REQUEST_SIZE \<or> (\<exists>n \<le> SERVER_MAX_REQUEST_SIZE. \<not> alloc n)"
    then show ?thesis using room assms by auto
  qed
next
  case False
  then show ?thesis using assms
    by (intro exI [of _ True] exI [of _ conn]) (auto simp: make_room_def conn_inv_def)
qed

lemma handle_client_event_inv:
  assumes "handle_client_event alloc blocking hup conn sock = (r, sock')" "conn_inv conn"
  shows "r \<noteq> Diverges \<and> (\<forall>c. r = Waiting c \<or> r = Complete c \<longrightarrow>
    conn_inv c \<and> c_data c @ sock_bytes sock' = c_data conn @ sock_bytes sock)"
  using assms
proof (induction alloc blocking hup conn sock rule: handle_client_event.induct)
  case (1 alloc blocking hup conn sock)
  show ?case
  proof (cases hup)
    case True
    with 1(3) show ?thesis by (subst (asm) handle_client_event.simps) auto
  next
    case False
    obtain ok c0 where c0: "make_room alloc conn = Some (ok, c0)" "conn_inv c0" "c_data c0 = c_data conn"
      using make_room_inv [OF 1(4), of alloc] by blast
    obtain e sock1 where e: "sock_recv (c_capacity c0 - received c0 - 1) sock = (e, sock1)" by fastforce
    note unf = 1(3) [unfolded handle_client_event.simps [of alloc blocking hup conn sock]]
    show ?thesis
    proof (cases ok)
      case False': False
      with unf c0 False show ?thesis by auto
    next
      case True
      then have okT: "ok = True" by simp
      show ?thesis
      proof (cases e)
        case RIntr
        have "handle_client_event alloc blocking hup c0 sock1 = (r, sock')" using unf c0 e False True RIntr by simp
        from "1.IH"(2) [OF False c0(1) refl okT e [symmetric] RIntr this c0(2)] show ?thesis
          using sock_recv_bytes(2) e RIntr c0(3) by auto
      next
        case (RData d)
        have d: "sock_bytes sock = d @ sock_bytes sock1" "length d \<le> c_capacity c0 - received c0 - 1"
          using sock_recv_bytes(1) e RData by auto
        define c1 where "c1 = c0\<lparr>c_data := c_data c0 @ d\<rparr>"
        have "conn_inv c1" using c0(2) d(2) by (auto simp: conn_inv_def c1_def received_def)
        then obtain st c2 where c2: "connection_has_complete_request alloc c1 = Some (st, c2)" "conn_inv c2" "c_data c2 = c_data c1"
          using has_complete_inv by blast
        have data: "c_data c2 @ sock_bytes sock1 = c_data conn @ sock_bytes sock" using c2(3) c0(3) d(1) by (simp add: c1_def)
        show ?thesis
        proof (cases "d \<noteq> [] \<and> st = 0")
          case st: True
          then have "handle_client_event alloc blocking hup c2 sock1 = (r, sock')"
            using unf c0 e False True RData c2(1) by (simp add: c1_def)
          from "1.IH"(1) [OF False c0(1) refl okT e [symmetric] RData _ c2(1) [unfolded c1_def] refl _ _ _ this c2(2)]
          show ?thesis using st data by simp
        next
          case st: False
          with unf c0 e False True RData c2 data show ?thesis
            by (auto simp: c1_def [unfolded c0(3), symmetric] split: if_splits)
        qed
      next
        case RAgain
        with unf c0 e False True show ?thesis using sock_recv_bytes(3) by auto
      next
        case RError
        with unf c0 e False True show ?thesis by auto
      qed
    qed
  qed
qed

subsection \<open>A request arrives in any segmentation\<close>

text \<open>
  The header text \<open>h\<close>, without the blank line that ends it, announces a body of \<open>len\<close> bytes: the blank line is the first
  one, and the first \<open>Content-Length:\<close> carries the number (or there is none and the body is empty).
\<close>

definition header_says :: "string \<Rightarrow> nat \<Rightarrow> bool" where
  "header_says h len \<longleftrightarrow> CHR 0x00 \<notin> set h \<and> strstr (h @ HEADER_END) HEADER_END = Some (length h) \<and>
     int len \<le> LONG_MAX \<and>
     (len = 0 \<and> strstr (h @ HEADER_END) ''Content-Length:'' = None \<or>
      (\<exists>a b. h = a @ ''Content-Length:'' @ '' '' @ show_nat len @ b \<and> (b = [] \<or> hd b = CHR 0x0D) \<and>
         strstr (a @ ''Content-Length:'') ''Content-Length:'' = Some (length a)))"

lemma strstr_first_ext:
  assumes "strstr (a @ p) p = Some (length a)"
  shows "strstr (a @ p @ r) p = Some (length a)"
proof (rule strstr_eqI)
  fix j assume j: "j < length a"
  show "\<not> prefix p (drop j (a @ p @ r))"
  proof
    assume "prefix p (drop j (a @ p @ r))"
    then have "p = take (length p) (drop j (a @ p @ r))" by (metis append_eq_conv_conj prefix_def)
    also have "\<dots> = take (length p) (drop j (a @ p))" using j by simp
    finally have "prefix p (drop j (a @ p))" by (metis take_is_prefix)
    then show False using strstr_Some_first [OF assms j] by simp
  qed
qed simp

lemma strstr_before_first:
  assumes "strstr (a @ p) p = Some (length a)" "prefix d (a @ p)" "length d < length (a @ p)" "p \<noteq> []"
  shows "strstr d p = None"
proof (rule ccontr)
  assume "strstr d p \<noteq> None"
  then obtain j where j: "strstr d p = Some j" by auto
  obtain e where e: "a @ p = d @ e" using assms(2) by (auto simp: prefix_def)
  from strstr_SomeD [OF j] have "j + length p \<le> length d" "prefix p (drop j d)" by auto
  then have "prefix p (drop j (a @ p))" unfolding e by (auto simp: prefix_def)
  moreover have "j < length a" using \<open>j + length p \<le> length d\<close> assms(3) by simp
  ultimately show False using strstr_Some_first [OF assms(1)] by blast
qed

lemma HEADER_END_props [simp]: "HEADER_END \<noteq> []" "length HEADER_END = 4" "CHR 0x00 \<notin> set HEADER_END"
  by (simp_all add: HEADER_END_def CRLF_def)

lemma c_str_append_left: "CHR 0x00 \<notin> set a \<Longrightarrow> c_str (a @ b) = a @ c_str b"
  by (auto simp: c_str_def takeWhile_append)

lemma strtol_blank_number:
  assumes "int n \<le> LONG_MAX" "r = [] \<or> \<not> is_digit (hd r)"
  shows "fst (strtol (CHR '' '' # show_nat n @ r)) = int n"
proof -
  have "strtol10 LONG_MIN LONG_MAX (show_int (int n) @ r) = (int n, length (show_int (int n)))"
    using assms by (intro strtol10_show_int) (auto simp: LONG_MIN_def)
  moreover have "fst (strtol10 lo hi (CHR '' '' # s)) = fst (strtol10 lo hi s)" for lo hi s
    by (simp add: strtol10_def Let_def is_space_def)
  ultimately show ?thesis by (simp add: strtol_def show_int_def)
qed

lemma parse_header_complete:
  assumes "header_says h len" "c_data conn = h @ HEADER_END @ body" "c_header_bytes conn = 0" "len = 0 \<longrightarrow> body = []"
  shows "parse_connection_header conn = Inr (conn\<lparr>c_header_bytes := length h + 4, c_content_length := int len\<rparr>)"
proof -
  have h: "CHR 0x00 \<notin> set h" "strstr (h @ HEADER_END) HEADER_END = Some (length h)" "int len \<le> LONG_MAX"
    using assms(1) by (auto simp: header_says_def)
  have buf: "c_str (c_data conn) = h @ HEADER_END @ c_str body"
    using h(1) c_str_append_left [of "h @ HEADER_END" body] by (simp add: assms(2))
  have he: "strstr (h @ HEADER_END @ c_str body) HEADER_END = Some (length h)" by (rule strstr_first_ext [OF h(2)])
  from assms(1) have "len = 0 \<and> strstr (h @ HEADER_END) ''Content-Length:'' = None \<or>
      (\<exists>a b. h = a @ ''Content-Length:'' @ '' '' @ show_nat len @ b \<and> (b = [] \<or> hd b = CHR 0x0D) \<and>
         strstr (a @ ''Content-Length:'') ''Content-Length:'' = Some (length a))"
    unfolding header_says_def by (elim conjE) assumption
  then show ?thesis
  proof (rule disjE)
    assume no: "len = 0 \<and> strstr (h @ HEADER_END) ''Content-Length:'' = None"
    then show ?thesis using buf he assms(3,4) by (simp add: parse_connection_header_def c_str_def)
  next
    assume "\<exists>a b. h = a @ ''Content-Length:'' @ '' '' @ show_nat len @ b \<and> (b = [] \<or> hd b = CHR 0x0D) \<and>
         strstr (a @ ''Content-Length:'') ''Content-Length:'' = Some (length a)"
    then obtain a b where *: "h = a @ ''Content-Length:'' @ '' '' @ show_nat len @ b \<and> (b = [] \<or> hd b = CHR 0x0D) \<and>
         strstr (a @ ''Content-Length:'') ''Content-Length:'' = Some (length a)" by (elim exE)
    note yes = * [THEN conjunct1] * [THEN conjunct2, THEN conjunct1] * [THEN conjunct2, THEN conjunct2]
    let ?r = "b @ HEADER_END @ c_str body"
    have "strstr (h @ HEADER_END @ c_str body) ''Content-Length:'' = Some (length a)"
      using strstr_first_ext [OF yes(3), of "'' '' @ show_nat len @ ?r"] by (simp add: yes(1))
    moreover have "drop (length a + length ''Content-Length:'') (h @ HEADER_END @ c_str body) = CHR '' '' # show_nat len @ ?r"
      by (simp add: yes(1))
    moreover have "fst (strtol (CHR '' '' # show_nat len @ ?r)) = int len"
      using yes(2) by (intro strtol_blank_number [OF h(3)]) (cases b; auto simp: HEADER_END_def CRLF_def is_digit_def)
    moreover have "length a < length h" by (simp add: yes(1))
    ultimately show ?thesis using buf he assms(3) by (simp add: parse_connection_header_def Let_def)
  qed
qed

lemma parse_header_partial:
  assumes "header_says h len" "prefix (c_data conn) (h @ HEADER_END)" "length (c_data conn) < length h + 4"
    and "c_header_bytes conn = 0"
  shows "parse_connection_header conn = Inl (0, conn)"
proof -
  have "CHR 0x00 \<notin> set (c_data conn)" using assms(1,2) HEADER_END_props(3) set_mono_prefix [OF assms(2)]
    by (auto simp: header_says_def)
  moreover have "strstr (c_data conn) HEADER_END = None"
    using assms by (intro strstr_before_first [of h]) (auto simp: header_says_def)
  ultimately show ?thesis using assms(4) by (simp add: parse_connection_header_def)
qed

text \<open>The states of a connection on the way to the request: a proper part of it has arrived.\<close>

definition on_the_way :: "string \<Rightarrow> bytes \<Rightarrow> connection_state \<Rightarrow> bool" where
  "on_the_way h body conn \<longleftrightarrow> conn_inv conn \<and> prefix (c_data conn) (h @ HEADER_END @ body) \<and>
     (c_header_bytes conn = 0 \<and> received conn < length h + 4 \<or>
      c_header_bytes conn = length h + 4 \<and> c_content_length conn = int (length body) \<and> length h + 4 \<le> received conn) \<and>
     received conn < length (h @ HEADER_END @ body)"

lemma has_complete_progress:
  assumes says: "header_says h (length body)" and len: "length (h @ HEADER_END @ body) < SERVER_MAX_REQUEST_SIZE"
    and alloc: "\<forall>n \<le> SERVER_MAX_REQUEST_SIZE. alloc n" and inv: "conn_inv conn"
    and pre: "prefix (c_data conn) (h @ HEADER_END @ body)"
    and st: "c_header_bytes conn = 0 \<or> c_header_bytes conn = length h + 4 \<and> c_content_length conn = int (length body) \<and> length h + 4 \<le> received conn"
  shows "\<exists>conn'. c_data conn' = c_data conn \<and>
    (if received conn = length (h @ HEADER_END @ body)
     then connection_has_complete_request alloc conn = Some (1, conn')
     else connection_has_complete_request alloc conn = Some (0, conn') \<and> on_the_way h body conn')"
proof (cases "c_header_bytes conn = 0 \<and> received conn < length h + 4")
  case True
  have "prefix (c_data conn) (h @ HEADER_END)"
    using pre True by (metis append.assoc length_append HEADER_END_props(2) less_or_eq_imp_le prefix_length_prefix prefixI received_def)
  then have "parse_connection_header conn = Inl (0, conn)"
    using True says by (intro parse_header_partial) (auto simp: received_def)
  then show ?thesis using True inv pre by (intro exI [of _ conn]) (auto simp: connection_has_complete_request_def on_the_way_def)
next
  case False
  have le: "length h + 4 \<le> received conn" using False st by auto
  then obtain r where r: "c_data conn = (h @ HEADER_END) @ r"
    using pre prefix_length_prefix [of "h @ HEADER_END" "h @ HEADER_END @ body" "c_data conn"]
    by (auto simp: received_def prefix_def)
  have rb: "prefix r body" using pre r by simp
  have "parse_connection_header conn = Inr (conn\<lparr>c_header_bytes := length h + 4, c_content_length := int (length body)\<rparr>)"
  proof (cases "c_header_bytes conn = 0")
    case True
    then show ?thesis using says r rb by (intro parse_header_complete [where body = r]) auto
  next
    case False
    with st show ?thesis by (cases conn) (auto simp: parse_connection_header_def)
  qed
  moreover define c where "c = conn\<lparr>c_header_bytes := length h + 4, c_content_length := int (length body)\<rparr>"
  ultimately have pc: "parse_connection_header conn = Inr c" by simp
  have "c_capacity c \<le> SERVER_MAX_REQUEST_SIZE" using inv by (simp add: c_def conn_inv_def)
  then obtain cap where cap: "ensure_connection_capacity alloc c (length h + 4 + length body + 1) = Some (True, c\<lparr>c_capacity := cap\<rparr>)"
      "c_capacity c \<le> cap" "cap \<le> SERVER_MAX_REQUEST_SIZE"
    by (rule ensure_capacity_cases [of c alloc "length h + 4 + length body + 1"]) (use len alloc in auto)
  have "received conn \<le> length (h @ HEADER_END @ body)" using prefix_length_le [OF pre] by (simp add: received_def)
  then show ?thesis
    using pc cap len inv pre le
    by (intro exI [of _ "c\<lparr>c_capacity := cap\<rparr>"])
      (auto simp: connection_has_complete_request_def Let_def c_def on_the_way_def conn_inv_def received_def)
qed

text \<open>
  The pieces in which the bytes arrive: calls may be interrupted in between, and the socket may have nothing to read for a while
  (\<open>agains\<close> counts how often).
\<close>

definition arrival :: "recv_event list \<Rightarrow> bool" where
  "arrival sock \<longleftrightarrow> (\<forall>e \<in> set sock. e = RIntr \<or> e = RAgain \<or> (\<exists>d. e = RData d \<and> d \<noteq> []))"

definition agains :: "recv_event list \<Rightarrow> nat" where
  "agains sock = length (filter (\<lambda>e. e = RAgain) sock)"

definition delivery :: "recv_event list \<Rightarrow> bool" where
  "delivery sock \<longleftrightarrow> (\<forall>e \<in> set sock. e = RIntr \<or> (\<exists>d. e = RData d \<and> d \<noteq> []))"

lemma delivery_arrival: "delivery sock \<Longrightarrow> arrival sock \<and> agains sock = 0"
  by (auto simp: delivery_def arrival_def agains_def filter_empty_conv)

lemma arrival_recv:
  assumes "arrival sock" "sock_bytes sock \<noteq> []" "0 < n"
  obtains sock' where "sock_recv n sock = (RIntr, sock')" "arrival sock'" "sock_bytes sock' = sock_bytes sock" "agains sock' = agains sock"
  | sock' where "sock_recv n sock = (RAgain, sock')" "arrival sock'" "sock_bytes sock' = sock_bytes sock" "agains sock = Suc (agains sock')"
  | d sock' where "sock_recv n sock = (RData d, sock')" "arrival sock'" "d \<noteq> []" "sock_bytes sock = d @ sock_bytes sock'" "agains sock' = agains sock"
proof -
  obtain e s where sock: "sock = e # s" using assms(2) by (cases sock) (auto simp: sock_bytes_def)
  then have s: "arrival s" and "e = RIntr \<or> e = RAgain \<or> (\<exists>d. e = RData d \<and> d \<noteq> [])" using assms(1) by (auto simp: arrival_def)
  then consider "e = RIntr" | "e = RAgain" | d where "e = RData d" "d \<noteq> []" by blast
  then show thesis
  proof cases
    case 1
    then show ?thesis using that(1) [of s] sock s by (simp add: sock_bytes_def agains_def)
  next
    case 2
    then show ?thesis using that(2) [of s] sock s by (simp add: sock_bytes_def agains_def)
  next
    case (3 d)
    show ?thesis
    proof (cases "length d \<le> n")
      case True
      then show ?thesis using that(3) [of d s] sock s 3 by (simp add: sock_bytes_def agains_def)
    next
      case False
      then show ?thesis using that(3) [of "take n d" "RData (drop n d) # s"] sock s 3 assms(3)
        by (simp add: sock_bytes_def arrival_def agains_def)
    qed
  qed
qed

text \<open>An event either completes the request or waits for the rest of it.\<close>

lemma request_progress:
  assumes says: "header_says h (length body)" and len: "length (h @ HEADER_END @ body) < SERVER_MAX_REQUEST_SIZE"
    and alloc: "\<forall>n \<le> SERVER_MAX_REQUEST_SIZE. alloc n"
    and "on_the_way h body conn" "arrival sock" "c_data conn @ sock_bytes sock = h @ HEADER_END @ body"
  shows "\<exists>c sock'. handle_client_event alloc True False conn sock = (Complete c, sock') \<and> c_data c = h @ HEADER_END @ body \<or>
    handle_client_event alloc True False conn sock = (Waiting c, sock') \<and> on_the_way h body c \<and> arrival sock' \<and>
      c_data c @ sock_bytes sock' = h @ HEADER_END @ body \<and> agains sock = Suc (agains sock')"
  using assms(4-6)
proof (induction "sock_weight sock" arbitrary: conn sock rule: less_induct)
  case less
  let ?req = "h @ HEADER_END @ body"
  have way: "conn_inv conn" "received conn < length ?req" using less(2) by (auto simp: on_the_way_def)
  obtain c0 where c0: "make_room alloc conn = Some (True, c0)" "conn_inv c0" "c_data c0 = c_data conn"
      "c_header_bytes c0 = c_header_bytes conn" "c_content_length c0 = c_content_length conn" "received conn + 1 < c_capacity c0"
    using make_room_inv [OF way(1), of alloc] alloc way(2) len by auto
  have rec: "received c0 = received conn" using c0(3) by (simp add: received_def)
  then have way0: "on_the_way h body c0" using less(2) c0 by (auto simp: on_the_way_def)
  have ne: "sock_bytes sock \<noteq> []" using less(4) way(2) by (auto simp: received_def)
  note unf = handle_client_event.simps [of alloc True False conn sock]
  from c0(6) have room: "0 < c_capacity c0 - received c0 - 1" using rec by simp
  show ?case
  proof (rule arrival_recv [OF less(3) ne room])
    fix sock' assume s: "sock_recv (c_capacity c0 - received c0 - 1) sock = (RIntr, sock')" "arrival sock'" "sock_bytes sock' = sock_bytes sock"
      "agains sock' = agains sock"
    from less(1) [OF sock_recv_weight(2) [OF s(1)] way0 s(2)] show ?thesis using less(4) c0 s by (simp add: unf)
  next
    fix sock' assume s: "sock_recv (c_capacity c0 - received c0 - 1) sock = (RAgain, sock')" "arrival sock'" "sock_bytes sock' = sock_bytes sock"
      "agains sock = Suc (agains sock')"
    then show ?thesis using less(4) c0 way0 by (simp add: unf)
  next
    fix d sock' assume s: "sock_recv (c_capacity c0 - received c0 - 1) sock = (RData d, sock')" "arrival sock'" "d \<noteq> []"
        "sock_bytes sock = d @ sock_bytes sock'" "agains sock' = agains sock"
    define c1 where "c1 = c0\<lparr>c_data := c_data c0 @ d\<rparr>"
    have "length d \<le> c_capacity c0 - received c0 - 1" using sock_recv_bytes(1) [OF s(1)] by simp
    then have "conn_inv c1" using c0(2) by (auto simp: c1_def conn_inv_def received_def)
    moreover have data: "c_data c1 @ sock_bytes sock' = ?req" using less(4) s(4) c0(3) by (simp add: c1_def)
    moreover have "received conn \<le> received c1" using c0(3) by (simp add: c1_def received_def)
    ultimately obtain c2 where c2: "c_data c2 = c_data c1"
      "if received c1 = length ?req then connection_has_complete_request alloc c1 = Some (1, c2)
       else connection_has_complete_request alloc c1 = Some (0, c2) \<and> on_the_way h body c2"
      using has_complete_progress [OF says len alloc, of c1] less(2) c0(4,5) prefixI [OF data [symmetric]]
      by (auto simp: on_the_way_def c1_def)
    show ?thesis
    proof (cases "received c1 = length ?req")
      case True
      then have "sock_bytes sock' = []" using arg_cong [OF data, of length] by (simp add: received_def)
      then have "c_data c1 = ?req" using data by simp
      then show ?thesis using c0 s c2 True by (simp add: unf c1_def [unfolded c0(3), symmetric])
    next
      case False
      then have "connection_has_complete_request alloc c1 = Some (0, c2)" "on_the_way h body c2" using c2(2) by auto
      with less(1) [OF sock_recv_weight(1) [OF s(1,3)] this(2) s(2)] c0(1) s c2(1) data show ?thesis
        by (simp add: unf c1_def [symmetric])
    qed
  qed
qed

lemma request_delivered:
  assumes "header_says h (length body)" "length (h @ HEADER_END @ body) < SERVER_MAX_REQUEST_SIZE"
    and "\<forall>n \<le> SERVER_MAX_REQUEST_SIZE. alloc n"
    and "on_the_way h body conn" "delivery sock" "c_data conn @ sock_bytes sock = h @ HEADER_END @ body"
  shows "\<exists>c sock'. handle_client_event alloc True False conn sock = (Complete c, sock') \<and> c_data c = h @ HEADER_END @ body"
  using request_progress [OF assms(1-4) _ assms(6)] delivery_arrival [OF assms(5)] by auto

text \<open>A new connection has an empty buffer of the initial size and is on the way to every request.\<close>

lemma new_connection_on_the_way:
  assumes "add_client_to_worker alloc epoll_ok = Some conn"
  shows "conn_inv conn" "c_data conn = []" "on_the_way h body conn"
proof -
  have "c_capacity new_connection \<le> SERVER_MAX_REQUEST_SIZE" by (simp add: new_connection_def)
  then obtain cap where "conn = new_connection\<lparr>c_capacity := cap\<rparr>" "SERVER_INITIAL_REQUEST_BUFFER_SIZE \<le> cap" "cap \<le> SERVER_MAX_REQUEST_SIZE"
    by (rule ensure_capacity_cases [where alloc = alloc and req = SERVER_INITIAL_REQUEST_BUFFER_SIZE])
      (use assms in \<open>auto simp: add_client_to_worker_def split: if_splits\<close>)
  then show "conn_inv conn" "c_data conn = []" "on_the_way h body conn"
    by (simp_all add: on_the_way_def conn_inv_def received_def new_connection_def SERVER_INITIAL_REQUEST_BUFFER_SIZE_def)
qed

subsection \<open>Properties\<close>

text \<open>C13: the request buffer is never overrun and no byte is lost. From a state in which the received bytes and the
  final NUL fit the buffer, \<open>handle_client_event\<close> comes back, a connection that stays open or is complete is
  again in such a state with a buffer of at most the maximal size, and its buffer followed by what the socket
  still holds is what the buffer and the socket held before.\<close>

theorem connection_buffer_safe:
  assumes "received conn < c_capacity conn" "c_capacity conn \<le> SERVER_MAX_REQUEST_SIZE"
    and "handle_client_event alloc blocking hup conn sock = (r, sock')"
  shows "r \<noteq> Diverges \<and> (\<forall>c. r = Waiting c \<or> r = Complete c \<longrightarrow>
    received c < c_capacity c \<and> c_capacity c \<le> SERVER_MAX_REQUEST_SIZE \<and>
    c_data c @ sock_bytes sock' = c_data conn @ sock_bytes sock)"
  using handle_client_event_inv [OF assms(3)] assms(1,2) by (simp add: conn_inv_def)

theorem connection_buffer_safe_witness:
  "fst (handle_client_event (\<lambda>_. True) True False \<lparr>c_data = [], c_capacity = 8192, c_content_length = -1, c_header_bytes = 0\<rparr> [])
     \<noteq> Diverges"
  using connection_buffer_safe [of "\<lparr>c_data = [], c_capacity = 8192, c_content_length = -1, c_header_bytes = 0\<rparr>" "\<lambda>_. True" True False "[]"
      "fst (handle_client_event (\<lambda>_. True) True False \<lparr>c_data = [], c_capacity = 8192, c_content_length = -1, c_header_bytes = 0\<rparr> [])"
      "snd (handle_client_event (\<lambda>_. True) True False \<lparr>c_data = [], c_capacity = 8192, c_content_length = -1, c_header_bytes = 0\<rparr> [])"]
  by (simp add: received_def SERVER_MAX_REQUEST_SIZE_def)

text \<open>C14: a request is recognised in every segmentation. When the header announces the length of the body, the request
  is shorter than the limit and memory is available, then the bytes may arrive in any non-empty pieces and with
  interrupted calls in between: the connection is handed over for processing exactly with the bytes of
  the request.\<close>

theorem request_any_segmentation:
  assumes "header_says h (length body)" "length (h @ HEADER_END @ body) < SERVER_MAX_REQUEST_SIZE"
    and "delivery sock" "sock_bytes sock = h @ HEADER_END @ body"
    and "add_client_to_worker (\<lambda>_. True) True = Some conn"
  shows "\<exists>c sock'. handle_client_event (\<lambda>_. True) True False conn sock = (Complete c, sock') \<and>
    c_data c = h @ HEADER_END @ body"
  using request_delivered [OF assms(1,2) _ new_connection_on_the_way(3) [OF assms(5)] assms(3)] new_connection_on_the_way(2) [OF assms(5)]
    assms(4) by simp

theorem request_any_segmentation_witness:
  "\<exists>conn c sock'. add_client_to_worker (\<lambda>_. True) True = Some conn \<and>
     handle_client_event (\<lambda>_. True) True False conn [RData ''GET /'', RIntr, RData ([CHR 0x0D, CHR 0x0A, CHR 0x0D, CHR 0x0A])]
       = (Complete c, sock') \<and> c_data c = ''GET /'' @ HEADER_END"
proof -
  have "\<exists>conn. add_client_to_worker (\<lambda>_. True) True = Some conn"
    by (rule ensure_capacity_cases [where conn = new_connection and alloc = "\<lambda>_. True" and req = SERVER_INITIAL_REQUEST_BUFFER_SIZE])
      (auto simp: add_client_to_worker_def new_connection_def SERVER_INITIAL_REQUEST_BUFFER_SIZE_def SERVER_MAX_REQUEST_SIZE_def)
  then obtain conn where conn: "add_client_to_worker (\<lambda>_. True) True = Some conn" by blast
  have "header_says ''GET /'' (length [])"
    by (simp add: header_says_def HEADER_END_def CRLF_def LONG_MAX_def)
  from request_any_segmentation [OF this _ _ _ conn, of "[RData ''GET /'', RIntr, RData ([CHR 0x0D, CHR 0x0A, CHR 0x0D, CHR 0x0A])]"]
  show ?thesis using conn
    by (auto simp: SERVER_MAX_REQUEST_SIZE_def delivery_def sock_bytes_def HEADER_END_def CRLF_def)
qed

text \<open>C39: a header that fills the largest buffer is dropped without an answer. At the maximal capacity
  \<open>ensure_connection_capacity\<close> succeeds without making room, \<open>recv\<close> is called for 0 bytes, and its result 0 is
  taken for the end of the connection; the answer \<open>request too large\<close> is not sent.\<close>

theorem oversized_header_closed_silently:
  assumes "c_capacity conn = SERVER_MAX_REQUEST_SIZE" "received conn + 1 = SERVER_MAX_REQUEST_SIZE"
  shows "handle_client_event alloc blocking False conn (RData (x # d) # sock) = (Closed [], RData (x # d) # sock)"
  using assms
  by (subst handle_client_event.simps) (simp add: make_room_def ensure_connection_capacity_def min_def SERVER_MAX_REQUEST_SIZE_def)

theorem oversized_header_closed_silently_witness:
  "handle_client_event (\<lambda>_. True) True False
     \<lparr>c_data = replicate (SERVER_MAX_REQUEST_SIZE - 1) (CHR ''a''), c_capacity = SERVER_MAX_REQUEST_SIZE, c_content_length = -1,
      c_header_bytes = 0\<rparr> [RData ''more''] = (Closed [], [RData ''more''])"
  by (rule oversized_header_closed_silently) (simp_all add: received_def SERVER_MAX_REQUEST_SIZE_def)

end
