(* ===== verification/Server_Handlers.thy ===== *)
theory Server_Handlers
  imports Server_Conn Hash_Utils "HOL-Library.Monad_Syntax"
begin

text \<open>
  The request handlers of \<open>demo/service_provider/c/httpfs_server.c\<close>, from \<open>pwrite_full\<close> to
  \<open>process_request_buffer\<close>. The system calls are the parameter \<open>'w kernel\<close> over a world \<open>'w\<close>; a failing call
  gives its \<open>errno\<close> as \<open>Inl\<close> (or \<open>Some\<close>), and the calls that release resources in between are taken not to change
  \<open>errno\<close>. A directory is read name by name, and \<open>readdir\<close> gives \<open>None\<close> at its end and on an error, which the code does
  not tell apart. A handler gives the bytes of its response and the new world; \<open>handle_write\<close> and \<open>handle_list\<close> may not come
  back when the kernel interrupts them or names entries for ever, which is \<open>None\<close>.
\<close>

subsection \<open>The kernel and the request\<close>

datatype open_mode = ReadOnly | ReadWrite | CreateExclusive u32

record 'w kernel =
  k_lstat :: "string \<Rightarrow> 'w \<Rightarrow> (int + stat) \<times> 'w"
  k_opendir :: "string \<Rightarrow> 'w \<Rightarrow> (int + int) \<times> 'w"
  k_readdir :: "int \<Rightarrow> 'w \<Rightarrow> string option \<times> 'w"
  k_closedir :: "int \<Rightarrow> 'w \<Rightarrow> 'w"
  k_open :: "string \<Rightarrow> open_mode \<Rightarrow> 'w \<Rightarrow> (int + int) \<times> 'w"
  k_close :: "int \<Rightarrow> 'w \<Rightarrow> 'w"
  k_pread :: "int \<Rightarrow> nat \<Rightarrow> int \<Rightarrow> 'w \<Rightarrow> (int + bytes) \<times> 'w"
  k_pwrite :: "int \<Rightarrow> bytes \<Rightarrow> int \<Rightarrow> 'w \<Rightarrow> (int + nat) \<times> 'w"
  k_mkdir :: "string \<Rightarrow> u32 \<Rightarrow> 'w \<Rightarrow> int option \<times> 'w"
  k_unlink :: "string \<Rightarrow> 'w \<Rightarrow> int option \<times> 'w"
  k_rmdir :: "string \<Rightarrow> 'w \<Rightarrow> int option \<times> 'w"
  k_rename :: "string \<Rightarrow> string \<Rightarrow> 'w \<Rightarrow> int option \<times> 'w"
  k_truncate :: "string \<Rightarrow> int \<Rightarrow> 'w \<Rightarrow> int option \<times> 'w"
  k_utimensat :: "string \<Rightarrow> timespec \<Rightarrow> timespec \<Rightarrow> 'w \<Rightarrow> int option \<times> 'w"
  k_strerror :: "int \<Rightarrow> string"
  k_malloc :: "nat \<Rightarrow> bool"

record request_context =
  rc_method :: string
  rc_path :: string
  rc_query :: string
  rc_content_md5 :: string
  rc_body :: bytes
  rc_root_dir :: string

definition send_errno :: "'w kernel \<Rightarrow> int \<Rightarrow> bytes" where
  "send_errno k e = send_error_json e (k_strerror k e)"

definition ok_payload :: string where
  "ok_payload = ''{'' @ quoted ''status'' @ '':'' @ quoted ''ok'' @ ''}''"

subsection \<open>Complete reads and writes\<close>

partial_function (option) pwrite_full ::
  "'w kernel \<Rightarrow> int \<Rightarrow> bytes \<Rightarrow> int \<Rightarrow> nat \<Rightarrow> 'w \<Rightarrow> ((int + nat) \<times> 'w) option" where
  "pwrite_full k fd data offset total_written w =
     (if total_written < length data then
        (case k_pwrite k fd (drop total_written data) (offset + int total_written) w of
           (Inl e, w) \<Rightarrow> if e = EINTR then pwrite_full k fd data offset total_written w else Some (Inl e, w)
         | (Inr written, w) \<Rightarrow>
             if written = 0 then Some (Inr total_written, w)
             else pwrite_full k fd data offset (total_written + written) w)
      else Some (Inr total_written, w))"

text \<open>\<open>data\<close> is what the buffer holds so far.\<close>

partial_function (option) pread_full ::
  "'w kernel \<Rightarrow> int \<Rightarrow> nat \<Rightarrow> int \<Rightarrow> bytes \<Rightarrow> 'w \<Rightarrow> ((int + bytes) \<times> 'w) option" where
  "pread_full k fd len offset data w =
     (if length data < len then
        (case k_pread k fd (len - length data) (offset + int (length data)) w of
           (Inl e, w) \<Rightarrow> if e = EINTR then pread_full k fd len offset data w else Some (Inl e, w)
         | (Inr bytes_read, w) \<Rightarrow>
             if bytes_read = [] then Some (Inr data, w)
             else pread_full k fd len offset (data @ bytes_read) w)
      else Some (Inr data, w))"

subsection \<open>GET requests\<close>

definition handle_meta :: "'w kernel \<Rightarrow> request_context \<Rightarrow> 'w \<Rightarrow> bytes \<times> 'w" where
  "handle_meta k ctx w =
     (case query_value (rc_query ctx) ''path'' 2048 of
        None \<Rightarrow> (send_error_json EINVAL ''invalid path'', w)
      | Some path \<Rightarrow>
          (case resolve_path (rc_root_dir ctx) path 4096 of
             None \<Rightarrow> (send_error_json EINVAL ''invalid path'', w)
           | Some local_path \<Rightarrow>
               (case k_lstat k local_path w of
                  (Inl e, w) \<Rightarrow> (send_errno k e, w)
                | (Inr st, w) \<Rightarrow>
                    (let payload_size = length path + 256
                     in if \<not> k_malloc k payload_size then (send_error_json ENOMEM ''memory allocation failed'', w)
                        else (send_ok (stat_to_json path st payload_size), w)))))"

definition SERVER_LIST_PAYLOAD_SIZE :: nat where "SERVER_LIST_PAYLOAD_SIZE = 262144"

text \<open>\<open>pos += snprintf(payload + pos, sizeof(payload) - pos, ...)\<close> on the text of the payload and \<open>pos\<close>.\<close>

definition append_payload :: "string \<times> nat \<Rightarrow> string \<Rightarrow> string \<times> nat" where
  "append_payload pp text =
     (let (payload, pos) = pp
      in (take pos payload @ fst (snprintf (SERVER_LIST_PAYLOAD_SIZE - pos) text), pos + length text))"

definition list_entry :: "bool \<Rightarrow> string \<Rightarrow> string \<Rightarrow> string" where
  "list_entry is_first escaped ty =
     (if is_first then [] else '','') @ ''{'' @ quoted ''name'' @ '':'' @ quoted escaped @ '','' @
     quoted ''type'' @ '':'' @ quoted ty @ ''}''"

definition list_type :: "int + stat \<Rightarrow> string" where
  "list_type r = (case r of Inr st \<Rightarrow> if S_ISDIR (st_mode st) then ''dir'' else ''file'' | Inl _ \<Rightarrow> ''file'')"

text \<open>The loop over the open directory \<open>dir\<close>; \<open>Inl\<close> is the error that ends it, with the directory closed.\<close>

partial_function (option) list_entries ::
  "'w kernel \<Rightarrow> string \<Rightarrow> int \<Rightarrow> string \<times> nat \<Rightarrow> bool \<Rightarrow> 'w \<Rightarrow> ((bytes + string \<times> nat) \<times> 'w) option" where
  "list_entries k local_path dir pp is_first w =
     (case k_readdir k dir w of
        (None, w) \<Rightarrow> Some (Inr pp, w)
      | (Some d_name, w) \<Rightarrow>
          (let entry_path = local_path @ ''/'' @ d_name
           in if length entry_path \<ge> 4096
              then Some (Inl (send_error_json ENAMETOOLONG ''entry path too long''), k_closedir k dir w)
              else
                (case k_lstat k entry_path w of
                   (r, w) \<Rightarrow>
                     (case json_escape_string d_name 512 of
                        None \<Rightarrow> Some (Inl (send_error_json EIO ''entry name escape failed''), k_closedir k dir w)
                      | Some escaped \<Rightarrow>
                          (let pp = append_payload pp (list_entry is_first escaped (list_type r))
                           in if snd pp + 64 \<ge> SERVER_LIST_PAYLOAD_SIZE
                              then Some (Inl (send_error_json ENOBUFS ''too many entries''), k_closedir k dir w)
                              else list_entries k local_path dir pp False w)))))"

definition list_head :: string where
  "list_head = ''{'' @ quoted ''status'' @ '':'' @ quoted ''ok'' @ '','' @ quoted ''entries'' @ '':[''"

definition handle_list :: "'w kernel \<Rightarrow> request_context \<Rightarrow> 'w \<Rightarrow> (bytes \<times> 'w) option" where
  "handle_list k ctx w =
     (case query_value (rc_query ctx) ''path'' 2048 \<bind> (\<lambda>path. resolve_path (rc_root_dir ctx) path 4096) of
        None \<Rightarrow> Some (send_error_json EINVAL ''invalid path'', w)
      | Some local_path \<Rightarrow>
          (case k_opendir k local_path w of
             (Inl e, w) \<Rightarrow> Some (send_errno k e, w)
           | (Inr dir, w) \<Rightarrow>
               (case list_entries k local_path dir (append_payload ([], 0) list_head) True w of
                  None \<Rightarrow> None
                | Some (Inl reply, w) \<Rightarrow> Some (reply, w)
                | Some (Inr pp, w) \<Rightarrow>
                    (let w = k_closedir k dir w in Some (send_ok (fst (append_payload pp '']}'')), w)))))"

definition handle_read :: "'w kernel \<Rightarrow> request_context \<Rightarrow> 'w \<Rightarrow> bytes \<times> 'w" where
  "handle_read k ctx w =
     (case (query_value (rc_query ctx) ''path'' 2048, query_value (rc_query ctx) ''offset'' 64,
            query_value (rc_query ctx) ''size'' 64) of
        (Some path, Some offset_text, Some size_text) \<Rightarrow>
          (case resolve_path (rc_root_dir ctx) path 4096 of
             None \<Rightarrow> (send_error_json EINVAL ''invalid read query'', w)
           | Some local_path \<Rightarrow>
               (let offset = fst (strtoll offset_text); sz = fst (strtoll size_text)
                in if offset < 0 \<or> sz < 0 then (send_error_json EINVAL ''invalid offset or size'', w)
                   else
                     (case k_open k local_path ReadOnly w of
                        (Inl e, w) \<Rightarrow> (send_errno k e, w)
                      | (Inr fd, w) \<Rightarrow>
                          if \<not> k_malloc k (nat sz + 1)
                          then (send_error_json ENOMEM ''memory allocation failed'', k_close k fd w)
                          else
                            (let (r, w) = k_pread k fd (nat sz) offset w; w = k_close k fd w
                             in case r of
                                  Inl e \<Rightarrow> (send_errno k e, w)
                                | Inr data \<Rightarrow>
                                    (case httpfs_sparse_md5_hex (map byte_of data) offset of
                                       None \<Rightarrow> (send_error_json EIO ''failed to compute read content md5'', w)
                                     | Some md5 \<Rightarrow> (send_binary data md5, w))))))
      | _ \<Rightarrow> (send_error_json EINVAL ''invalid read query'', w))"

subsection \<open>Writing\<close>

definition write_payload :: "nat \<Rightarrow> string \<Rightarrow> string" where
  "write_payload written md5 = ''{'' @ quoted ''status'' @ '':'' @ quoted ''ok'' @ '','' @
     quoted ''bytes_written'' @ '':'' @ show_nat written @ '','' @ quoted ''content_md5'' @ '':'' @ quoted md5 @ ''}''"

text \<open>The part of \<open>handle_write\<close> behind the checks of the request: write, read back, compare the digests.\<close>

definition store_and_verify ::
  "'w kernel \<Rightarrow> string \<Rightarrow> bytes \<Rightarrow> int \<Rightarrow> string \<Rightarrow> 'w \<Rightarrow> (bytes \<times> 'w) option" where
  "store_and_verify k local_path body offset expected_md5 w =
     (case k_open k local_path ReadWrite w of
        (Inl e, w) \<Rightarrow> Some (send_errno k e, w)
      | (Inr fd, w) \<Rightarrow>
          (case pwrite_full k fd body offset 0 w of
             None \<Rightarrow> None
           | Some (Inl e, w) \<Rightarrow> Some (send_errno k e, k_close k fd w)
           | Some (Inr written, w) \<Rightarrow>
               if written \<noteq> length body then Some (send_error_json EIO ''short write'', k_close k fd w)
               else if \<not> k_malloc k (if length body > 0 then length body else 1)
               then Some (send_error_json ENOMEM ''memory allocation failed'', k_close k fd w)
               else
                 (case pread_full k fd (length body) offset [] w of
                    None \<Rightarrow> None
                  | Some (r, w) \<Rightarrow>
                      (let w = k_close k fd w
                       in case r of
                            Inl e \<Rightarrow> Some (send_errno k e, w)
                          | Inr verified \<Rightarrow>
                              (case httpfs_sparse_md5_hex (map byte_of verified) offset of
                                 Some actual_md5 \<Rightarrow>
                                   if length verified \<noteq> length body \<or> actual_md5 \<noteq> expected_md5
                                   then Some (send_error_json EIO ''stored content md5 verification failed'', w)
                                   else Some (send_ok (fst (snprintf 256 (write_payload written actual_md5))), w)
                               | None \<Rightarrow> Some (send_error_json EIO ''stored content md5 verification failed'', w))))))"

definition handle_write :: "'w kernel \<Rightarrow> request_context \<Rightarrow> 'w \<Rightarrow> (bytes \<times> 'w) option" where
  "handle_write k ctx w =
     (case (query_value (rc_query ctx) ''path'' 2048, query_value (rc_query ctx) ''offset'' 64) of
        (Some path, Some offset_text) \<Rightarrow>
          (case resolve_path (rc_root_dir ctx) path 4096 of
             None \<Rightarrow> Some (send_error_json EINVAL ''invalid write body'', w)
           | Some local_path \<Rightarrow>
               (let offset = fst (strtoll offset_text)
                in if offset < 0 then Some (send_error_json EINVAL ''invalid write offset'', w)
                   else if \<not> httpfs_is_valid_md5_hex (rc_content_md5 ctx)
                   then Some (send_error_json EINVAL ''missing or invalid content md5'', w)
                   else
                     (case httpfs_sparse_md5_hex (map byte_of (rc_body ctx)) offset of
                        None \<Rightarrow> Some (send_error_json EIO ''failed to compute write content md5'', w)
                      | Some expected_md5 \<Rightarrow>
                          if expected_md5 \<noteq> rc_content_md5 ctx
                          then Some (send_error_json EIO ''write content md5 verification failed'', w)
                          else store_and_verify k local_path (rc_body ctx) offset expected_md5 w)))
      | _ \<Rightarrow> Some (send_error_json EINVAL ''invalid write body'', w))"

subsection \<open>Requests with a JSON body\<close>

definition reply_status :: "'w kernel \<Rightarrow> int option \<times> 'w \<Rightarrow> bytes \<times> 'w" where
  "reply_status k r = (case r of (None, w) \<Rightarrow> (send_ok ok_payload, w) | (Some e, w) \<Rightarrow> (send_errno k e, w))"

definition body_path :: "request_context \<Rightarrow> string \<Rightarrow> string option" where
  "body_path ctx key =
     json_get_string (c_str (rc_body ctx)) key 2048 \<bind> (\<lambda>path. resolve_path (rc_root_dir ctx) path 4096)"

definition handle_create_file :: "'w kernel \<Rightarrow> request_context \<Rightarrow> 'w \<Rightarrow> bytes \<times> 'w" where
  "handle_create_file k ctx w =
     (case (body_path ctx ''path'', json_get_long (c_str (rc_body ctx)) ''mode'') of
        (Some local_path, Some mode) \<Rightarrow>
          (case k_open k local_path (CreateExclusive (word_of_int mode)) w of
             (Inl e, w) \<Rightarrow> (send_errno k e, w)
           | (Inr fd, w) \<Rightarrow> (send_ok ok_payload, k_close k fd w))
      | _ \<Rightarrow> (send_error_json EINVAL ''invalid create-file body'', w))"

definition handle_create_dir :: "'w kernel \<Rightarrow> request_context \<Rightarrow> 'w \<Rightarrow> bytes \<times> 'w" where
  "handle_create_dir k ctx w =
     (case (body_path ctx ''path'', json_get_long (c_str (rc_body ctx)) ''mode'') of
        (Some local_path, Some mode) \<Rightarrow> reply_status k (k_mkdir k local_path (word_of_int mode) w)
      | _ \<Rightarrow> (send_error_json EINVAL ''invalid create-dir body'', w))"

definition handle_remove_file :: "'w kernel \<Rightarrow> request_context \<Rightarrow> 'w \<Rightarrow> bytes \<times> 'w" where
  "handle_remove_file k ctx w =
     (case body_path ctx ''path'' of
        Some local_path \<Rightarrow> reply_status k (k_unlink k local_path w)
      | None \<Rightarrow> (send_error_json EINVAL ''invalid remove-file body'', w))"

definition handle_remove_dir :: "'w kernel \<Rightarrow> request_context \<Rightarrow> 'w \<Rightarrow> bytes \<times> 'w" where
  "handle_remove_dir k ctx w =
     (case body_path ctx ''path'' of
        Some local_path \<Rightarrow> reply_status k (k_rmdir k local_path w)
      | None \<Rightarrow> (send_error_json EINVAL ''invalid remove-dir body'', w))"

definition handle_rename :: "'w kernel \<Rightarrow> request_context \<Rightarrow> 'w \<Rightarrow> bytes \<times> 'w" where
  "handle_rename k ctx w =
     (case (body_path ctx ''old_path'', body_path ctx ''new_path'') of
        (Some local_old, Some local_new) \<Rightarrow> reply_status k (k_rename k local_old local_new w)
      | _ \<Rightarrow> (send_error_json EINVAL ''invalid rename body'', w))"

definition handle_truncate :: "'w kernel \<Rightarrow> request_context \<Rightarrow> 'w \<Rightarrow> bytes \<times> 'w" where
  "handle_truncate k ctx w =
     (case (body_path ctx ''path'', json_get_long (c_str (rc_body ctx)) ''size'') of
        (Some local_path, Some sz) \<Rightarrow> reply_status k (k_truncate k local_path sz w)
      | _ \<Rightarrow> (send_error_json EINVAL ''invalid truncate body'', w))"

definition handle_utimens :: "'w kernel \<Rightarrow> request_context \<Rightarrow> 'w \<Rightarrow> bytes \<times> 'w" where
  "handle_utimens k ctx w =
     (let body = c_str (rc_body ctx)
      in case (body_path ctx ''path'', json_get_long body ''atime_sec'', json_get_long body ''atime_nsec'',
               json_get_long body ''mtime_sec'', json_get_long body ''mtime_nsec'') of
           (Some local_path, Some atime_sec, Some atime_nsec, Some mtime_sec, Some mtime_nsec) \<Rightarrow>
             reply_status k (k_utimensat k local_path \<lparr>tv_sec = atime_sec, tv_nsec = atime_nsec\<rparr>
               \<lparr>tv_sec = mtime_sec, tv_nsec = mtime_nsec\<rparr> w)
         | _ \<Rightarrow> (send_error_json EINVAL ''invalid utimens body'', w))"

subsection \<open>Dispatch\<close>

definition dispatch_request :: "'w kernel \<Rightarrow> request_context \<Rightarrow> 'w \<Rightarrow> (bytes \<times> 'w) option" where
  "dispatch_request k ctx w =
     (if rc_method ctx = ''GET'' \<and> rc_path ctx = ''/v1/meta'' then Some (handle_meta k ctx w)
      else if rc_method ctx = ''GET'' \<and> rc_path ctx = ''/v1/list'' then handle_list k ctx w
      else if rc_method ctx = ''GET'' \<and> rc_path ctx = ''/v1/read'' then Some (handle_read k ctx w)
      else if rc_method ctx = ''POST'' \<and> rc_path ctx = ''/v1/write'' then handle_write k ctx w
      else if rc_method ctx = ''POST'' \<and> rc_path ctx = ''/v1/create-file'' then Some (handle_create_file k ctx w)
      else if rc_method ctx = ''POST'' \<and> rc_path ctx = ''/v1/create-dir'' then Some (handle_create_dir k ctx w)
      else if rc_method ctx = ''POST'' \<and> rc_path ctx = ''/v1/remove-file'' then Some (handle_remove_file k ctx w)
      else if rc_method ctx = ''POST'' \<and> rc_path ctx = ''/v1/remove-dir'' then Some (handle_remove_dir k ctx w)
      else if rc_method ctx = ''POST'' \<and> rc_path ctx = ''/v1/rename'' then Some (handle_rename k ctx w)
      else if rc_method ctx = ''POST'' \<and> rc_path ctx = ''/v1/truncate'' then Some (handle_truncate k ctx w)
      else if rc_method ctx = ''POST'' \<and> rc_path ctx = ''/v1/utimens'' then Some (handle_utimens k ctx w)
      else Some (send_error_json ENOSYS ''unknown endpoint'', w))"

text \<open>\<open>data\<close> are the bytes received; the text functions see them up to the first NUL.\<close>

definition process_request_buffer :: "'w kernel \<Rightarrow> string \<Rightarrow> bytes \<Rightarrow> 'w \<Rightarrow> (bytes \<times> 'w) option" where
  "process_request_buffer k root_dir data w =
     (let buffer = c_str data
      in case strstr buffer HEADER_END of
           None \<Rightarrow> Some (send_error_json EINVAL ''invalid http request'', w)
         | Some header_end \<Rightarrow>
             (case strstr buffer CRLF of
                None \<Rightarrow> Some (send_error_json EINVAL ''invalid request line'', w)
              | Some line_end \<Rightarrow>
                  (case parse_request_line (take line_end buffer) of
                     None \<Rightarrow> Some (send_error_json EINVAL ''invalid request line'', w)
                   | Some (meth, path, query) \<Rightarrow>
                       (let headers = drop (line_end + 2) buffer;
                            content_length = (case strstr headers ''Content-Length:'' of
                                None \<Rightarrow> 0
                              | Some i \<Rightarrow> fst (strtol (drop (i + length ''Content-Length:'') headers)));
                            md5 = (case extract_header_value headers (int header_end - int (line_end + 2))
                                     ''X-HTTPFS-Content-MD5'' 33 of
                                None \<Rightarrow> []
                              | Some v \<Rightarrow> v);
                            body = drop (header_end + 4) data
                        in if int (length body) < content_length
                           then Some (send_error_json EINVAL ''request body truncated'', w)
                           else dispatch_request k \<lparr>rc_method = meth, rc_path = path, rc_query = query,
                                  rc_content_md5 = md5, rc_body = body, rc_root_dir = root_dir\<rparr> w))))"

end
