(* ===== verification/Exchange.thy ===== *)
theory Exchange
  imports Fuse_Ops Server_Handlers
begin

text \<open>
  Both ends of the protocol: what one side writes, the other reads. The responses of the service are printed
  documents that the client's parser understands, the bodies and queries of the client are understood by the
  service's parsers. The properties of the root theory rest on these lemmas.
\<close>

subsection \<open>Texts that the tokenizer accepts\<close>

lemma jstr_plain: "CHR 0x22 \<notin> set s \<Longrightarrow> CHR 0x5C \<notin> set s \<Longrightarrow> jstr s"
  unfolding jstr_def by (induction s) auto

lemma str_scan_escape_char:
  "str_scan (escape_char c @ t) = map_sum id (\<lambda>k. k + length (escape_char c)) (str_scan t)"
proof -
  have "(\<exists>e. escape_char c = [CHR 0x5C, e] \<and> simple_escape e) \<or> escape_char c = unicode_escape c \<or>
      escape_char c = [c] \<and> c \<noteq> CHR 0x22 \<and> c \<noteq> CHR 0x5C"
    by (cases "c = CHR 0x5C \<or> c = CHR 0x22"; cases "c = CHR 0x08 \<or> c = CHR 0x0C \<or> c = CHR 0x0A \<or> c = CHR 0x0D \<or> c = CHR 0x09")
      (auto simp: escape_char_def simple_escape_def)
  then consider (simple) e where "escape_char c = [CHR 0x5C, e]" "simple_escape e" | (uni) "escape_char c = unicode_escape c"
    | (plain) "escape_char c = [c]" "c \<noteq> CHR 0x22" "c \<noteq> CHR 0x5C" by metis
  then show ?thesis
  proof cases
    case uni
    have "\<not> simple_escape (CHR ''u'')" by (simp add: simple_escape_def)
    with uni show ?thesis by (cases "str_scan t") (auto simp: unicode_escape_def Let_def)
  qed (cases "str_scan t"; auto simp: Let_def)+
qed

lemma jstr_escape [simp]: "jstr (json_escape s)"
proof -
  have "str_scan (json_escape s @ [CHR 0x22]) = Inr (length (json_escape s))"
    by (induction s) (simp_all add: str_scan_escape_char json_escape_def)
  then show ?thesis by (simp add: jstr_def)
qed

lemma digit_prim: "is_digit c \<Longrightarrow> prim_char c \<and> c \<noteq> CHR ''{'' \<and> c \<noteq> CHR ''['' \<and> c \<noteq> CHR 0x22 \<and> c \<noteq> CHR '':''"
  by (auto simp: is_digit_def prim_char_def)

lemma jprim_show_nat [simp]: "jprim (show_nat n)"
proof -
  have "\<forall>c \<in> set (show_nat n). is_digit c" using show_nat_digits by blast
  moreover from this have "is_digit (hd (show_nat n))" by simp
  ultimately show ?thesis using digit_prim by (auto simp: jprim_def list_all_iff)
qed

lemma jprim_show_int [simp]: "jprim (show_int i)"
proof (cases "i < 0")
  case True
  have "prim_char (CHR ''-'')" by (simp add: prim_char_def)
  then show ?thesis using True jprim_show_nat [of "nat (- i)"] by (simp add: show_int_def jprim_def)
qed (simp add: show_int_def)

subsection \<open>The responses of the service as documents\<close>

definition status_doc :: "(string \<times> json) list \<Rightarrow> json" where
  "status_doc kvs = JObject ((''status'', JString ''ok'') # kvs)"

lemma ok_payload_doc: "ok_payload = jprint (status_doc [])"
  by (simp add: ok_payload_def status_doc_def quoted_def)

lemma error_payload_doc:
  "error_payload e m = jprint (JObject [(''status'', JString ''error''), (''errno'', JPrim (show_int e)), (''message'', JString m)])"
  by (simp add: error_payload_def quoted_def)

lemma write_payload_doc:
  "write_payload n md5 = jprint (status_doc [(''bytes_written'', JPrim (show_nat n)), (''content_md5'', JString md5)])"
  by (simp add: write_payload_def status_doc_def quoted_def)

definition meta_doc :: "string \<Rightarrow> stat \<Rightarrow> json" where
  "meta_doc path st = JObject
     [(''path'', JString path), (''type'', JString (if S_ISDIR (st_mode st) then ''dir'' else ''file'')),
      (''mode'', JPrim (show_int (uint (st_mode st)))), (''size'', JPrim (show_int (st_size st))),
      (''uid'', JPrim (show_int (uint (st_uid st)))), (''gid'', JPrim (show_int (uint (st_gid st)))),
      (''nlink'', JPrim (show_int (uint (st_nlink st)))), (''atime'', JPrim (show_int (st_atime st))),
      (''mtime'', JPrim (show_int (st_mtime st))), (''ctime'', JPrim (show_int (st_ctime st)))]"

lemma show_int_uint: "show_int (uint w) = show_nat (unat w)"
proof -
  have "uint w = int (unat w)" by simp
  then show ?thesis unfolding show_int_def by (simp only: nat_int of_nat_less_0_iff if_False)
qed

lemma meta_payload_doc: "meta_payload path st = jprint (status_doc [(''meta'', meta_doc path st)])"
  by (simp add: meta_payload_def status_doc_def meta_doc_def quoted_def show_int_uint)

definition entry_doc :: "string \<times> string \<Rightarrow> json" where
  "entry_doc e = JObject [(''name'', JString (fst e)), (''type'', JString (snd e))]"

definition list_doc :: "(string \<times> string) list \<Rightarrow> json" where
  "list_doc es = status_doc [(''entries'', JArray (map entry_doc es))]"

lemma jwf_plain_keys [simp]:
  "jstr ''status''" "jstr ''ok''" "jstr ''error''" "jstr ''errno''" "jstr ''message''" "jstr ''meta''" "jstr ''path''"
  "jstr ''type''" "jstr ''mode''" "jstr ''size''" "jstr ''uid''" "jstr ''gid''" "jstr ''nlink''" "jstr ''atime''"
  "jstr ''mtime''" "jstr ''ctime''" "jstr ''dir''" "jstr ''file''" "jstr ''entries''" "jstr ''name''"
  "jstr ''bytes_written''" "jstr ''content_md5''"
  by (simp_all add: jstr_plain)

subsection \<open>Metadata\<close>

text \<open>The numbers that fit the client's \<open>long\<close>.\<close>

definition stat_fits :: "stat \<Rightarrow> bool" where
  "stat_fits st \<longleftrightarrow> stat_ok st \<and> uint (st_nlink st) \<le> LONG_MAX"

lemma u32_fits: "LONG_MIN \<le> uint (x :: u32) \<and> uint x \<le> LONG_MAX"
proof -
  have "0 \<le> uint x" "uint x < 2 ^ 32" using unsigned_less [of x, where ?'a = int] by simp_all
  then show ?thesis using order_trans [of LONG_MIN 0 "uint x"] by (simp add: LONG_MIN_def LONG_MAX_def)
qed

lemma parse_meta_printed:
  assumes "node json T n i p par (meta_doc path st)" "stat_fits st" "length path < HTTPFS_MAX_PATH"
  shows "parse_meta_object json T n i = Some
    \<lparr>m_path = path, m_type = (if S_ISDIR (st_mode st) then ''dir'' else ''file''), m_mode = st_mode st, m_size = st_size st,
     m_uid = st_uid st, m_gid = st_gid st, m_nlink = st_nlink st, m_atime = st_atime st, m_mtime = st_mtime st,
     m_ctime = st_ctime st\<rparr>"
proof -
  obtain kvs where kvs: "meta_doc path st = JObject kvs" by (simp add: meta_doc_def)
  note node = assms(1) [unfolded kvs]
  note doc = kvs [symmetric, unfolded meta_doc_def, simplified]
  have str: "\<exists>j. find_object_value json T n i key = Some j \<and> (\<forall>m. length s < m \<longrightarrow> token_to_string json (T ! j) m = Some s)"
    if "map_of kvs key = Some (JString s)" for key s
    using find_member(2) [OF node that] token_equals_string(2) by fastforce
  have num: "\<exists>j. find_object_value json T n i key = Some j \<and> long_field json T j = Some v"
    if "map_of kvs key = Some (JPrim (show_int v))" "LONG_MIN \<le> v" "v \<le> LONG_MAX" for key v
    using find_member(2) [OF node that(1)] long_field_prim that(2,3) by blast
  have fits: "LONG_MIN \<le> st_size st" "st_size st \<le> LONG_MAX" "LONG_MIN \<le> st_atime st" "st_atime st \<le> LONG_MAX"
    "LONG_MIN \<le> st_mtime st" "st_mtime st \<le> LONG_MAX" "LONG_MIN \<le> st_ctime st" "st_ctime st \<le> LONG_MAX"
    "LONG_MIN \<le> uint (st_nlink st)" "uint (st_nlink st) \<le> LONG_MAX"
    using assms(2) order_trans [of LONG_MIN 0 "uint (st_nlink st)"] by (auto simp: stat_fits_def stat_ok_def LONG_MIN_def)
  obtain j1 where "find_object_value json T n i ''path'' = Some j1" "token_to_string json (T ! j1) HTTPFS_MAX_PATH = Some path"
    using str [of "''path''" path] assms(3) doc by auto
  moreover obtain j2 where "find_object_value json T n i ''type'' = Some j2"
      "token_to_string json (T ! j2) 8 = Some (if S_ISDIR (st_mode st) then ''dir'' else ''file'')"
    using str [of "''type''" "if S_ISDIR (st_mode st) then ''dir'' else ''file''"] doc by auto
  moreover obtain j3 where "find_object_value json T n i ''mode'' = Some j3" "long_field json T j3 = Some (uint (st_mode st))"
    using num [of "''mode''" "uint (st_mode st)"] u32_fits doc by auto
  moreover obtain j4 where "find_object_value json T n i ''size'' = Some j4" "long_field json T j4 = Some (st_size st)"
    using num [of "''size''" "st_size st"] fits doc by auto
  moreover obtain j5 where "find_object_value json T n i ''uid'' = Some j5" "long_field json T j5 = Some (uint (st_uid st))"
    using num [of "''uid''" "uint (st_uid st)"] u32_fits doc by auto
  moreover obtain j6 where "find_object_value json T n i ''gid'' = Some j6" "long_field json T j6 = Some (uint (st_gid st))"
    using num [of "''gid''" "uint (st_gid st)"] u32_fits doc by auto
  moreover obtain j7 where "find_object_value json T n i ''nlink'' = Some j7" "long_field json T j7 = Some (uint (st_nlink st))"
    using num [of "''nlink''" "uint (st_nlink st)"] fits doc by auto
  moreover obtain j8 where "find_object_value json T n i ''atime'' = Some j8" "long_field json T j8 = Some (st_atime st)"
    using num [of "''atime''" "st_atime st"] fits doc by auto
  moreover obtain j9 where "find_object_value json T n i ''mtime'' = Some j9" "long_field json T j9 = Some (st_mtime st)"
    using num [of "''mtime''" "st_mtime st"] fits doc by auto
  moreover obtain j10 where "find_object_value json T n i ''ctime'' = Some j10" "long_field json T j10 = Some (st_ctime st)"
    using num [of "''ctime''" "st_ctime st"] fits doc by auto
  ultimately show ?thesis by (simp add: parse_meta_object_def)
qed

subsection \<open>Directory listings\<close>

definition dir_entries :: "(string \<times> string) list \<Rightarrow> httpfs_dir_entry list" where
  "dir_entries es = map (\<lambda>(nm, ty). \<lparr>entry_name = nm, entry_type = ty\<rparr>) es"

definition entry_fits :: "string \<times> string \<Rightarrow> bool" where
  "entry_fits e \<longleftrightarrow> jstr (fst e) \<and> jstr (snd e) \<and> length (fst e) < 256 \<and> length (snd e) < 8"

lemma jwf_entry: "entry_fits e \<Longrightarrow> jwf (entry_doc e)"
  by (simp add: entry_doc_def entry_fits_def)

lemma list_loop_entries:
  assumes "take n T = pre @ etoks (length pre) q (int ei) sep (map entry_doc es) @ post" "n \<le> length T"
    and "json = u @ jelems sep (map entry_doc es) @ w" "length u = q" "int (q + length (jelems sep (map entry_doc es))) < e"
    and "\<forall>t \<in> set post. e \<le> tok_start t" "\<forall>x \<in> set es. entry_fits x"
    and "length used + length es \<le> mx"
  shows "list_loop json T n ei e mx used (length pre) = Ret (used @ dir_entries es)"
  using assms
proof (induction es arbitrary: pre q sep u used)
  case Nil
  have "n = length pre + length post" using arg_cong [OF Nil(1), of length] Nil(2) by simp
  then have "n > length pre \<Longrightarrow> T ! length pre \<in> set post"
    using Nil(1) by (metis append_Nil length_greater_0_conv less_add_same_cancel1 list.simps(8) etoks.simps(1) nth_append_length_plus
        nth_mem nth_take add_0_right)
  then show ?case using Nil(6) by (subst list_loop.simps) (fastforce simp: dir_entries_def)
next
  case (Cons x es)
  let ?q = "q + length sep" and ?j = "entry_doc x"
  let ?tx = "jtoks (length pre) ?q (int ei) ?j"
  let ?tr = "etoks (length pre + jcount ?j) (?q + length (jprint ?j)) (int ei) [CHR '',''] (map entry_doc es)"
  have T: "take n T = pre @ ?tx @ ?tr @ post" using Cons(2) by (simp add: Let_def)
  have json: "json = (u @ sep) @ jprint ?j @ jelems [CHR '',''] (map entry_doc es) @ w" using Cons(4) by simp
  have fits: "entry_fits x" "\<forall>x \<in> set es. entry_fits x" using Cons(8) by auto
  have wf: "jwf ?j" "\<forall>x \<in> set (map entry_doc es). jwf x" using fits jwf_entry by auto
  have e: "int (?q + length (jprint ?j) + length (jelems [CHR '',''] (map entry_doc es))) < e" using Cons(6) by simp
  have "int (?q + length (jprint ?j)) \<le> tok_start t" if "t \<in> set (?tr @ post)" for t
    using that jtoks_starts(2) [OF wf(2), of t] Cons(7) e by fastforce
  then have node: "node json T n (length pre) ?q (int ei) ?j"
    unfolding node_def using T json wf(1) Cons(3,5)
    by (intro conjI exI [of _ pre] exI [of _ "?tr @ post"] exI [of _ "u @ sep"] exI [of _ "jelems [CHR '',''] (map entry_doc es) @ w"]) auto
  note obj = node [unfolded entry_doc_def]
  have tok: "length pre < n" "T ! length pre = ?tx ! 0" using node_tok [OF node, of 0] by simp_all
  obtain a where a: "find_object_value json T n (length pre) ''name'' = Some a" "token_to_string json (T ! a) 256 = Some (fst x)"
    using find_member(2) [OF obj, of "''name''" "JString (fst x)"] token_equals_string(2) [of json T n] fits(1)
    by (fastforce simp: entry_fits_def)
  obtain b where b: "find_object_value json T n (length pre) ''type'' = Some b" "token_to_string json (T ! b) 8 = Some (snd x)"
    using find_member(2) [OF obj, of "''type''" "JString (snd x)"] token_equals_string(2) [of json T n] fits(1)
    by (fastforce simp: entry_fits_def)
  have "list_loop json T n ei e mx used (length pre) =
      list_loop json T n ei e mx (used @ [\<lparr>entry_name = fst x, entry_type = snd x\<rparr>]) (length (pre @ ?tx))"
    using tok e a b Cons(9) next_token_index_node [OF node]
    by (subst list_loop.simps) (simp add: entry_doc_def mk_tok_def)
  also have "\<dots> = Ret ((used @ [\<lparr>entry_name = fst x, entry_type = snd x\<rparr>]) @ dir_entries es)"
    by (rule Cons.IH [where q = "?q + length (jprint ?j)" and sep = "[CHR '','']" and u = "(u @ sep) @ jprint ?j"])
      (use T json e Cons fits in auto)
  finally show ?case by (simp add: dir_entries_def case_prod_unfold)
qed

lemma jcount_entry [simp]: "jcount (entry_doc e) = 5"
  by (simp add: entry_doc_def)

lemma jcount_list_doc: "jcount (list_doc es) = 5 * length es + 5"
  by (simp add: list_doc_def status_doc_def comp_def sum_list_triv)

lemma node_array_loop:
  assumes "node json T n i p par (JArray (map entry_doc es))" "\<forall>x \<in> set es. entry_fits x" "length es \<le> mx"
  shows "list_loop json T n i (tok_end (T ! i)) mx [] (i + 1) = Ret (dir_entries es)" "tok_type (T ! i) = JSMN_ARRAY"
proof -
  let ?j = "JArray (map entry_doc es)"
  obtain pre post u w where *: "take n T = pre @ jtoks i p par ?j @ post" "length pre = i"
      "json = u @ jprint ?j @ w" "length u = p" "n \<le> length T" "\<forall>t \<in> set post. int (p + length (jprint ?j)) \<le> tok_start t"
    using assms(1) by (auto simp: node_def)
  let ?x = "jtoks i p par ?j ! 0"
  have x: "T ! i = ?x" using node_tok [OF assms(1), of 0] by simp
  then have e: "tok_end (T ! i) = int (p + length (jprint ?j))" by (simp add: mk_tok_def)
  show "tok_type (T ! i) = JSMN_ARRAY" using x by (simp add: mk_tok_def)
  have "list_loop json T n i (tok_end (T ! i)) mx [] (length (pre @ [?x])) = Ret ([] @ dir_entries es)"
    using * e assms(2,3)
    by (intro list_loop_entries [where sep = "[]" and q = "p + 1" and post = post and u = "u @ [CHR ''['']" and w = "CHR '']'' # w"]) auto
  then show "list_loop json T n i (tok_end (T ! i)) mx [] (i + 1) = Ret (dir_entries es)" using *(2) by simp
qed

end
