(* ===== verification/Wire.thy ===== *)
theory Wire
  imports Exchange
begin

text \<open>
  Requests and responses as HTTP text. libcurl writes the requests and splits the responses; what the program
  relies on is the format of the two, which the predicates \<open>writes_requests\<close> and \<open>serves\<close> state about the
  runtime. The lemmas show that \<open>process_request_buffer\<close> hands a request in this format to the right handler, and what
  the client gets from the responses of the service.
\<close>

subsection \<open>Lines\<close>

definition line_ok :: "string \<Rightarrow> bool" where
  "line_ok l \<longleftrightarrow> l \<noteq> [] \<and> CHR 0x0D \<notin> set l \<and> CHR 0x0A \<notin> set l \<and> CHR 0x00 \<notin> set l"

definition header_block :: "string list \<Rightarrow> string" where
  "header_block ls = concat (map (\<lambda>l. l @ CRLF) ls)"

lemma header_block_simps [simp]:
  "header_block [] = []" "header_block (l # ls) = l @ CRLF @ header_block ls" "header_block (a @ b) = header_block a @ header_block b"
  by (simp_all add: header_block_def)

lemma header_block_no_nul: "list_all line_ok ls \<Longrightarrow> CHR 0x00 \<notin> set (header_block ls)"
  by (induction ls) (auto simp: line_ok_def CRLF_def)

lemma no_start_line_end: "line_ok l \<Longrightarrow> no_start l r (CHR 0x0D # p)"
  by (rule no_start_no_hd) (simp add: line_ok_def)

lemma no_start_header_end:
  "list_all line_ok ls \<Longrightarrow> line_ok l \<Longrightarrow> no_start (header_block ls @ l) (HEADER_END @ r) HEADER_END"
proof (induction ls)
  case Nil
  then show ?case using no_start_line_end by (simp add: HEADER_END_def CRLF_def)
next
  case (Cons x ls)
  obtain c s where cs: "header_block ls @ l = c # s" "c \<noteq> CHR 0x0D"
    using Cons.prems by (cases ls; cases l; auto simp: line_ok_def; metis append_Cons list.exhaust list.set_intros(1))
  have "no_start x r' HEADER_END" for r' using Cons.prems no_start_line_end by (simp add: HEADER_END_def CRLF_def)
  moreover have "no_start CRLF ((header_block ls @ l) @ HEADER_END @ r) HEADER_END"
    unfolding cs(1) using cs(2) by (simp add: HEADER_END_def CRLF_def)
  ultimately show ?case using Cons by simp
qed

lemma find_header_end:
  "list_all line_ok ls \<Longrightarrow> line_ok l \<Longrightarrow>
   strstr (header_block ls @ l @ HEADER_END @ r) HEADER_END = Some (length (header_block ls @ l))"
  using strstr_at [OF no_start_header_end, of ls l r] by simp

lemma find_line_end: "line_ok l \<Longrightarrow> strstr (l @ CRLF @ r) CRLF = Some (length l)"
  by (rule strstr_at) (auto simp: CRLF_def intro: no_start_line_end)

text \<open>A text without line ends is found only inside a line.\<close>

lemma no_start_block:
  assumes "list_all (\<lambda>l. \<not> sublist p l) ls" "p \<noteq> []" "CHR 0x0D \<notin> set p" "CHR 0x0A \<notin> set p"
  shows "no_start (header_block ls) r p"
  using assms(1)
proof (induction ls arbitrary: r)
  case (Cons l ls)
  have "no_start l (CRLF @ r') p" for r'
  proof -
    have "\<not> sublist p l" using Cons.prems by simp
    then show ?thesis
    proof (induction l)
      case (Cons c l)
      have "\<not> prefix p (c # l @ CRLF @ r')"
      proof
        assume pre: "prefix p (c # l @ CRLF @ r')"
        show False
        proof (cases "length p \<le> length (c # l)")
          case True
          with pre have "prefix p (c # l)" by (metis append_Cons prefixI prefix_length_prefix)
          then show False using Cons.prems by (auto simp: sublist_def prefix_def) (metis append_Nil)
        next
          case False
          obtain zs where zs: "c # l @ CRLF @ r' = p @ zs" using pre by (auto simp: prefix_def)
          have "p ! Suc (length l) = (p @ zs) ! Suc (length l)" using False by (simp add: nth_append)
          also have "\<dots> = (c # l @ CRLF @ r') ! Suc (length l)" unfolding zs ..
          also have "\<dots> = CHR 0x0D" by (simp add: CRLF_def nth_append)
          finally show False using False assms(3) nth_mem [of "Suc (length l)" p] by simp
        qed
      qed
      moreover have "\<not> sublist p l" using Cons.prems by (auto simp: sublist_def) (metis append_Cons)
      ultimately show ?case using Cons.IH by simp
    qed simp
  qed
  moreover have "no_start CRLF r' p" for r'
    using assms(2-4) by (cases p) (auto simp: CRLF_def)
  ultimately show ?case using Cons by simp
qed simp

subsection \<open>The request line and the headers\<close>

lemma takeWhile_no_space: "\<forall>c \<in> set a. \<not> is_space c \<Longrightarrow> takeWhile (\<lambda>c. \<not> is_space c) (a @ CHR '' '' # r) = a"
  by (rule takeWhile_append_id) (auto simp: is_space_def)

lemma parse_request_line_target:
  assumes "meth = ''GET'' \<or> meth = ''POST''" "\<forall>c \<in> set (path @ query). \<not> is_space c" "path \<noteq> []" "CHR ''?'' \<notin> set path"
    and "length path + length query + 1 < 2047"
  shows "parse_request_line (meth @ '' '' @ (path @ CHR ''?'' # query) @ '' HTTP/1.1'') = Some (meth, path, query)"
    and "parse_request_line (meth @ '' '' @ path @ '' HTTP/1.1'') = Some (meth, path, [])"
proof -
  have scan: "scan_two_words (meth @ '' '' @ t @ '' HTTP/1.1'') = Some (meth, t)"
    if t: "\<forall>c \<in> set t. \<not> is_space c" "t \<noteq> []" "length t < 2048" for t
  proof -
    have m: "\<forall>c \<in> set meth. \<not> is_space c" "meth \<noteq> []" "length meth \<le> 7" using assms(1) by (auto simp: is_space_def)
    have sp: "is_space (CHR '' '')" by (simp add: is_space_def)
    have "dropWhile is_space (meth @ x) = meth @ x" for x using m(1,2) by (cases meth) auto
    moreover have "dropWhile is_space (CHR '' '' # t @ x) = t @ x" for x using t(1,2) sp by (cases t) auto
    moreover have "takeWhile (\<lambda>c. \<not> is_space c) (meth @ CHR '' '' # x) = meth" for x using takeWhile_no_space m(1) by simp
    moreover have "takeWhile (\<lambda>c. \<not> is_space c) (t @ '' HTTP/1.1'') = t" using takeWhile_no_space t(1) by simp
    ultimately show ?thesis using m t by (simp add: scan_two_words_def Let_def)
  qed
  have q: "\<not> is_space (CHR ''?'')" by (simp add: is_space_def)
  show "parse_request_line (meth @ '' '' @ (path @ CHR ''?'' # query) @ '' HTTP/1.1'') = Some (meth, path, query)"
    using scan [of "path @ CHR ''?'' # query"] assms q by (simp add: parse_request_line_def snprintf_def)
  have "strchr path (CHR ''?'') = None" using assms(4) strchr_None_iff by blast
  then show "parse_request_line (meth @ '' '' @ path @ '' HTTP/1.1'') = Some (meth, path, [])"
    using scan [of path] assms by (simp add: parse_request_line_def snprintf_def)
qed

text \<open>The line carries a header of the given name.\<close>

definition line_names :: "string \<Rightarrow> string \<Rightarrow> bool" where
  "line_names l name \<longleftrightarrow> length name < length l \<and> strncaseeq l name (length name) \<and> l ! length name = CHR '':''"

lemma extract_header_found:
  assumes "list_all line_ok (a @ l # b)" "list_all (\<lambda>x. \<not> line_names x name) a" "line_names l name"
    and "v = dropWhile (\<lambda>c. c = CHR '' '' \<or> c = CHR 0x09) (drop (length name + 1) l)" "length v < n"
    and "drop cursor h = header_block (a @ l # b) @ CRLF @ r" "e = int cursor + int (length (header_block (a @ l # b))) - 2"
  shows "extract_header_loop h e cursor name n = Some v"
  using assms(1,2,6,7)
proof (induction a arbitrary: cursor)
  case Nil
  have l: "line_ok l" "l \<noteq> []" using Nil(1) by (auto simp: line_ok_def)
  have d: "drop cursor h = l @ CRLF @ header_block b @ CRLF @ r" using Nil(3) by simp
  have "length name < length (drop cursor h)" using d assms(3) by (simp add: line_names_def)
  then have "cursor + length name < length h" by simp
  then have "h ! (cursor + length name) = drop cursor h ! length name" by simp
  also have "\<dots> = CHR '':''" using d assms(3) by (simp add: line_names_def nth_append)
  finally have colon: "h ! (cursor + length name) = CHR '':''" .
  have case_eq: "strncaseeq (drop cursor h) name (length name)" using d assms(3) by (simp add: line_names_def strncaseeq_def)
  show ?case
    using Nil l d colon case_eq assms(3,4,5) find_line_end [OF l(1)]
    by (subst extract_header_loop.simps) (simp add: line_names_def CRLF_def Let_def)
next
  case (Cons x a)
  have x: "line_ok x" "x \<noteq> []" using Cons(2) by (auto simp: line_ok_def)
  let ?rest = "header_block (a @ l # b) @ CRLF @ r"
  have d: "drop cursor h = x @ CRLF @ ?rest" using Cons(4) by simp
  have "\<not> (length name < length x \<and> strncaseeq (drop cursor h) name (length name) \<and> h ! (cursor + length name) = CHR '':'')"
  proof
    assume *: "length name < length x \<and> strncaseeq (drop cursor h) name (length name) \<and> h ! (cursor + length name) = CHR '':''"
    have "length name < length (drop cursor h)" using d * by simp
    then have "cursor + length name < length h" by simp
    then have "h ! (cursor + length name) = drop cursor h ! length name" by simp
    then have "x ! length name = CHR '':''" using * d by (simp add: nth_append)
    moreover have "length name < length x" using * by blast
    then have "strncaseeq x name (length name) = strncaseeq (drop cursor h) name (length name)" using d by (simp add: strncaseeq_def)
    then have "strncaseeq x name (length name)" using * by blast
    ultimately show False using Cons(3) * by (simp add: line_names_def)
  qed
  moreover have "extract_header_loop h e (cursor + length x + 2) name n = Some v"
  proof (rule Cons.IH)
    have "drop (cursor + length x + 2) h = drop (length x + 2) (drop cursor h)" by (simp add: add.commute add.left_commute)
    then show "drop (cursor + length x + 2) h = ?rest" by (simp add: d CRLF_def)
  qed (use Cons in \<open>auto simp: CRLF_def\<close>)
  moreover have "0 < length (header_block (a @ l # b))" by (simp add: CRLF_def)
  ultimately show ?case using Cons(5) x d find_line_end [OF x(1)]
    by (subst extract_header_loop.simps) (auto simp: CRLF_def)
qed

subsection \<open>A request in the format of HTTP\<close>

definition http_text :: "string \<Rightarrow> string \<Rightarrow> string list \<Rightarrow> bytes \<Rightarrow> bytes" where
  "http_text meth target hs body = header_block ((meth @ '' '' @ target @ '' HTTP/1.1'') # hs) @ CRLF @ body"

text \<open>
  The header lines announce the body: one of them is its length, and no line before it mentions the header; or no line
  does and there is no body.
\<close>

definition announces :: "string list \<Rightarrow> nat \<Rightarrow> bool" where
  "announces hs len \<longleftrightarrow> int len \<le> LONG_MAX \<and>
     (len = 0 \<and> list_all (\<lambda>l. \<not> sublist ''Content-Length:'' l) hs \<or>
      (\<exists>a b. hs = a @ (''Content-Length: '' @ show_nat len) # b \<and> list_all (\<lambda>l. \<not> sublist ''Content-Length:'' l) a))"

definition content_length_in :: "string \<Rightarrow> int" where
  "content_length_in headers =
     (case strstr headers ''Content-Length:'' of
        None \<Rightarrow> 0
      | Some i \<Rightarrow> fst (strtol (drop (i + length ''Content-Length:'') headers)))"

lemma announced_length:
  assumes "announces hs (length body)"
  shows "content_length_in (header_block hs @ CRLF @ c_str body) = int (length body)"
proof -
  let ?p = "''Content-Length:''"
  have p: "?p \<noteq> []" "CHR 0x0D \<notin> set ?p" "CHR 0x0A \<notin> set ?p" by simp_all
  have len: "int (length body) \<le> LONG_MAX" using assms unfolding announces_def by (elim conjE)
  have "(length body = 0 \<and> list_all (\<lambda>l. \<not> sublist ?p l) hs) \<or>
     (\<exists>a b. hs = a @ (''Content-Length: '' @ show_nat (length body)) # b \<and> list_all (\<lambda>l. \<not> sublist ?p l) a)"
    using assms unfolding announces_def by (elim conjE)
  then show ?thesis
  proof (rule disjE)
    assume a: "length body = 0 \<and> list_all (\<lambda>l. \<not> sublist ?p l) hs"
    have "strstr (header_block hs @ CRLF) ?p = map_option (\<lambda>k. length (header_block hs) + k) (strstr CRLF ?p)"
      by (rule strstr_skip [OF no_start_block]) (use a in simp_all)
    also have "strstr CRLF ?p = None" by (simp add: CRLF_def)
    finally show ?thesis using a by (simp add: content_length_in_def c_str_def)
  next
    assume "\<exists>a b. hs = a @ (''Content-Length: '' @ show_nat (length body)) # b \<and> list_all (\<lambda>l. \<not> sublist ?p l) a"
    then obtain a b where ab: "hs = a @ (''Content-Length: '' @ show_nat (length body)) # b \<and> list_all (\<lambda>l. \<not> sublist ?p l) a"
      by (elim exE)
    let ?r = "CRLF @ header_block b @ CRLF @ c_str body"
    have t: "header_block hs @ CRLF @ c_str body = header_block a @ ?p @ CHR '' '' # show_nat (length body) @ ?r"
      using ab by simp
    have "no_start (header_block a) (?p @ CHR '' '' # show_nat (length body) @ ?r) ?p"
      by (rule no_start_block) (use ab in simp_all)
    then have "strstr (header_block a @ ?p @ CHR '' '' # show_nat (length body) @ ?r) ?p = Some (length (header_block a))"
      by (rule strstr_at) (rule prefixI, rule refl)
    moreover have "fst (strtol (CHR '' '' # show_nat (length body) @ ?r)) = int (length body)"
      using len by (intro strtol_blank_number) (auto simp: CRLF_def is_digit_def)
    ultimately show ?thesis unfolding t by (simp add: content_length_in_def)
  qed
qed

lemma process_http_text:
  assumes "line_ok (meth @ '' '' @ target @ '' HTTP/1.1'')" "list_all line_ok hs" "announces hs (length body)"
    and "parse_request_line (meth @ '' '' @ target @ '' HTTP/1.1'') = Some (meth, path, query)"
  shows "process_request_buffer k root (http_text meth target hs body) w =
    dispatch_request k \<lparr>rc_method = meth, rc_path = path, rc_query = query,
      rc_content_md5 = (case extract_header_value (header_block hs @ CRLF @ c_str body) (int (length (header_block hs)) - 2)
        ''X-HTTPFS-Content-MD5'' 33 of None \<Rightarrow> [] | Some v \<Rightarrow> v),
      rc_body = body, rc_root_dir = root\<rparr> w"
proof -
  define rl where "rl = meth @ '' '' @ target @ '' HTTP/1.1''"
  obtain ls l where ll: "rl # hs = ls @ [l]" by (metis list.discI rev_exhaust)
  have ok: "list_all line_ok (ls @ [l])" using assms(1,2) by (simp add: rl_def flip: ll)
  have txt_eq: "http_text meth target hs body = (header_block (rl # hs) @ CRLF) @ body" by (simp add: http_text_def rl_def)
  have "CHR 0x00 \<notin> set (header_block (rl # hs) @ CRLF)"
    using header_block_no_nul [OF ok] ll by (simp add: CRLF_def)
  then have buf: "c_str (http_text meth target hs body) = header_block (rl # hs) @ CRLF @ c_str body"
    unfolding txt_eq by (simp add: c_str_append_left del: header_block_simps)
  have block: "header_block (rl # hs) @ CRLF = header_block ls @ l @ HEADER_END"
    unfolding ll by (simp add: HEADER_END_def)
  have he: "strstr (c_str (http_text meth target hs body)) HEADER_END = Some (length (header_block ls @ l))"
    unfolding buf append.assoc [symmetric] block using find_header_end [of ls l "c_str body"] ok by simp
  have hl: "length (header_block ls @ l) + 4 = length (header_block (rl # hs) @ CRLF)"
    using arg_cong [OF block, of length] by simp
  have le: "strstr (c_str (http_text meth target hs body)) CRLF = Some (length rl)"
    unfolding buf using find_line_end [of rl] assms(1) by (simp add: rl_def)
  have tk: "take (length rl) (c_str (http_text meth target hs body)) = rl"
    and dr: "drop (length rl + 2) (c_str (http_text meth target hs body)) = header_block hs @ CRLF @ c_str body"
    unfolding buf by (simp_all add: CRLF_def)
  have body: "drop (length (header_block ls @ l) + 4) (http_text meth target hs body) = body"
    unfolding txt_eq hl by simp
  have e: "int (length (header_block ls @ l)) - int (length rl + 2) = int (length (header_block hs)) - 2"
    using hl by (simp add: CRLF_def)
  show ?thesis
    unfolding process_request_buffer_def Let_def he le option.case tk dr body e content_length_in_def [symmetric]
      announced_length [OF assms(3)]
    using assms(4) by (simp add: rl_def)
qed

subsection \<open>Responses\<close>

definition json_lines :: "nat \<Rightarrow> string list" where
  "json_lines n = [''HTTP/1.1 200 OK'', ''Content-Type: application/json; charset=utf-8'', ''Content-Length: '' @ show_nat n,
     ''Connection: close'']"

definition binary_lines :: "string \<Rightarrow> nat \<Rightarrow> string list" where
  "binary_lines md5 n = [''HTTP/1.1 200 OK'', ''Content-Type: application/octet-stream'', ''X-HTTPFS-Content-MD5: '' @ md5,
     ''Content-Length: '' @ show_nat n, ''Connection: close'']"

lemma send_ok_lines: "send_ok payload = header_block (json_lines (length payload mod 2 ^ 64)) @ CRLF @ payload"
  by (simp add: send_ok_full http_header_json_def json_lines_def show_int_def show_nat.simps digit_char_def
      char_of_def bit_0)

lemma send_binary_lines:
  "length md5 \<le> 32 \<Longrightarrow> send_binary data md5 = header_block (binary_lines md5 (length data mod 2 ^ 64)) @ CRLF @ data"
  by (simp add: send_binary_full http_header_binary_def binary_lines_def)

lemma show_nat_line: "line_ok (a @ show_nat n)" if "CHR 0x0D \<notin> set a" "CHR 0x0A \<notin> set a" "CHR 0x00 \<notin> set a"
proof -
  have "is_digit c" if "c \<in> set (show_nat n)" for c using show_nat_digits that by blast
  moreover have "\<not> is_digit (CHR 0x0D)" "\<not> is_digit (CHR 0x0A)" "\<not> is_digit (CHR 0x00)" by (simp_all add: is_digit_def)
  ultimately have "CHR 0x0D \<notin> set (show_nat n)" "CHR 0x0A \<notin> set (show_nat n)" "CHR 0x00 \<notin> set (show_nat n)" by blast+
  then show ?thesis using that by (simp add: line_ok_def)
qed

lemma json_lines_ok: "list_all line_ok (json_lines n)"
  using show_nat_line [of "''Content-Length: ''" n] by (simp add: json_lines_def line_ok_def)

lemma binary_lines_ok: "CHR 0x0D \<notin> set md5 \<Longrightarrow> CHR 0x0A \<notin> set md5 \<Longrightarrow> CHR 0x00 \<notin> set md5 \<Longrightarrow> list_all line_ok (binary_lines md5 n)"
  using show_nat_line [of "''Content-Length: ''" n] by (simp add: binary_lines_def line_ok_def)

lemma line_split_unique:
  assumes "line_ok a" "line_ok b" "a @ CRLF @ x = b @ CRLF @ y"
  shows "a = b \<and> x = y"
proof -
  have "takeWhile (\<lambda>c. c \<noteq> CHR 0x0D) (l @ CRLF @ z) = l" if "line_ok l" for l z
    using that by (simp add: CRLF_def line_ok_def) (rule takeWhile_append_id, auto)
  then have "a = b" using assms by metis
  with assms(3) show ?thesis by simp
qed

lemma header_block_unique:
  "list_all line_ok a \<Longrightarrow> list_all line_ok b \<Longrightarrow> header_block a @ CRLF @ x = header_block b @ CRLF @ y \<Longrightarrow> a = b \<and> x = y"
proof (induction a arbitrary: b)
  case Nil
  have "b = []"
  proof (cases b)
    case (Cons l ls)
    then obtain c s where "l = c # s" "c \<noteq> CHR 0x0D" using Nil(2) by (cases l) (auto simp: line_ok_def)
    then show ?thesis using Nil(3) Cons by (simp add: CRLF_def)
  qed
  then show ?case using Nil(3) by simp
next
  case (Cons l a)
  obtain l' b' where b: "b = l' # b'"
  proof (cases b)
    case Nil
    obtain c s where "l = c # s" "c \<noteq> CHR 0x0D" using Cons(2) by (cases l) (auto simp: line_ok_def)
    then show ?thesis using Cons(4) Nil by (simp add: CRLF_def)
  qed (rule that)
  have "l = l' \<and> header_block a @ CRLF @ x = header_block b' @ CRLF @ y"
    by (rule line_split_unique) (use Cons(2-4) b in simp_all)
  then show ?case using Cons.IH [of b'] Cons(2,3) b by simp
qed

subsection \<open>What the program relies on in libcurl\<close>

text \<open>A handle is always available, and \<open>curl_easy_escape\<close> is percent encoding.\<close>

definition curl_ready :: "'w runtime \<Rightarrow> bool" where
  "curl_ready rt \<longleftrightarrow> (\<forall>w. curl_easy_init rt w = (True, w)) \<and>
     (\<exists>enc. pct_encoded enc \<and> (\<forall>p. curl_easy_escape rt p = Some (concat (map enc p))))"

definition rq_payload :: "request \<Rightarrow> bytes" where
  "rq_payload rq = (case rq_body rq of None \<Rightarrow> [] | Some b \<Rightarrow> b)"

text \<open>
  \<open>wire\<close> is how libcurl writes a request for the given base URL: request line, header lines with the length of the
  body and the digest line of \<open>CURLOPT_HTTPHEADER\<close> if there is one, and the body.
\<close>

definition writes_requests :: "(request \<Rightarrow> bytes) \<Rightarrow> string \<Rightarrow> bool" where
  "writes_requests wire url \<longleftrightarrow>
     (\<forall>rq endpoint. rq_url rq = url @ endpoint \<and> int (length (rq_payload rq)) \<le> LONG_MAX \<and> list_all line_ok (rq_headers rq) \<longrightarrow>
        (\<exists>hs. wire rq = http_text (if rq_body rq = None then ''GET'' else ''POST'') endpoint hs (rq_payload rq) \<and>
           list_all line_ok hs \<and> announces hs (length (rq_payload rq)) \<and>
           (\<forall>v. filter (\<lambda>l. line_names l ''X-HTTPFS-Content-MD5'') (rq_headers rq) = [''X-HTTPFS-Content-MD5: '' @ v] \<longrightarrow>
              (\<exists>a b. hs = a @ (''X-HTTPFS-Content-MD5: '' @ v) # b \<and>
                 list_all (\<lambda>l. \<not> line_names l ''X-HTTPFS-Content-MD5'') a))))"

text \<open>
  The service with root directory \<open>root\<close> on the kernel \<open>k\<close> answers the requests: libcurl reports the header lines of its
  response, the last one empty, and the bytes behind them in some pieces.
\<close>

definition serves :: "'w runtime \<Rightarrow> (request \<Rightarrow> bytes) \<Rightarrow> 'w kernel \<Rightarrow> string \<Rightarrow> bool" where
  "serves rt wire k root \<longleftrightarrow>
     (\<forall>rq w ls body w'. process_request_buffer k root (wire rq) w = Some (header_block ls @ CRLF @ body, w') \<and>
          list_all line_ok ls \<and> ls \<noteq> [] \<and> hd ls = ''HTTP/1.1 200 OK'' \<longrightarrow>
        (\<exists>chunks. curl_easy_perform rt rq w = (Transferred 200 (map (\<lambda>l. l @ CRLF) ls @ [CRLF]) chunks, w') \<and>
           concat chunks = body))"

lemma write_callbacks: "fold write_callback chunks b = b @ concat chunks"
  by (induction chunks arbitrary: b) (simp_all add: write_callback_def)

lemma json_metadata:
  "header_callbacks (map (\<lambda>l. l @ CRLF) (json_lines n) @ [CRLF]) \<lparr>content_type = [], content_md5 = []\<rparr> =
    Some \<lparr>content_type = ''application/json; charset=utf-8'', content_md5 = []\<rparr>"
  by (simp add: json_lines_def header_callback_def strncaseeq_def tolower_def header_text_def CRLF_def c_str_def)

lemma md5_hex_chars:
  assumes "httpfs_is_valid_md5_hex md5" "c \<in> set md5"
  shows "c \<noteq> CHR 0x0D \<and> c \<noteq> CHR 0x0A \<and> c \<noteq> CHR 0x00 \<and> c \<noteq> CHR '' '' \<and> c \<noteq> CHR 0x09 \<and> c \<noteq> CHR 0x22 \<and> c \<noteq> CHR 0x5C"
proof -
  have "48 \<le> (of_char c :: nat) \<and> (of_char c :: nat) \<le> 57 \<or> 97 \<le> (of_char c :: nat) \<and> (of_char c :: nat) \<le> 102"
    using assms by (auto simp: httpfs_is_valid_md5_hex_def list_all_iff)
  then show ?thesis by auto
qed

lemma header_text_value:
  assumes "v \<noteq> []" "\<forall>c \<in> set v. c \<noteq> CHR 0x0D \<and> c \<noteq> CHR 0x0A \<and> c \<noteq> CHR 0x00 \<and> c \<noteq> CHR '' '' \<and> c \<noteq> CHR 0x09" "length v < n"
  shows "header_text n (CHR '' '' # v @ CRLF) = Some v"
proof -
  have "dropWhile (\<lambda>c. c = CHR '' '' \<or> c = CHR 0x09) (v @ CRLF) = v @ CRLF" using assms(1,2) by (cases v) auto
  moreover obtain x c where v: "v = x @ [c]" using assms(1) by (metis rev_exhaust)
  moreover from this assms(2) have "c \<noteq> CHR 0x0D" "c \<noteq> CHR 0x0A" "c \<noteq> CHR '' ''" "c \<noteq> CHR 0x09" by auto
  moreover have "c_str v = v" using assms(2) by (intro c_str_id) auto
  ultimately show ?thesis using assms(3) by (simp add: header_text_def CRLF_def)
qed

lemma binary_metadata:
  assumes "httpfs_is_valid_md5_hex md5"
  shows "header_callbacks (map (\<lambda>l. l @ CRLF) (binary_lines md5 n) @ [CRLF]) \<lparr>content_type = [], content_md5 = []\<rparr> =
    Some \<lparr>content_type = ''application/octet-stream'', content_md5 = md5\<rparr>"
proof -
  have len: "length md5 = 32" using assms by (simp add: httpfs_is_valid_md5_hex_def)
  then have hval: "header_text 33 (CHR '' '' # md5 @ CRLF) = Some md5"
    using md5_hex_chars [OF assms] by (intro header_text_value) auto
  have md5: "header_callback ((''X-HTTPFS-Content-MD5: '' @ md5) @ CRLF) m = Some (m\<lparr>content_md5 := md5\<rparr>)" for m
    using hval len by (simp add: header_callback_def strncaseeq_def tolower_def)
  have l1: "header_callback (''HTTP/1.1 200 OK'' @ CRLF) m = Some m" for m
    by (simp add: header_callback_def strncaseeq_def tolower_def CRLF_def)
  have l2: "header_callback (''Content-Type: application/octet-stream'' @ CRLF) m = Some (m\<lparr>content_type := ''application/octet-stream''\<rparr>)" for m
    by (simp add: header_callback_def strncaseeq_def tolower_def header_text_def CRLF_def c_str_def)
  have l3: "header_callback ((''Content-Length: '' @ show_nat n) @ CRLF) m = Some m" for m
    by (simp add: header_callback_def strncaseeq_def tolower_def)
  have l4: "header_callback (''Connection: close'' @ CRLF) m = Some m" "header_callback CRLF m = Some m" for m
    by (simp_all add: header_callback_def strncaseeq_def tolower_def CRLF_def)
  have cons: "header_callbacks (h # hs) m = header_callbacks hs m'" if "header_callback h m = Some m'" for h hs m m'
    using that by simp
  have "map (\<lambda>l. l @ CRLF) (binary_lines md5 n) @ [CRLF] = [''HTTP/1.1 200 OK'' @ CRLF, ''Content-Type: application/octet-stream'' @ CRLF,
      (''X-HTTPFS-Content-MD5: '' @ md5) @ CRLF, (''Content-Length: '' @ show_nat n) @ CRLF, ''Connection: close'' @ CRLF, CRLF]"
    by (simp add: binary_lines_def)
  then show ?thesis by (simp only: cons [OF l1] cons [OF l2] cons [OF md5] cons [OF l3] cons [OF l4(1)] cons [OF l4(2)]
      header_callbacks.simps(1) response_metadata.simps)
qed

end
