(* ===== verification/Bodies.thy ===== *)
theory Bodies
  imports Exchange
begin

text \<open>
  The request bodies and queries of the client, as the substring search of the service reads them: each field
  comes back as it was put in.
\<close>

subsection \<open>Fields of a JSON body\<close>

lemma length_escape_simple: "list_all json_simple s \<Longrightarrow> length (json_escape s) \<le> 2 * length s"
proof (induction s)
  case (Cons c s)
  have "length (escape_char c) \<le> 2" using Cons.prems by (auto simp: escape_char_def json_simple_def)
  with Cons show ?case by simp
qed simp

lemma escaped_no_nul: "CHR 0x00 \<notin> set (json_escape s)"
  using json_escape_no_control [of _ s] by force

lemma no_quote_show_int: "CHR 0x22 \<notin> set (show_int i)"
  using show_int_chars [of _ i] by (force simp: is_digit_def)

lemma no_start_number:
  "no_start (show_int i @ [CHR '','']) r (CHR 0x22 # p)"
  by (rule no_start_no_hd) (use no_quote_show_int in simp)


definition plain_text :: "string \<Rightarrow> bool" where
  "plain_text p \<longleftrightarrow> list_all json_simple p \<and> length p < 2047"

text \<open>The text in front of the second field: the first key, an escaped string and a comma.\<close>

definition after_string :: "string \<Rightarrow> string \<Rightarrow> string" where
  "after_string key p = ''{'' @ quoted key @ '':'' @ quoted (json_escape p) @ '',''"

lemma no_start_after_string:
  assumes "plain_key key" "no_start (''{'' @ quoted key' @ '':'') r' (CHR 0x22 # key @ CHR 0x22 # CHR '':'' # q)"
    and "r' = CHR 0x22 # json_escape p @ [CHR 0x22, CHR '',''] @ r"
  shows "no_start (after_string key' p) r (CHR 0x22 # key @ CHR 0x22 # CHR '':'' # q)"
proof -
  have "after_string key' p = (''{'' @ quoted key' @ '':'') @ (CHR 0x22 # json_escape p @ [CHR 0x22, CHR '',''])"
    by (simp add: after_string_def quoted_def)
  moreover have "no_start (''{'' @ quoted key' @ '':'') ((CHR 0x22 # json_escape p @ [CHR 0x22, CHR '','']) @ r) (CHR 0x22 # key @ CHR 0x22 # CHR '':'' # q)"
    using assms(2) unfolding assms(3) by simp
  ultimately show ?thesis using no_start_quoted [OF assms(1), of p r q] by (metis no_start_append)
qed

lemma first_string:
  assumes "plain_text p" "length key + 4 < 128" "CHR 0x22 \<notin> set key" "key \<noteq> []"
  shows "json_get_string (''{'' @ quoted key @ '':'' @ quoted (json_escape p) @ r) key 2048 = Some p"
  using json_get_string_found [of key p 2048 "''{''" r] assms by (simp add: plain_text_def quoted_def)

lemma second_string:
  assumes "plain_text p" "plain_key key" "length key + 4 < 128"
    and "\<And>r. no_start (''{'' @ quoted key' @ '':'') (CHR 0x22 # r) (CHR 0x22 # key @ [CHR 0x22, CHR '':'', CHR 0x22])"
  shows "json_get_string (after_string key' s @ quoted key @ '':'' @ quoted (json_escape p) @ r) key 2048 = Some p"
  using json_get_string_found [of key p 2048 "after_string key' s" r] assms(1,3)
    no_start_after_string [OF assms(2,4) refl] by (simp add: plain_text_def quoted_def)

lemma later_number:
  assumes "plain_key key" "length key + 3 < 128" "LONG_MIN \<le> i" "i \<le> LONG_MAX" "r = [] \<or> \<not> is_digit (hd r)"
    and "\<And>r. no_start (''{'' @ quoted key' @ '':'') (CHR 0x22 # r) (CHR 0x22 # key @ [CHR 0x22, CHR '':''])"
    and "\<And>r. no_start mid r (CHR 0x22 # key @ [CHR 0x22, CHR '':''])"
  shows "json_get_long (after_string key' s @ mid @ quoted key @ '':'' @ show_int i @ r) key = Some i"
  using json_get_long_found [of key i r "after_string key' s @ mid"] assms(2-5,7)
    no_start_after_string [OF assms(1,6) refl] by (simp add: quoted_def)

lemma plain_keys [simp]:
  "plain_key ''path''" "plain_key ''mode''" "plain_key ''size''" "plain_key ''new_path''" "plain_key ''old_path''"
  "plain_key ''atime_sec''" "plain_key ''atime_nsec''" "plain_key ''mtime_sec''" "plain_key ''mtime_nsec''"
  by (simp_all add: plain_key_def)

lemma path_body_read: "plain_text p \<Longrightarrow> json_get_string (path_body (json_escape p)) ''path'' 2048 = Some p"
  unfolding path_body_def by (rule first_string) simp_all

lemma path_mode_body_read:
  assumes "plain_text p" "LONG_MIN \<le> i" "i \<le> LONG_MAX"
  shows "json_get_string (path_mode_body (json_escape p) i) ''path'' 2048 = Some p"
    and "json_get_long (path_mode_body (json_escape p) i) ''mode'' = Some i"
  using first_string [OF assms(1), of "''path''"] later_number [of "''mode''" i "''}''" "''path''" "[]" p] assms
  by (simp_all add: path_mode_body_def after_string_def quoted_def is_digit_def)

lemma truncate_body_read:
  assumes "plain_text p" "LONG_MIN \<le> i" "i \<le> LONG_MAX"
  shows "json_get_string (truncate_body (json_escape p) i) ''path'' 2048 = Some p"
    and "json_get_long (truncate_body (json_escape p) i) ''size'' = Some i"
  using first_string [OF assms(1), of "''path''"] later_number [of "''size''" i "''}''" "''path''" "[]" p] assms
  by (simp_all add: truncate_body_def after_string_def quoted_def is_digit_def)

lemma rename_body_read:
  assumes "plain_text p" "plain_text q"
  shows "json_get_string (rename_body (json_escape p) (json_escape q)) ''old_path'' 2048 = Some p"
    and "json_get_string (rename_body (json_escape p) (json_escape q)) ''new_path'' 2048 = Some q"
  using first_string [OF assms(1), of "''old_path''"] second_string [OF assms(2), of "''new_path''" "''old_path''" p "''}''"]
  by (simp_all add: rename_body_def after_string_def quoted_def)


definition number_field :: "string \<Rightarrow> int \<Rightarrow> string" where
  "number_field key i = quoted key @ '':'' @ show_int i @ '',''"

lemma no_start_number_field:
  assumes "\<And>x. no_start (quoted key' @ '':'') x (CHR 0x22 # p)"
  shows "no_start (number_field key' i) r (CHR 0x22 # p)"
proof -
  have "number_field key' i = (quoted key' @ '':'') @ (show_int i @ [CHR '',''])" by (simp add: number_field_def)
  then show ?thesis using assms no_start_number by (metis no_start_append)
qed

lemma utimens_body_fields:
  "utimens_body (json_escape p) a m = after_string ''path'' p @ number_field ''atime_sec'' (tv_sec a) @
     number_field ''atime_nsec'' (tv_nsec a) @ number_field ''mtime_sec'' (tv_sec m) @
     quoted ''mtime_nsec'' @ '':'' @ show_int (tv_nsec m) @ ''}''"
  by (simp add: utimens_body_def after_string_def number_field_def)

definition time_fits :: "timespec \<Rightarrow> bool" where
  "time_fits t \<longleftrightarrow> LONG_MIN \<le> tv_sec t \<and> tv_sec t \<le> LONG_MAX \<and> LONG_MIN \<le> tv_nsec t \<and> tv_nsec t \<le> LONG_MAX"

lemma utimens_body_read:
  assumes "plain_text p" "time_fits a" "time_fits m"
  shows "json_get_string (utimens_body (json_escape p) a m) ''path'' 2048 = Some p"
    and "json_get_long (utimens_body (json_escape p) a m) ''atime_sec'' = Some (tv_sec a)"
    and "json_get_long (utimens_body (json_escape p) a m) ''atime_nsec'' = Some (tv_nsec a)"
    and "json_get_long (utimens_body (json_escape p) a m) ''mtime_sec'' = Some (tv_sec m)"
    and "json_get_long (utimens_body (json_escape p) a m) ''mtime_nsec'' = Some (tv_nsec m)"
proof -
  show "json_get_string (utimens_body (json_escape p) a m) ''path'' 2048 = Some p"
    using first_string [OF assms(1), of "''path''"] by (simp add: utimens_body_def)
  let ?m1 = "number_field ''atime_sec'' (tv_sec a)" and ?m2 = "number_field ''atime_nsec'' (tv_nsec a)"
    and ?m3 = "number_field ''mtime_sec'' (tv_sec m)"
  have mid: "no_start ?m1 r (CHR 0x22 # ''atime_nsec'' @ [CHR 0x22, CHR '':''])"
    "no_start (?m1 @ ?m2) r (CHR 0x22 # ''mtime_sec'' @ [CHR 0x22, CHR '':''])"
    "no_start (?m1 @ ?m2 @ ?m3) r (CHR 0x22 # ''mtime_nsec'' @ [CHR 0x22, CHR '':''])" for r
    unfolding no_start_append by (intro conjI no_start_number_field; simp add: quoted_def)+
  show "json_get_long (utimens_body (json_escape p) a m) ''atime_sec'' = Some (tv_sec a)"
    using later_number [of "''atime_sec''" "tv_sec a" _ "''path''" "[]" p] assms(2)
    by (simp add: utimens_body_fields number_field_def [of "''atime_sec''"] time_fits_def is_digit_def quoted_def)
  show "json_get_long (utimens_body (json_escape p) a m) ''atime_nsec'' = Some (tv_nsec a)"
    using later_number [of "''atime_nsec''" "tv_nsec a" _ "''path''" ?m1 p] assms(2) mid(1)
    by (simp add: utimens_body_fields number_field_def [of "''atime_nsec''"] time_fits_def is_digit_def quoted_def)
  show "json_get_long (utimens_body (json_escape p) a m) ''mtime_sec'' = Some (tv_sec m)"
    using later_number [of "''mtime_sec''" "tv_sec m" _ "''path''" "?m1 @ ?m2" p] assms(3) mid(2)
    by (simp add: utimens_body_fields number_field_def [of "''mtime_sec''"] time_fits_def is_digit_def quoted_def)
  show "json_get_long (utimens_body (json_escape p) a m) ''mtime_nsec'' = Some (tv_nsec m)"
    using later_number [of "''mtime_nsec''" "tv_nsec m" _ "''path''" "?m1 @ ?m2 @ ?m3" p] assms(3) mid(3)
    by (simp add: utimens_body_fields time_fits_def is_digit_def quoted_def)
qed


subsection \<open>The bodies fit their buffers\<close>

lemma escape_plain_text:
  assumes "plain_text p"
  shows "json_escape_string p (HTTPFS_MAX_PATH * 2) = Some (json_escape p)" "length (json_escape p) \<le> 4092"
  using assms length_escape_simple [of p] by (auto simp: plain_text_def HTTPFS_MAX_PATH_def intro!: json_escape_string_enough)

lemma snprintf_fits: "length s < n \<Longrightarrow> fst (snprintf n s) = s"
  by (simp add: snprintf_def)

lemma no_nul_show_int: "CHR 0x00 \<notin> set (show_int i)"
  using show_int_chars [of _ i] by (force simp: is_digit_def)

lemma path_body_sent:
  assumes "plain_text p"
  shows "fst (snprintf (HTTPFS_MAX_PATH * 2 + 64) (path_body (json_escape p))) = path_body (json_escape p)"
    and "CHR 0x00 \<notin> set (path_body (json_escape p))" "length (path_body (json_escape p)) < 8256"
  using escape_plain_text(2) [OF assms] escaped_no_nul
  by (auto simp: path_body_def HTTPFS_MAX_PATH_def quoted_def intro!: snprintf_fits)

lemma path_mode_body_sent:
  assumes "plain_text p" "LONG_MIN \<le> i" "i \<le> LONG_MAX"
  shows "fst (snprintf (HTTPFS_MAX_PATH * 2 + 64) (path_mode_body (json_escape p) i)) = path_mode_body (json_escape p) i"
    and "CHR 0x00 \<notin> set (path_mode_body (json_escape p) i)" "length (path_mode_body (json_escape p) i) < 8256"
  using escape_plain_text(2) [OF assms(1)] escaped_no_nul no_nul_show_int length_show_int_le [OF assms(2,3)]
  by (auto simp: path_mode_body_def HTTPFS_MAX_PATH_def quoted_def intro!: snprintf_fits)

lemma truncate_body_sent:
  assumes "plain_text p" "LONG_MIN \<le> i" "i \<le> LONG_MAX"
  shows "fst (snprintf (HTTPFS_MAX_PATH * 2 + 64) (truncate_body (json_escape p) i)) = truncate_body (json_escape p) i"
    and "CHR 0x00 \<notin> set (truncate_body (json_escape p) i)" "length (truncate_body (json_escape p) i) < 8256"
  using escape_plain_text(2) [OF assms(1)] escaped_no_nul no_nul_show_int length_show_int_le [OF assms(2,3)]
  by (auto simp: truncate_body_def HTTPFS_MAX_PATH_def quoted_def intro!: snprintf_fits)

lemma rename_body_sent:
  assumes "plain_text p" "plain_text q"
  shows "fst (snprintf (HTTPFS_MAX_PATH * 4 + 64) (rename_body (json_escape p) (json_escape q))) = rename_body (json_escape p) (json_escape q)"
    and "CHR 0x00 \<notin> set (rename_body (json_escape p) (json_escape q))" "length (rename_body (json_escape p) (json_escape q)) < 16448"
  using escape_plain_text(2) [OF assms(1)] escape_plain_text(2) [OF assms(2)] escaped_no_nul
  by (auto simp: rename_body_def HTTPFS_MAX_PATH_def quoted_def intro!: snprintf_fits)

lemma utimens_body_sent:
  assumes "plain_text p" "time_fits a" "time_fits m"
  shows "fst (snprintf (HTTPFS_MAX_PATH * 2 + 256) (utimens_body (json_escape p) a m)) = utimens_body (json_escape p) a m"
    and "CHR 0x00 \<notin> set (utimens_body (json_escape p) a m)" "length (utimens_body (json_escape p) a m) < 8448"
proof -
  have "length (show_int (tv_sec a)) \<le> 20" "length (show_int (tv_nsec a)) \<le> 20" "length (show_int (tv_sec m)) \<le> 20"
    "length (show_int (tv_nsec m)) \<le> 20"
    using assms by (auto simp: time_fits_def intro: length_show_int_le)
  then show "fst (snprintf (HTTPFS_MAX_PATH * 2 + 256) (utimens_body (json_escape p) a m)) = utimens_body (json_escape p) a m"
    "length (utimens_body (json_escape p) a m) < 8448"
    using escape_plain_text(2) [OF assms(1)] by (auto simp: utimens_body_def HTTPFS_MAX_PATH_def quoted_def intro!: snprintf_fits)
  show "CHR 0x00 \<notin> set (utimens_body (json_escape p) a m)"
    using escaped_no_nul no_nul_show_int by (auto simp: utimens_body_def quoted_def)
qed

subsection \<open>Queries\<close>

lemma url_decode_plain:
  assumes "CHR ''%'' \<notin> set s" "CHR ''+'' \<notin> set s" "CHR 0x00 \<notin> set s" "length s < n"
  shows "url_decode s n = Some s"
proof -
  have "length out + length s < n \<Longrightarrow> url_decode_loop s out n = Some (out @ s)" for out
    using assms(1,2) by (induction s arbitrary: out) auto
  then show ?thesis using assms(3,4) by (simp add: url_decode_def)
qed

lemma url_decode_show_int:
  assumes "LONG_MIN \<le> i" "i \<le> LONG_MAX"
  shows "url_decode (show_int i) 64 = Some (show_int i)"
  by (rule url_decode_plain) (use show_int_chars [of _ i] length_show_int_le [OF assms] in \<open>force simp: is_digit_def\<close>)+

lemma pct_length: "pct_encoded enc \<Longrightarrow> length (concat (map enc p)) \<le> 3 * length p"
proof (induction p)
  case (Cons c p)
  have "if url_unreserved c then enc c = [c] else \<exists>h l. enc c = [CHR ''%'', h, l]"
    using Cons.prems [unfolded pct_encoded_def, THEN spec, of c] by (metis (full_types))
  then have "length (enc c) \<le> 3" by (auto split: if_splits)
  with Cons show ?case by simp
qed simp

lemma query_path:
  assumes "pct_encoded enc" "CHR 0x00 \<notin> set p" "3 * length p < 2048" "r = [] \<or> hd r = CHR ''&''"
  shows "query_value (''path='' @ concat (map enc p) @ r) ''path'' 2048 = Some p"
proof -
  have "CHR ''&'' \<notin> set (concat (map enc p))" using pct_encoded_chars [OF assms(1)] by blast
  then show ?thesis
    using query_value_here [of "concat (map enc p)" "''path''" r 2048] url_decode_encoded [OF assms(1,2), of 2048] pct_length [OF assms(1), of p] assms(3,4)
    by simp
qed

lemma query_after_path:
  assumes "pct_encoded enc" "key \<noteq> ''path''"
  shows "query_value (''path='' @ concat (map enc p) @ ''&'' @ r) key n = query_value r key n"
proof -
  have "CHR ''&'' \<notin> set (concat (map enc p))" using pct_encoded_chars [OF assms(1)] by blast
  then show ?thesis using query_value_next [of "concat (map enc p)" "''path''" key r n] assms(2) by simp
qed

lemma query_number:
  assumes "LONG_MIN \<le> i" "i \<le> LONG_MAX" "CHR ''&'' \<notin> set key" "CHR ''='' \<notin> set key" "r = [] \<or> hd r = CHR ''&''"
  shows "query_value (key @ ''='' @ show_int i @ r) key 64 = Some (show_int i)"
proof -
  have "CHR ''&'' \<notin> set (show_int i)" using show_int_chars [of _ i] by (force simp: is_digit_def)
  then show ?thesis
    using query_value_here [of "show_int i" key r 64] url_decode_show_int assms length_show_int_le [OF assms(1,2)] by simp
qed

lemma query_after_number:
  assumes "CHR ''&'' \<notin> set k" "CHR ''='' \<notin> set k" "k \<noteq> key"
  shows "query_value (k @ ''='' @ show_int i @ ''&'' @ r) key n = query_value r key n"
proof -
  have "CHR ''&'' \<notin> set (show_int i)" using show_int_chars [of _ i] by (force simp: is_digit_def)
  then show ?thesis using query_value_next [of "show_int i" k key r n] assms by simp
qed

end
