(* ===== verification/Session.thy ===== *)
theory Session
  imports Wire Bodies
begin

text \<open>
  The client talking to the service. A runtime that is \<open>connected\<close> to the service hands each request of the client to
  \<open>process_request_buffer\<close> and its response back to the client.
\<close>

subsection \<open>Replies with a status\<close>

lemma send_error_payload:
  assumes "LONG_MIN \<le> e" "e \<le> LONG_MAX"
  obtains m where "send_error_json e msg = send_ok (error_payload e m)" "jstr m" "CHR 0x00 \<notin> set m"
proof -
  define m where "m = (case json_escape_string msg 1024 of Some x \<Rightarrow> x | None \<Rightarrow> ''internal error'')"
  have m: "jstr m \<and> CHR 0x00 \<notin> set m \<and> length m < 1024"
    using json_escape_string_SomeD [of msg 1024] escaped_no_nul
    by (cases "json_escape_string msg 1024") (auto simp: m_def intro: jstr_plain)
  then have "send_error_json e msg = send_ok (error_payload e m)"
    using length_error_payload [OF assms, of m]
    by (simp add: send_error_json_def send_ok_def m_def [symmetric] snprintf_def)
  with m that show ?thesis by blast
qed

lemma error_payload_no_nul: "CHR 0x00 \<notin> set m \<Longrightarrow> CHR 0x00 \<notin> set (error_payload e m)"
  using no_nul_show_int by (simp add: error_payload_def quoted_def)

lemma status_error_errno:
  assumes node: "node json T n 0 0 (-1) (JObject kvs)"
    and status: "map_of kvs ''status'' = Some (JString ''error'')"
    and errno: "map_of kvs ''errno'' = Some (JPrim s)" "length s < 64"
  shows "\<exists>m. parse_status_or_error json T n = Fail (set_error (fst (strtol s)) m)"
proof -
  obtain i q where i: "find_object_value json T n 0 ''status'' = Some i" "node json T n i q 0 (JString ''error'')"
    using find_member(2) [OF node status] by auto
  obtain j q' where j: "find_object_value json T n 0 ''errno'' = Some j" "node json T n j q' 0 (JPrim s)"
    using find_member(2) [OF node errno(1)] by auto
  have "snd (token_to_long json (T ! j) EIO) = fst (strtol s)"
    using token_to_string_prim [OF j(2), of 64] errno(2)
    by (simp add: token_to_long_def split: prod.splits)
  then show ?thesis using i j token_equals_string(1) [OF i(2)] by (auto simp: parse_status_or_error_def)
qed

definition is_errno :: "int \<Rightarrow> bool" where
  "is_errno e \<longleftrightarrow> 0 < e \<and> e < 2 ^ 31"

lemma is_errno_long: "is_errno e \<Longrightarrow> LONG_MIN \<le> e \<and> e \<le> LONG_MAX"
  by (simp add: is_errno_def LONG_MIN_def LONG_MAX_def)

lemma neg_errno_set_error:
  assumes "is_errno e"
  shows "neg_errno (set_error e m) = - e"
proof -
  have "sint (word_of_int (- e) :: 32 word) = signed_take_bit 31 (- e)"
    unfolding sint_sbintrunc' by simp
  also have "\<dots> = - e" using assms by (intro signed_take_bit_int_eq_self) (auto simp: is_errno_def)
  finally show ?thesis by (simp add: neg_errno_def set_error_def)
qed

lemma error_document_read:
  assumes "is_errno e" "jstr m" "7 \<le> length tokens" "7 \<le> num"
  obtains n T t where "parse_response_tokens (error_payload e m) tokens num = Ret (n, T)"
    "parse_status_or_error (error_payload e m) T n = Fail (set_error e t)"
proof -
  let ?kvs = "[(''status'', JString ''error''), (''errno'', JPrim (show_int e)), (''message'', JString m)]"
  have e: "fst (strtol (show_int e)) = e" "length (show_int e) < 64"
    using strtol_shown [of e] length_show_int_le [of e] is_errno_long [OF assms(1)] by auto
  have wf: "jwf (JObject ?kvs)" using assms(2) by simp
  obtain n T where p: "parse_response_tokens (jprint (JObject ?kvs)) tokens num = Ret (n, T)"
      "node (jprint (JObject ?kvs)) T n 0 0 (-1) (JObject ?kvs)"
    by (rule parse_response_printed [OF wf _ _ refl, of num tokens]) (use assms(3,4) in simp_all)
  have "\<exists>t. parse_status_or_error (jprint (JObject ?kvs)) T n = Fail (set_error e t)"
    using status_error_errno [OF p(2), of "show_int e"] e by auto
  then obtain t where "parse_status_or_error (jprint (JObject ?kvs)) T n = Fail (set_error e t)" ..
  with p(1) show ?thesis by (rule that [unfolded error_payload_doc])
qed

lemma error_response_read:
  assumes "is_errno e" "jstr m" "7 \<le> length tokens"
  shows "\<exists>t. parse_ok_response (error_payload e m) tokens = Fail (set_error e t)"
    and "\<exists>t. parse_error_response (error_payload e m) tokens = Fail (set_error e t)"
proof -
  show "\<exists>t. parse_ok_response (error_payload e m) tokens = Fail (set_error e t)"
    by (rule error_document_read [OF assms, of 512]) (auto simp: parse_ok_response_def)
  show "\<exists>t. parse_error_response (error_payload e m) tokens = Fail (set_error e t)"
    by (rule error_document_read [OF assms, of 256]) (auto simp: parse_error_response_def)
qed

lemma ok_response_read:
  assumes "length tokens \<ge> 3"
  shows "\<exists>x. parse_ok_response ok_payload tokens = Ret x"
proof -
  obtain n T where "parse_ok_response ok_payload tokens = Ret (n, T)"
    by (rule parse_ok_printed [of "[(''status'', JString ''ok'')]" tokens ok_payload])
      (use assms in \<open>simp_all add: ok_payload_doc status_doc_def\<close>)
  then show ?thesis by blast
qed

subsection \<open>One exchange\<close>

text \<open>
  The interface between the two programs: libcurl is ready, writes the requests of this client and carries the
  responses of this service.
\<close>

text \<open>What FUSE has to answer when the call on the server's file system gives the result.\<close>

definition as_status :: "int option \<times> 'w \<Rightarrow> int option \<times> 'w" where
  "as_status r = (case r of (None, w) \<Rightarrow> (Some 0, w) | (Some e, w) \<Rightarrow> (Some (- e), w))"

definition plain_endpoint :: "string \<Rightarrow> bool" where
  "plain_endpoint s \<longleftrightarrow> s \<noteq> [] \<and> length s < 100 \<and> (\<forall>c \<in> set s. \<not> is_space c \<and> c \<noteq> CHR ''?'' \<and> c \<noteq> CHR 0x00)"

lemma not_space_line: "\<forall>c \<in> set s. \<not> is_space c \<and> c \<noteq> CHR 0x00 \<Longrightarrow> CHR 0x0D \<notin> set s \<and> CHR 0x0A \<notin> set s \<and> CHR 0x00 \<notin> set s"
  by (force simp: is_space_def)

lemma json_header_lines:
  "request_headers (Some ''application/json; charset=utf-8'') None =
     Ret [''Content-Type: application/json; charset=utf-8'', ''Expect:'']"
  by (simp add: request_headers_def)

text \<open>The paths the service accepts, and where they are in its file system.\<close>

definition local_path :: "string \<Rightarrow> string \<Rightarrow> string" where
  "local_path root p = (if p = ''/'' then root else root @ p)"

definition servable :: "string \<Rightarrow> string \<Rightarrow> bool" where
  "servable root p \<longleftrightarrow> (p = ''/'' \<or> clean_path p) \<and> plain_text p \<and> length root + length p < 4096"

lemma resolve_servable: "servable root p \<Longrightarrow> resolve_path root p 4096 = Some (local_path root p)"
  by (cases "p = ''/''") (auto simp: servable_def local_path_def resolve_path_clean, simp add: resolve_path_def snprintf_def)

lemma body_path_read:
  assumes "servable root p" "json_get_string (c_str (rc_body ctx)) key 2048 = Some p" "rc_root_dir ctx = root"
  shows "body_path ctx key = Some (local_path root p)"
  using assms resolve_servable by (simp add: body_path_def)

lemma endpoints:
  "plain_endpoint ''/v1/truncate''" "plain_endpoint ''/v1/rename''" "plain_endpoint ''/v1/utimens''"
  "plain_endpoint ''/v1/create-file''" "plain_endpoint ''/v1/create-dir''" "plain_endpoint ''/v1/remove-file''"
  "plain_endpoint ''/v1/remove-dir''"
  by (simp_all add: plain_endpoint_def is_space_def)

lemma long_max_small: "n < 16448 \<Longrightarrow> int n \<le> LONG_MAX"
  by (simp add: LONG_MAX_def)

locale connected =
  fixes rt :: "'w runtime" and wire :: "request \<Rightarrow> bytes" and client :: httpfs_client
    and k :: "'w kernel" and root :: string
  assumes ready: "curl_ready rt"
    and writes: "writes_requests wire (base_url client)"
    and carried: "serves rt wire k root"
begin

lemma init [simp]: "curl_easy_init rt w = (True, w)"
  using ready by (simp add: curl_ready_def)

lemma exchange:
  assumes len: "length (base_url client @ endpoint) < 1024" "int (length body) \<le> LONG_MAX"
    and meth: "meth = ''GET'' \<and> body = [] \<or> meth = ''POST''"
    and line: "line_ok (meth @ '' '' @ endpoint @ '' HTTP/1.1'')"
      "parse_request_line (meth @ '' '' @ endpoint @ '' HTTP/1.1'') = Some (meth, path, query)"
    and hl: "(if meth = ''POST'' then request_headers ct md5 else Ret []) = Ret hl" "list_all line_ok hl"
    and md5: "\<And>v. md5 = Some v \<Longrightarrow> httpfs_is_valid_md5_hex v \<and>
        filter (\<lambda>l. line_names l ''X-HTTPFS-Content-MD5'') hl = [''X-HTTPFS-Content-MD5: '' @ v]"
    and reply: "\<And>m. md5 = None \<or> md5 = Some m \<Longrightarrow>
      dispatch_request k \<lparr>rc_method = meth, rc_path = path, rc_query = query, rc_content_md5 = m, rc_body = body, rc_root_dir = root\<rparr> w =
        Some (header_block ls @ CRLF @ payload, w')"
    and ls: "list_all line_ok ls" "ls \<noteq> []" "hd ls = ''HTTP/1.1 200 OK''"
    and meta: "header_callbacks (map (\<lambda>l. l @ CRLF) ls @ [CRLF]) \<lparr>content_type = [], content_md5 = []\<rparr> = Some m"
  shows "http_request_ex rt client meth endpoint body ct md5 w = (Ret (200, payload, m), w')"
proof -
  define rq where "rq = \<lparr>rq_url = base_url client @ endpoint, rq_timeout_ms = timeout_ms client, rq_verbose = verbose client,
      rq_headers = hl, rq_body = (if meth = ''POST'' then Some body else None)\<rparr>"
  have pay: "rq_payload rq = body" and m: "(if rq_body rq = None then ''GET'' else ''POST'') = meth"
    using meth by (auto simp: rq_def rq_payload_def)
  have "rq_url rq = base_url client @ endpoint \<and> int (length (rq_payload rq)) \<le> LONG_MAX \<and> list_all line_ok (rq_headers rq)"
    using len(2) hl(2) unfolding pay by (simp add: rq_def)
  then obtain hs where hs: "wire rq = http_text meth endpoint hs body" "list_all line_ok hs" "announces hs (length body)"
      "\<And>v. filter (\<lambda>l. line_names l ''X-HTTPFS-Content-MD5'') hl = [''X-HTTPFS-Content-MD5: '' @ v] \<Longrightarrow>
         \<exists>a b. hs = a @ (''X-HTTPFS-Content-MD5: '' @ v) # b \<and> list_all (\<lambda>l. \<not> line_names l ''X-HTTPFS-Content-MD5'') a"
    using writes [unfolded writes_requests_def, rule_format, of rq endpoint] unfolding pay m
    by (auto simp: rq_def)
  define v where "v = (case extract_header_value (header_block hs @ CRLF @ c_str body) (int (length (header_block hs)) - 2)
        ''X-HTTPFS-Content-MD5'' 33 of None \<Rightarrow> [] | Some v \<Rightarrow> v)"
  have v: "md5 = None \<or> md5 = Some v"
  proof (cases md5)
    case (Some u)
    obtain a b where ab: "hs = a @ (''X-HTTPFS-Content-MD5: '' @ u) # b" "list_all (\<lambda>l. \<not> line_names l ''X-HTTPFS-Content-MD5'') a"
      using hs(4) md5 [OF Some] by blast
    have u: "length u = 32" "\<forall>c \<in> set u. c \<noteq> CHR '' '' \<and> c \<noteq> CHR 0x09"
      using md5 [OF Some] md5_hex_chars [of u] by (auto simp: httpfs_is_valid_md5_hex_def)
    have "extract_header_loop (header_block hs @ CRLF @ c_str body) (int (length (header_block hs)) - 2) 0 ''X-HTTPFS-Content-MD5'' 33 = Some u"
    proof (rule extract_header_found [where a = a and b = b and l = "''X-HTTPFS-Content-MD5: '' @ u" and r = "c_str body"])
      show "line_names (''X-HTTPFS-Content-MD5: '' @ u) ''X-HTTPFS-Content-MD5''"
        by (simp add: line_names_def strncaseeq_def tolower_def)
      show "u = dropWhile (\<lambda>c. c = CHR '' '' \<or> c = CHR 0x09)
          (drop (length ''X-HTTPFS-Content-MD5'' + 1) (''X-HTTPFS-Content-MD5: '' @ u))"
        using u(2) by (cases u) auto
    qed (use hs(2) ab u(1) in simp_all)
    then show ?thesis using Some by (simp add: v_def extract_header_value_def)
  qed simp
  have "process_request_buffer k root (wire rq) w = Some (header_block ls @ CRLF @ payload, w')"
    unfolding hs(1) process_http_text [OF line(1) hs(2,3) line(2)] v_def [symmetric] using reply [OF v] .
  then obtain chunks where "curl_easy_perform rt rq w = (Transferred 200 (map (\<lambda>l. l @ CRLF) ls @ [CRLF]) chunks, w')"
      "concat chunks = payload"
    using carried [unfolded serves_def] ls by blast
  then show ?thesis using len(1) hl(1) meta by (simp add: http_request_ex_def rq_def [symmetric] write_callbacks)
qed


lemma json_exchange:
  assumes "plain_endpoint endpoint" "length (base_url client) < 900" "int (length body) \<le> LONG_MAX" "CHR 0x00 \<notin> set payload"
    and reply: "\<And>m. dispatch_request k \<lparr>rc_method = ''POST'', rc_path = endpoint, rc_query = [], rc_content_md5 = m, rc_body = body,
        rc_root_dir = root\<rparr> w = Some (send_ok payload, w')"
  shows "http_request rt client ''POST'' endpoint body (Some ''application/json; charset=utf-8'') None w = (Ret (200, payload), w')"
proof -
  have e: "\<forall>c \<in> set endpoint. \<not> is_space c \<and> c \<noteq> CHR 0x00" "endpoint \<noteq> []" "CHR ''?'' \<notin> set endpoint" "length endpoint < 100"
    using assms(1) by (auto simp: plain_endpoint_def)
  have "http_request_ex rt client ''POST'' endpoint body (Some ''application/json; charset=utf-8'') None w =
      (Ret (200, payload, \<lparr>content_type = ''application/json; charset=utf-8'', content_md5 = []\<rparr>), w')"
  proof (rule exchange [where path = endpoint and query = "[]" and ls = "json_lines (length payload mod 2 ^ 64)"])
    show "line_ok (''POST'' @ '' '' @ endpoint @ '' HTTP/1.1'')" using not_space_line [OF e(1)] by (simp add: line_ok_def)
    show "parse_request_line (''POST'' @ '' '' @ endpoint @ '' HTTP/1.1'') = Some (''POST'', endpoint, [])"
      by (rule parse_request_line_target(2) [where query = "[]"]) (use e in auto)
    show "(if ''POST'' = ''POST'' then request_headers (Some ''application/json; charset=utf-8'') None else Ret []) =
        Ret [''Content-Type: application/json; charset=utf-8'', ''Expect:'']" by (simp add: json_header_lines)
    show "list_all line_ok [''Content-Type: application/json; charset=utf-8'', ''Expect:'']" by (simp add: line_ok_def)
  qed (use assms e reply send_ok_lines json_lines_ok json_metadata in \<open>simp_all add: json_lines_def\<close>)
  then show ?thesis using assms(4) by (simp add: http_request_def)
qed

lemma post_failed:
  assumes "plain_endpoint endpoint" "length (base_url client) < 900" "int (length body) \<le> LONG_MAX" "is_errno e"
    and reply: "\<And>m. dispatch_request k \<lparr>rc_method = ''POST'', rc_path = endpoint, rc_query = [], rc_content_md5 = m, rc_body = body,
        rc_root_dir = root\<rparr> w = Some (send_error_json e t, w')"
  shows "apfst fuse_status (post_json rt client endpoint body msg w) = (Some (- e), w')"
proof -
  obtain m where m: "send_error_json e t = send_ok (error_payload e m)" "jstr m" "CHR 0x00 \<notin> set m"
    using is_errno_long [OF assms(4)] send_error_payload [of e t] by metis
  from json_exchange [OF assms(1-3) error_payload_no_nul [OF m(3)], of w e w'] reply m(1)
  have "http_request rt client ''POST'' endpoint body (Some ''application/json; charset=utf-8'') None w = (Ret (200, error_payload e m), w')"
    by simp
  with error_response_read(1) [OF assms(4) m(2), of "local_tokens rt 128"] show ?thesis
    by (auto simp: post_json_def fuse_status_def fuse_result_def neg_errno_set_error [OF assms(4)] local_tokens_def)
qed

lemma post_status:
  assumes "plain_endpoint endpoint" "length (base_url client) < 900" "int (length body) \<le> LONG_MAX"
    and reply: "\<And>m. dispatch_request k \<lparr>rc_method = ''POST'', rc_path = endpoint, rc_query = [], rc_content_md5 = m, rc_body = body,
        rc_root_dir = root\<rparr> w = Some (reply_status k r)"
    and errno: "\<And>e w'. r = (Some e, w') \<Longrightarrow> is_errno e"
  shows "apfst fuse_status (post_json rt client endpoint body msg w) = as_status r"
proof (cases r)
  case (Pair res w')
  show ?thesis
  proof (cases res)
    case None
    have "CHR 0x00 \<notin> set ok_payload" by (simp add: ok_payload_def quoted_def)
    from json_exchange [OF assms(1-3) this, of w w'] reply None Pair
    have "http_request rt client ''POST'' endpoint body (Some ''application/json; charset=utf-8'') None w = (Ret (200, ok_payload), w')"
      by (simp add: reply_status_def)
    with ok_response_read [of "local_tokens rt 128"] None Pair show ?thesis
      by (auto simp: post_json_def as_status_def fuse_status_def fuse_result_def local_tokens_def)
  next
    case (Some e)
    with Pair errno post_failed [OF assms(1-3), of e w "k_strerror k e" w' msg] reply show ?thesis
      by (simp add: as_status_def reply_status_def send_errno_def)
  qed
qed

end

end
