(* ===== verification/Mounted.thy ===== *)
theory Mounted
  imports Session
begin

text \<open>
  The mounted file system: each FUSE operation of a client that is connected to a service gives what the
  corresponding system call gives on the file system of the service, below its root directory.
\<close>

text \<open>Creating a file: the descriptor is closed again.\<close>

definition create_exclusive :: "'w kernel \<Rightarrow> string \<Rightarrow> u32 \<Rightarrow> 'w \<Rightarrow> int option \<times> 'w" where
  "create_exclusive k path mode w =
     (case k_open k path (CreateExclusive mode) w of
        (Inl e, w) \<Rightarrow> (Some e, w)
      | (Inr fd, w) \<Rightarrow> (None, k_close k fd w))"

definition refused :: "string \<Rightarrow> string \<Rightarrow> bool" where
  "refused root p \<longleftrightarrow> \<not> list_all json_simple p \<or> plain_text p \<and> resolve_path root p 4096 = None"

lemma refused_body_sent:
  assumes "length (json_escape p) < 8000"
  shows "fst (snprintf (HTTPFS_MAX_PATH * 2 + 64) (path_body (json_escape p))) = path_body (json_escape p)"
    and "fst (snprintf (HTTPFS_MAX_PATH * 2 + 64) (path_mode_body (json_escape p) (uint (mode :: u32)))) = path_mode_body (json_escape p) (uint mode)"
    and "CHR 0x00 \<notin> set (path_body (json_escape p))" "CHR 0x00 \<notin> set (path_mode_body (json_escape p) (uint mode))"
    and "length (path_body (json_escape p)) < 8256" "length (path_mode_body (json_escape p) (uint mode)) < 8256"
proof -
  have "length (show_int (uint mode)) \<le> 20" using length_show_int_le u32_fits by blast
  then show "fst (snprintf (HTTPFS_MAX_PATH * 2 + 64) (path_body (json_escape p))) = path_body (json_escape p)"
    "fst (snprintf (HTTPFS_MAX_PATH * 2 + 64) (path_mode_body (json_escape p) (uint mode))) = path_mode_body (json_escape p) (uint mode)"
    "CHR 0x00 \<notin> set (path_body (json_escape p))" "CHR 0x00 \<notin> set (path_mode_body (json_escape p) (uint mode))"
    "length (path_body (json_escape p)) < 8256" "length (path_mode_body (json_escape p) (uint mode)) < 8256"
    using assms escaped_no_nul no_nul_show_int
    by (auto simp: path_body_def path_mode_body_def HTTPFS_MAX_PATH_def quoted_def intro!: snprintf_fits)
qed

lemma refused_body:
  assumes "refused root p" "rc_root_dir ctx = root" "c_str (rc_body ctx) = path_body (json_escape p) \<or> c_str (rc_body ctx) = path_mode_body (json_escape p) i"
  shows "body_path ctx ''path'' = None"
proof (cases "list_all json_simple p")
  case False
  then obtain c where c: "c \<in> set p" "\<not> json_simple c" by (auto simp: list_all_iff)
  have "json_get_string (''{'' @ CHR 0x22 # ''path'' @ CHR 0x22 # CHR '':'' # CHR 0x22 # json_escape p @ CHR 0x22 # r) ''path'' 2048 = None" for r
    by (rule json_get_string_rejects [OF _ c]) simp_all
  with assms(3) show ?thesis by (auto simp: body_path_def path_body_def path_mode_body_def quoted_def)
next
  case True
  with assms(1) have p: "plain_text p" "resolve_path root p 4096 = None" by (auto simp: refused_def)
  have "json_get_string (path_body (json_escape p)) ''path'' 2048 = Some p" by (rule path_body_read [OF p(1)])
  moreover have "json_get_string (path_mode_body (json_escape p) i) ''path'' 2048 = Some p"
    unfolding path_mode_body_def by (rule first_string [OF p(1)]) simp_all
  ultimately show ?thesis using assms(2,3) p(2) by (auto simp: body_path_def)
qed

context connected begin

lemma truncate_served:
  assumes "servable root p" "length (base_url client) < 900" "LONG_MIN \<le> sz" "sz \<le> LONG_MAX"
    and "\<And>e w'. k_truncate k (local_path root p) sz w = (Some e, w') \<Longrightarrow> is_errno e"
  shows "httpfs_truncate_op rt client p sz w = as_status (k_truncate k (local_path root p) sz w)"
proof -
  have p: "plain_text p" using assms(1) by (simp add: servable_def)
  note body = truncate_body_sent [OF p assms(3,4)] and read = truncate_body_read [OF p assms(3,4)]
  have "dispatch_request k \<lparr>rc_method = ''POST'', rc_path = ''/v1/truncate'', rc_query = [], rc_content_md5 = m,
      rc_body = truncate_body (json_escape p) sz, rc_root_dir = root\<rparr> w = Some (reply_status k (k_truncate k (local_path root p) sz w))" for m
    using body_path_read [OF assms(1)] body(2) read by (simp add: dispatch_request_def handle_truncate_def)
  then show ?thesis
    using post_status [of "''/v1/truncate''" "truncate_body (json_escape p) sz" w] assms(2,5) body(1,3) escape_plain_text(1) [OF p]
    by (simp add: httpfs_truncate_op_def httpfs_truncate_impl_def httpfs_truncate_file_def endpoints long_max_small)
qed


lemma rename_served:
  assumes "servable root p" "servable root q" "length (base_url client) < 900"
    and "\<And>e w'. k_rename k (local_path root p) (local_path root q) w = (Some e, w') \<Longrightarrow> is_errno e"
  shows "httpfs_rename rt client p q 0 w = as_status (k_rename k (local_path root p) (local_path root q) w)"
proof -
  have pq: "plain_text p" "plain_text q" using assms(1,2) by (simp_all add: servable_def)
  note body = rename_body_sent [OF pq] and read = rename_body_read [OF pq]
  have "dispatch_request k \<lparr>rc_method = ''POST'', rc_path = ''/v1/rename'', rc_query = [], rc_content_md5 = m,
      rc_body = rename_body (json_escape p) (json_escape q), rc_root_dir = root\<rparr> w =
      Some (reply_status k (k_rename k (local_path root p) (local_path root q) w))" for m
    using body_path_read [OF assms(1)] body_path_read [OF assms(2)] body(2) read by (simp add: dispatch_request_def handle_rename_def)
  then show ?thesis
    using post_status [of "''/v1/rename''" "rename_body (json_escape p) (json_escape q)" w] assms(3,4) body(1,3)
      escape_plain_text(1) [OF pq(1)] escape_plain_text(1) [OF pq(2)]
    by (simp add: httpfs_rename_def httpfs_rename_impl_def httpfs_rename_path_def endpoints long_max_small)
qed

lemma utimens_served:
  assumes "servable root p" "time_fits a" "time_fits m" "length (base_url client) < 900"
    and "\<And>e w'. k_utimensat k (local_path root p) a m w = (Some e, w') \<Longrightarrow> is_errno e"
  shows "httpfs_utimens rt client p (Some (a, m)) w = as_status (k_utimensat k (local_path root p) a m w)"
proof -
  have p: "plain_text p" using assms(1) by (simp add: servable_def)
  have ts: "\<lparr>tv_sec = tv_sec t, tv_nsec = tv_nsec t\<rparr> = t" for t :: timespec by (cases t) simp
  note body = utimens_body_sent [OF p assms(2,3)] and read = utimens_body_read [OF p assms(2,3)]
  have "dispatch_request k \<lparr>rc_method = ''POST'', rc_path = ''/v1/utimens'', rc_query = [], rc_content_md5 = x,
      rc_body = utimens_body (json_escape p) a m, rc_root_dir = root\<rparr> w = Some (reply_status k (k_utimensat k (local_path root p) a m w))" for x
    using body_path_read [OF assms(1)] body(2) read by (simp add: dispatch_request_def handle_utimens_def ts)
  then show ?thesis
    using post_status [of "''/v1/utimens''" "utimens_body (json_escape p) a m" w] assms(4,5) body(1,3) escape_plain_text(1) [OF p]
    by (simp add: httpfs_utimens_def httpfs_utimens_impl_def httpfs_update_times_def endpoints long_max_small)
qed

lemma remove_served:
  assumes "servable root p" "length (base_url client) < 900"
  shows "(\<And>e w'. k_unlink k (local_path root p) w = (Some e, w') \<Longrightarrow> is_errno e) \<Longrightarrow>
      httpfs_unlink rt client p w = as_status (k_unlink k (local_path root p) w)"
    and "(\<And>e w'. k_rmdir k (local_path root p) w = (Some e, w') \<Longrightarrow> is_errno e) \<Longrightarrow>
      httpfs_rmdir rt client p w = as_status (k_rmdir k (local_path root p) w)"
proof -
  have p: "plain_text p" using assms(1) by (simp add: servable_def)
  note body = path_body_sent [OF p] and read = path_body_read [OF p]
  have "dispatch_request k \<lparr>rc_method = ''POST'', rc_path = ''/v1/remove-file'', rc_query = [], rc_content_md5 = m,
      rc_body = path_body (json_escape p), rc_root_dir = root\<rparr> w = Some (reply_status k (k_unlink k (local_path root p) w))"
    "dispatch_request k \<lparr>rc_method = ''POST'', rc_path = ''/v1/remove-dir'', rc_query = [], rc_content_md5 = m,
      rc_body = path_body (json_escape p), rc_root_dir = root\<rparr> w = Some (reply_status k (k_rmdir k (local_path root p) w))" for m
    using body_path_read [OF assms(1)] body(2) read by (simp_all add: dispatch_request_def handle_remove_file_def handle_remove_dir_def)
  note post = post_status [OF _ assms(2) _ this(1)] post_status [OF _ assms(2) _ this(2)]
  show "httpfs_unlink rt client p w = as_status (k_unlink k (local_path root p) w)"
    if "\<And>e w'. k_unlink k (local_path root p) w = (Some e, w') \<Longrightarrow> is_errno e"
    using post(1) that body(1,3) escape_plain_text(1) [OF p]
    by (simp add: httpfs_unlink_def httpfs_remove_file_def post_path_only_def endpoints long_max_small)
  show "httpfs_rmdir rt client p w = as_status (k_rmdir k (local_path root p) w)"
    if "\<And>e w'. k_rmdir k (local_path root p) w = (Some e, w') \<Longrightarrow> is_errno e"
    using post(2) that body(1,3) escape_plain_text(1) [OF p]
    by (simp add: httpfs_rmdir_def httpfs_remove_dir_def post_path_only_def endpoints long_max_small)
qed

lemma create_served:
  assumes "servable root p" "length (base_url client) < 900"
  shows "(\<And>e w'. create_exclusive k (local_path root p) mode w = (Some e, w') \<Longrightarrow> is_errno e) \<Longrightarrow>
      httpfs_create rt client p mode w = as_status (create_exclusive k (local_path root p) mode w)"
    and "(\<And>e w'. k_mkdir k (local_path root p) mode w = (Some e, w') \<Longrightarrow> is_errno e) \<Longrightarrow>
      httpfs_mkdir rt client p mode w = as_status (k_mkdir k (local_path root p) mode w)"
proof -
  have p: "plain_text p" using assms(1) by (simp add: servable_def)
  note fits = u32_fits [of mode]
  note body = path_mode_body_sent [OF p, of "uint mode"] and read = path_mode_body_read [OF p, of "uint mode"]
  have "dispatch_request k \<lparr>rc_method = ''POST'', rc_path = ''/v1/create-file'', rc_query = [], rc_content_md5 = m,
      rc_body = path_mode_body (json_escape p) (uint mode), rc_root_dir = root\<rparr> w =
      Some (reply_status k (create_exclusive k (local_path root p) mode w))"
    "dispatch_request k \<lparr>rc_method = ''POST'', rc_path = ''/v1/create-dir'', rc_query = [], rc_content_md5 = m,
      rc_body = path_mode_body (json_escape p) (uint mode), rc_root_dir = root\<rparr> w =
      Some (reply_status k (k_mkdir k (local_path root p) mode w))" for m
    using body_path_read [OF assms(1)] body(2) read fits
    by (simp_all add: dispatch_request_def handle_create_file_def handle_create_dir_def create_exclusive_def reply_status_def
        split: prod.splits sum.splits)
  note post = post_status [OF _ assms(2) _ this(1)] post_status [OF _ assms(2) _ this(2)]
  show "httpfs_create rt client p mode w = as_status (create_exclusive k (local_path root p) mode w)"
    if "\<And>e w'. create_exclusive k (local_path root p) mode w = (Some e, w') \<Longrightarrow> is_errno e"
    using post(1) that body(1,3) fits escape_plain_text(1) [OF p]
    by (simp add: httpfs_create_def httpfs_create_file_def post_path_only_def endpoints long_max_small)
  show "httpfs_mkdir rt client p mode w = as_status (k_mkdir k (local_path root p) mode w)"
    if "\<And>e w'. k_mkdir k (local_path root p) mode w = (Some e, w') \<Longrightarrow> is_errno e"
    using post(2) that body(1,3) fits escape_plain_text(1) [OF p]
    by (simp add: httpfs_mkdir_def httpfs_create_dir_def post_path_only_def endpoints long_max_small)
qed

text \<open>
  Paths that the service does not accept: a control character other than tab, newline and return, or a path that
  \<open>resolve_path\<close> refuses.
\<close>

lemma refused_served:
  assumes "refused root p" "length (json_escape p) < 8000" "length (base_url client) < 900"
  shows "httpfs_unlink rt client p w = (Some (- EINVAL), w)" "httpfs_rmdir rt client p w = (Some (- EINVAL), w)"
    "httpfs_create rt client p mode w = (Some (- EINVAL), w)" "httpfs_mkdir rt client p mode w = (Some (- EINVAL), w)"
proof -
  have e: "is_errno EINVAL" by (simp add: is_errno_def EINVAL_def)
  have esc: "json_escape_string p (HTTPFS_MAX_PATH * 2) = Some (json_escape p)"
    using assms(2) by (intro json_escape_string_enough) (simp add: HTTPFS_MAX_PATH_def)
  note sent = refused_body_sent(1-5) [OF assms(2)] refused_body_sent(6) [OF assms(2), of mode]
  note refused = refused_body [OF assms(1), where i = "uint mode"]
  note post = post_failed [OF _ assms(3) _ e, where w = w and w' = w and t = "''invalid remove-file body''"]
    post_failed [OF _ assms(3) _ e, where w = w and w' = w and t = "''invalid remove-dir body''"]
    post_failed [OF _ assms(3) _ e, where w = w and w' = w and t = "''invalid create-file body''"]
    post_failed [OF _ assms(3) _ e, where w = w and w' = w and t = "''invalid create-dir body''"]
  show "httpfs_unlink rt client p w = (Some (- EINVAL), w)"
    using post(1) [of "''/v1/remove-file''" "path_body (json_escape p)"] sent refused esc
    by (simp add: httpfs_unlink_def httpfs_remove_file_def post_path_only_def dispatch_request_def handle_remove_file_def endpoints long_max_small)
  show "httpfs_rmdir rt client p w = (Some (- EINVAL), w)"
    using post(2) [of "''/v1/remove-dir''" "path_body (json_escape p)"] sent refused esc
    by (simp add: httpfs_rmdir_def httpfs_remove_dir_def post_path_only_def dispatch_request_def handle_remove_dir_def endpoints long_max_small)
  show "httpfs_create rt client p mode w = (Some (- EINVAL), w)"
    using post(3) [of "''/v1/create-file''" "path_mode_body (json_escape p) (uint mode)"] sent refused esc
    by (simp add: httpfs_create_def httpfs_create_file_def post_path_only_def dispatch_request_def handle_create_file_def endpoints long_max_small)
  show "httpfs_mkdir rt client p mode w = (Some (- EINVAL), w)"
    using post(4) [of "''/v1/create-dir''" "path_mode_body (json_escape p) (uint mode)"] sent refused esc
    by (simp add: httpfs_mkdir_def httpfs_create_dir_def post_path_only_def dispatch_request_def handle_create_dir_def endpoints long_max_small)
qed

end

end
