(* ===== verification/Mounted_Get.thy ===== *)
theory Mounted_Get
  imports Mounted
begin

text \<open>
  The operations of the mounted file system that use GET requests: attributes and directory listings.
\<close>

subsection \<open>A GET exchange\<close>

definition query_ok :: "string \<Rightarrow> bool" where
  "query_ok s \<longleftrightarrow> (\<forall>c \<in> set s. \<not> is_space c \<and> c \<noteq> CHR 0x00)"

lemma query_ok_append [simp]: "query_ok (a @ b) \<longleftrightarrow> query_ok a \<and> query_ok b"
  by (auto simp: query_ok_def)

lemma hex_value_no_nul: "0 \<le> hex_value c \<Longrightarrow> c \<noteq> CHR 0x00"
  by (auto simp: hex_value_def)

lemma query_ok_encoded:
  assumes "pct_encoded enc"
  shows "query_ok (concat (map enc p))"
proof -
  have "x \<noteq> CHR 0x00" if x: "x \<in> set (enc c)" for x c
  proof (cases "url_unreserved c")
    case True
    then have "enc c = [c]" using assms [unfolded pct_encoded_def, THEN spec, of c] by simp
    moreover have "c \<noteq> CHR 0x00" using True by (auto simp: url_unreserved_def)
    ultimately show ?thesis using x by simp
  next
    case False
    then obtain h l where hl: "enc c = [CHR ''%'', h, l]" "hex_value h = int (of_char c div 16)" "hex_value l = int (of_char c mod 16)"
      using assms [unfolded pct_encoded_def, THEN spec, of c] by auto
    then have "0 \<le> hex_value h" "0 \<le> hex_value l" by (simp_all add: of_nat_mod zmod_int)
    then show ?thesis using x hl(1) hex_value_no_nul by auto
  qed
  then show ?thesis using pct_encoded_chars [OF assms] by (auto simp: query_ok_def)
qed

lemma query_ok_show_int: "query_ok (show_int i)"
  using show_int_chars [of _ i] by (force simp: query_ok_def is_digit_def is_space_def)

lemma get_endpoints: "plain_endpoint ''/v1/meta''" "plain_endpoint ''/v1/list''" "plain_endpoint ''/v1/read''"
  by (simp_all add: plain_endpoint_def is_space_def)

lemma plain_text_no_nul: "plain_text p \<Longrightarrow> CHR 0x00 \<notin> set p"
  by (auto simp: plain_text_def list_all_iff json_simple_def)

lemma no_nul_show_nat: "CHR 0x00 \<notin> set (show_nat n)"
  using show_nat_digits [of _ n] by (force simp: is_digit_def)

lemma meta_payload_no_nul: "CHR 0x00 \<notin> set p \<Longrightarrow> CHR 0x00 \<notin> set (meta_payload p st)"
  using no_nul_show_nat no_nul_show_int by (simp add: meta_payload_def quoted_def)

context connected begin

lemma get_exchange:
  assumes "plain_endpoint path" "query_ok query" "length (base_url client) + length path + length query + 1 < 1024"
    and reply: "\<And>m. dispatch_request k \<lparr>rc_method = ''GET'', rc_path = path, rc_query = query, rc_content_md5 = m, rc_body = [],
        rc_root_dir = root\<rparr> w = Some (header_block ls @ CRLF @ payload, w')"
    and ls: "list_all line_ok ls" "ls \<noteq> []" "hd ls = ''HTTP/1.1 200 OK''"
    and meta: "header_callbacks (map (\<lambda>l. l @ CRLF) ls @ [CRLF]) \<lparr>content_type = [], content_md5 = []\<rparr> = Some m"
  shows "http_request_ex rt client ''GET'' (path @ CHR ''?'' # query) [] None None w = (Ret (200, payload, m), w')"
proof -
  have e: "\<forall>c \<in> set (path @ query). \<not> is_space c \<and> c \<noteq> CHR 0x00" "path \<noteq> []" "CHR ''?'' \<notin> set path"
    using assms(1,2) by (auto simp: plain_endpoint_def query_ok_def)
  show ?thesis
  proof (rule exchange [where path = path and query = query and ls = ls and hl = "[]"])
    show "line_ok (''GET'' @ '' '' @ (path @ CHR ''?'' # query) @ '' HTTP/1.1'')"
      using not_space_line [OF e(1)] by (simp add: line_ok_def)
    show "parse_request_line (''GET'' @ '' '' @ (path @ CHR ''?'' # query) @ '' HTTP/1.1'') = Some (''GET'', path, query)"
      by (rule parse_request_line_target(1)) (use e assms(3) in auto)
  qed (use assms in \<open>simp_all add: LONG_MAX_def\<close>)
qed

lemma simple_get_served:
  assumes "plain_endpoint pre" "length (base_url client) + length pre + 3 * length p + 6 < 1024" "CHR 0x00 \<notin> set payload"
    and reply: "\<And>m q. query_value q ''path'' 2048 = Some p \<Longrightarrow>
      dispatch_request k \<lparr>rc_method = ''GET'', rc_path = pre, rc_query = q, rc_content_md5 = m, rc_body = [],
        rc_root_dir = root\<rparr> w = Some (send_ok payload, w')"
    and p: "CHR 0x00 \<notin> set p"
  shows "simple_get rt client pre p msg1 msg2 w = (Ret payload, w')"
proof -
  obtain enc where enc: "pct_encoded enc" "\<And>p. curl_easy_escape rt p = Some (concat (map enc p))"
    using ready by (auto simp: curl_ready_def)
  let ?q = "''path='' @ concat (map enc p)"
  note len = pct_length [OF enc(1), of p]
  have "query_value (''path='' @ concat (map enc p) @ []) ''path'' 2048 = Some p"
    by (rule query_path [OF enc(1) p]) (use assms(2) in simp_all)
  then have q: "query_value ?q ''path'' 2048 = Some p" by simp
  have "http_request_ex rt client ''GET'' (pre @ CHR ''?'' # ?q) [] None None w =
      (Ret (200, payload, \<lparr>content_type = ''application/json; charset=utf-8'', content_md5 = []\<rparr>), w')"
  proof (rule get_exchange [OF assms(1), where ls = "json_lines (length payload mod 2 ^ 64)"])
    have "query_ok ''path=''" by (simp add: query_ok_def is_space_def)
    then show "query_ok ?q" using query_ok_encoded [OF enc(1), of p] by (simp only: query_ok_append simp_thms)
  qed (use assms(2) len reply [OF q] send_ok_lines json_lines_ok json_metadata in \<open>simp_all add: json_lines_def\<close>)
  moreover have "build_simple_get_endpoint rt pre p 1024 w = (Some (pre @ CHR ''?'' # ?q), w)"
    using assms(2) len enc(2) by (simp add: build_simple_get_endpoint_def escaped_endpoint_def snprintf_def)
  ultimately show ?thesis using assms(3) by (simp add: simple_get_def http_request_def)
qed


text \<open>A service that answers with an errno.\<close>

lemma error_get_served:
  assumes e: "is_errno e" and "plain_endpoint pre" "length (base_url client) + length pre + 3 * length p + 6 < 1024" "CHR 0x00 \<notin> set p"
    and reply: "\<And>m q. query_value q ''path'' 2048 = Some p \<Longrightarrow>
      dispatch_request k \<lparr>rc_method = ''GET'', rc_path = pre, rc_query = q, rc_content_md5 = m, rc_body = [],
        rc_root_dir = root\<rparr> w = Some (send_errno k e, w')"
  shows "\<exists>m. (\<forall>a b. simple_get rt client pre p a b w = (Ret (error_payload e m), w')) \<and> jstr m"
proof -
  obtain m where m: "send_errno k e = send_ok (error_payload e m)" "jstr m" "CHR 0x00 \<notin> set m"
    using is_errno_long [OF e] send_error_payload [of e "k_strerror k e"] unfolding send_errno_def by metis
  have "simple_get rt client pre p a b w = (Ret (error_payload e m), w')" for a b
    by (rule simple_get_served [OF assms(2,3) error_payload_no_nul [OF m(3)] _ assms(4)]) (use reply m(1) in simp)
  with m(2) show ?thesis by blast
qed

lemma getattr_served:
  assumes "servable root p" "CHR 0x22 \<notin> set p" "CHR 0x5C \<notin> set p" "length (base_url client) + 3 * length p < 1000"
    and "\<And>e w'. k_lstat k (local_path root p) w = (Inl e, w') \<Longrightarrow> is_errno e"
    and "\<And>st w'. k_lstat k (local_path root p) w = (Inr st, w') \<Longrightarrow> stat_fits st \<and> k_malloc k (length p + 256)"
  shows "httpfs_getattr_impl rt client p w =
    (case k_lstat k (local_path root p) w of
       (Inl e, w') \<Rightarrow> (Some (- e, zero_stat), w')
     | (Inr st, w') \<Rightarrow> (Some (0, st), w'))"
proof -
  have p: "CHR 0x00 \<notin> set p" using plain_text_no_nul assms(1) by (simp add: servable_def)
  have tokens: "length (local_tokens rt 512) = 512" by (simp add: local_tokens_def)
  obtain r w' where r: "k_lstat k (local_path root p) w = (r, w')" by fastforce
  show ?thesis
  proof (cases r)
    case (Inl e)
    with r assms(5) have e: "is_errno e" by blast
    obtain m where m: "\<And>a b. simple_get rt client ''/v1/meta'' p a b w = (Ret (error_payload e m), w')" "jstr m"
      using error_get_served [OF e get_endpoints(1), of p w w'] assms(4) p r Inl resolve_servable [OF assms(1)]
      by (auto simp: dispatch_request_def handle_meta_def)
    with error_response_read(1) [OF e m(2), of "local_tokens rt 512"] tokens r Inl show ?thesis
      by (auto simp: httpfs_getattr_impl_def httpfs_get_meta_def fuse_result_def neg_errno_set_error [OF e])
  next
    case (Inr st)
    with r assms(6) have st: "stat_fits st" "k_malloc k (length p + 256)" by blast+
    then have full: "stat_to_json p st (length p + 256) = meta_payload p st"
      using length_meta_payload [of st p] by (simp add: stat_to_json_def snprintf_def stat_fits_def)
    have get: "simple_get rt client ''/v1/meta'' p a b w = (Ret (meta_payload p st), w')" for a b
      by (rule simple_get_served)
        (use assms(4) meta_payload_no_nul [OF p] p r Inr st(2) full resolve_servable [OF assms(1)] in
          \<open>simp_all add: get_endpoints dispatch_request_def handle_meta_def\<close>)
    let ?kvs = "[(''status'', JString ''ok''), (''meta'', meta_doc p st)]"
    have doc: "meta_payload p st = jprint (JObject ?kvs)" by (simp add: meta_payload_doc status_doc_def)
    have wf: "jwf (JObject ?kvs)" using assms(2,3) by (simp add: meta_doc_def jstr_plain)
    obtain n T where parsed: "parse_ok_response (meta_payload p st) (local_tokens rt 512) = Ret (n, T)"
        "node (meta_payload p st) T n 0 0 (-1) (JObject ?kvs)"
      by (rule parse_ok_printed [OF wf _ _ doc, of "local_tokens rt 512"]) (use tokens in \<open>simp_all add: meta_doc_def\<close>)
    obtain i q where i: "find_object_value (meta_payload p st) T n 0 ''meta'' = Some i"
        "node (meta_payload p st) T n i q 0 (meta_doc p st)"
      using find_member(2) [OF parsed(2), of "''meta''" "meta_doc p st"] by auto
    have "length p < HTTPFS_MAX_PATH" using assms(1) by (simp add: servable_def plain_text_def HTTPFS_MAX_PATH_def)
    from parse_meta_printed [OF i(2) st(1) this] get parsed(1) i(1) r Inr
    show ?thesis by (simp add: httpfs_getattr_impl_def httpfs_get_meta_def fuse_result_def stat_of_meta_def)
  qed
qed

text \<open>Opening a file only asks for its attributes.\<close>

lemma open_getattr: "httpfs_open rt client p w = apfst (map_option fst) (httpfs_getattr_impl rt client p w)"
  by (cases "fst (httpfs_get_meta rt client p w)")
    (simp_all add: httpfs_open_def httpfs_getattr_impl_def fuse_status_def fuse_result_def case_prod_unfold)

end

end
