(* ===== verification/Listing.thy ===== *)
theory Listing
  imports Mounted_Get
begin

text \<open>
  Directory listings from \<open>readdir\<close> on the server to the \<open>filler\<close> of FUSE: the service prints a complete document or
  reports an error, and the client reads the names of a document that has at most 101 entries.
\<close>

subsection \<open>The document of the service\<close>

text \<open>
  What an open directory gives: \<open>dir_stream k path dir w es w'\<close> when \<open>readdir\<close>, called from the world \<open>w\<close> on, gives the names
  of \<open>es\<close> in their order until it gives none, with the type that \<open>lstat\<close> tells of each name before the next is read.
\<close>

inductive dir_stream :: "'w kernel \<Rightarrow> string \<Rightarrow> int \<Rightarrow> 'w \<Rightarrow> (string \<times> string) list \<Rightarrow> 'w \<Rightarrow> bool" for k path dir where
  stop: "k_readdir k dir w = (None, w') \<Longrightarrow> dir_stream k path dir w [] w'"
| entry: "k_readdir k dir w = (Some n, w1) \<Longrightarrow> k_lstat k (path @ ''/'' @ n) w1 = (r, w2) \<Longrightarrow> dir_stream k path dir w2 es w' \<Longrightarrow>
    dir_stream k path dir w ((n, list_type r) # es) w'"

inductive_cases dir_streamE: "dir_stream k path dir w es w'"

lemma list_type_cases: "list_type r = ''dir'' \<or> list_type r = ''file''"
  by (simp add: list_type_def split: sum.split)

lemma dir_stream_types: "dir_stream k path dir w es w' \<Longrightarrow> e \<in> set es \<Longrightarrow> snd e = ''dir'' \<or> snd e = ''file''"
proof (induction rule: dir_stream.induct)
  case (entry w n w1 r w2 es w')
  then show ?case using list_type_cases [of r] by auto
qed simp

text \<open>The entries as the document holds them, with escaped names.\<close>

abbreviation escaped_entries :: "(string \<times> string) list \<Rightarrow> (string \<times> string) list" where
  "escaped_entries es \<equiv> map (apfst json_escape) es"

abbreviation sep_of :: "bool \<Rightarrow> string" where
  "sep_of is_first \<equiv> (if is_first then [] else [CHR '',''])"

lemma list_entry_doc: "list_entry is_first e ty = sep_of is_first @ jprint (entry_doc (e, ty))"
  by (simp add: list_entry_def entry_doc_def quoted_def)

lemma append_payload_fits:
  "length payload + length s < SERVER_LIST_PAYLOAD_SIZE \<Longrightarrow>
   append_payload (payload, length payload) s = (payload @ s, length (payload @ s))"
  by (simp add: append_payload_def snprintf_def)

text \<open>The loop ends with the directory: it has reported an error or appended the complete text of all entries.\<close>

lemma list_entries_complete:
  assumes "dir_stream k path dir w es w'" "length payload + 64 < SERVER_LIST_PAYLOAD_SIZE"
  shows "(\<exists>e m w''. list_entries k path dir (payload, length payload) is_first w = Some (Inl (send_error_json e m), w'')) \<or>
    (\<exists>document. document = payload @ jelems (sep_of is_first) (map entry_doc (escaped_entries es)) \<and> length document + 64 < SERVER_LIST_PAYLOAD_SIZE \<and>
       list_entries k path dir (payload, length payload) is_first w = Some (Inr (document, length document), w'))"
  using assms
proof (induction arbitrary: payload is_first rule: dir_stream.induct)
  case (stop w w')
  then show ?case by (subst (1 2) list_entries.simps) simp
next
  case (entry w n w1 r w2 es w')
  let ?t = "list_entry is_first (json_escape n) (list_type r)"
  have step: "list_entries k path dir (payload, length payload) is_first w =
      (if length (path @ ''/'' @ n) \<ge> 4096 then Some (Inl (send_error_json ENAMETOOLONG ''entry path too long''), k_closedir k dir w1)
       else case json_escape_string n 512 of
          None \<Rightarrow> Some (Inl (send_error_json EIO ''entry name escape failed''), k_closedir k dir w2)
        | Some escaped \<Rightarrow>
            (let pp = append_payload (payload, length payload) (list_entry is_first escaped (list_type r))
             in if snd pp + 64 \<ge> SERVER_LIST_PAYLOAD_SIZE then Some (Inl (send_error_json ENOBUFS ''too many entries''), k_closedir k dir w2)
                else list_entries k path dir pp False w2))"
    using entry.hyps(1,2) by (subst list_entries.simps) (simp add: Let_def)
  show ?case
  proof (cases "length (path @ ''/'' @ n) < 4096 \<and> json_escape_string n 512 \<noteq> None \<and>
      length (payload @ ?t) + 64 < SERVER_LIST_PAYLOAD_SIZE")
    case False
    then show ?thesis unfolding step
      using json_escape_string_SomeD [of n 512] by (auto simp: Let_def append_payload_def split: option.split)
  next
    case True
    then have esc: "json_escape_string n 512 = Some (json_escape n)" using json_escape_string_SomeD [of n 512] by auto
    have "append_payload (payload, length payload) ?t = (payload @ ?t, length (payload @ ?t))"
      using True by (intro append_payload_fits) simp
    then have "list_entries k path dir (payload, length payload) is_first w =
        list_entries k path dir (payload @ ?t, length (payload @ ?t)) False w2"
      unfolding step using True esc by simp
    with entry.IH [of "payload @ ?t" False] True show ?thesis by (simp add: list_entry_doc)
  qed
qed

lemma list_head_length: "length list_head = 26"
  by (simp add: list_head_def quoted_def)

lemma list_head_doc: "list_head @ jelems [] (map entry_doc es) @ '']}'' = jprint (list_doc es)"
  by (simp add: list_head_def list_doc_def status_doc_def quoted_def)

text \<open>A listing that fits: no path, name or total length exceeds its limit.\<close>

definition listable :: "string \<Rightarrow> string list \<Rightarrow> bool" where
  "listable dir names \<longleftrightarrow> (\<forall>n \<in> set names. length dir + 1 + length n < 4096 \<and> length (json_escape n) < 256) \<and>
     sum_list (map (\<lambda>n. length (json_escape n) + 30) names) + 100 < SERVER_LIST_PAYLOAD_SIZE"

lemma list_entries_succeeds:
  assumes "dir_stream k path dir w es w'"
    and "\<forall>n \<in> set (map fst es). length path + 1 + length n < 4096 \<and> length (json_escape n) < 256"
    and "length payload + sum_list (map (\<lambda>n. length (json_escape n) + 30) (map fst es)) + 64 < SERVER_LIST_PAYLOAD_SIZE"
  shows "\<exists>pp. list_entries k path dir (payload, length payload) is_first w = Some (Inr pp, w')"
  using assms
proof (induction arbitrary: payload is_first rule: dir_stream.induct)
  case (stop w w')
  then show ?case by (subst list_entries.simps) simp
next
  case (entry w n w1 r w2 es w')
  have esc: "json_escape_string n 512 = Some (json_escape n)" using entry.prems(1) by (intro json_escape_string_enough) simp
  let ?t = "list_entry is_first (json_escape n) (list_type r)"
  have t: "length ?t \<le> length (json_escape n) + 30"
    using list_type_cases [of r] by (auto simp: list_entry_def quoted_def)
  then have pp: "append_payload (payload, length payload) ?t = (payload @ ?t, length (payload @ ?t))"
    using entry.prems(2) by (intro append_payload_fits) simp
  have "\<exists>pp. list_entries k path dir (payload @ ?t, length (payload @ ?t)) False w2 = Some (Inr pp, w')"
    by (rule entry.IH) (use entry.prems t in auto)
  moreover have "length (payload @ ?t) + 64 < SERVER_LIST_PAYLOAD_SIZE" using entry.prems(2) t by simp
  ultimately show ?case using entry.prems(1) entry.hyps(1,2) esc pp
    by (subst list_entries.simps) (simp add: Let_def)
qed

lemma list_start: "append_payload ([], 0) list_head = (list_head, length list_head)"
  using append_payload_fits [of "[]" list_head] by (simp add: list_head_length SERVER_LIST_PAYLOAD_SIZE_def)

text \<open>The reply to a list request for an open directory.\<close>

lemma handle_list_replies:
  assumes "query_value (rc_query ctx) ''path'' 2048 = Some p" "resolve_path (rc_root_dir ctx) p 4096 = Some path"
    and "k_opendir k path w = (Inr dir, w1)" "dir_stream k path dir w1 es w2"
  shows "(\<exists>e m w'. handle_list k ctx w = Some (send_error_json e m, w')) \<or>
    handle_list k ctx w = Some (send_ok (jprint (list_doc (escaped_entries es))), k_closedir k dir w2)"
proof -
  have "length list_head + 64 < SERVER_LIST_PAYLOAD_SIZE" by (simp add: list_head_length SERVER_LIST_PAYLOAD_SIZE_def)
  from list_entries_complete [OF assms(4) this, of True] show ?thesis
  proof (elim disjE exE conjE)
    fix e m w'' assume "list_entries k path dir (list_head, length list_head) True w1 = Some (Inl (send_error_json e m), w'')"
    with assms(1-3) list_start have "handle_list k ctx w = Some (send_error_json e m, w'')" by (simp add: handle_list_def)
    then show ?thesis by blast
  next
    fix document assume document: "document = list_head @ jelems (sep_of True) (map entry_doc (escaped_entries es))"
      "length document + 64 < SERVER_LIST_PAYLOAD_SIZE"
      "list_entries k path dir (list_head, length list_head) True w1 = Some (Inr (document, length document), w2)"
    have "fst (append_payload (document, length document) '']}'') = jprint (list_doc (escaped_entries es))"
      using document(1,2) by (subst append_payload_fits) (simp_all add: list_head_doc [symmetric])
    with assms(1-3) list_start document(3) show ?thesis by (simp add: handle_list_def)
  qed
qed

lemma handle_list_served:
  assumes "listable path (map fst es)" "k_opendir k path w = (Inr dir, w1)" "dir_stream k path dir w1 es w2"
    and "query_value (rc_query ctx) ''path'' 2048 = Some p" "resolve_path (rc_root_dir ctx) p 4096 = Some path"
  shows "handle_list k ctx w = Some (send_ok (jprint (list_doc (escaped_entries es))), k_closedir k dir w2)"
proof -
  have "length list_head + 64 < SERVER_LIST_PAYLOAD_SIZE" by (simp add: list_head_length SERVER_LIST_PAYLOAD_SIZE_def)
  note finished = list_entries_complete [OF assms(3) this, of True]
  obtain pp where "list_entries k path dir (list_head, length list_head) True w1 = Some (Inr pp, w2)"
    using list_entries_succeeds [OF assms(3), of list_head True] assms(1) by (auto simp: listable_def list_head_length)
  with finished obtain document where document: "document = list_head @ jelems (sep_of True) (map entry_doc (escaped_entries es))"
      "length document + 64 < SERVER_LIST_PAYLOAD_SIZE"
      "list_entries k path dir (list_head, length list_head) True w1 = Some (Inr (document, length document), w2)" by auto
  have "fst (append_payload (document, length document) '']}'') = jprint (list_doc (escaped_entries es))"
    using document(1,2) by (subst append_payload_fits) (simp_all add: list_head_doc [symmetric])
  with assms(2,4,5) list_start document(3) show ?thesis by (simp add: handle_list_def)
qed

subsection \<open>The names that reach FUSE\<close>

lemma list_doc_no_nul:
  assumes "\<forall>e \<in> set es. CHR 0x00 \<notin> set (fst e) \<and> CHR 0x00 \<notin> set (snd e)"
  shows "CHR 0x00 \<notin> set (jprint (list_doc es))"
proof -
  have "CHR 0x00 \<notin> set (jelems sep (map entry_doc es))" if "CHR 0x00 \<notin> set sep" for sep
    using assms that by (induction es arbitrary: sep) (auto simp: entry_doc_def)
  then show ?thesis by (simp add: list_doc_def status_doc_def)
qed

fun fill_names :: "('b \<Rightarrow> string \<Rightarrow> bool \<times> 'b) \<Rightarrow> string list \<Rightarrow> 'b \<Rightarrow> int \<times> 'b" where
  "fill_names filler [] buf = (0, buf)"
| "fill_names filler (n # ns) buf =
     (let (full, buf) = filler buf n in if full then (- ENOMEM, buf) else fill_names filler ns buf)"

lemma fill_entries_names: "fill_entries filler es buf = fill_names filler (map entry_name es) buf"
  by (induction es arbitrary: buf) (auto split: prod.splits)

lemma dir_entries_names: "map entry_name (dir_entries es) = map fst es"
  by (simp add: dir_entries_def case_prod_unfold)

lemma entries_fit:
  assumes "listable path (map fst es)" "dir_stream k path dir w es w'" "e \<in> set (escaped_entries es)"
  shows "entry_fits e" "CHR 0x00 \<notin> set (fst e) \<and> CHR 0x00 \<notin> set (snd e)"
proof -
  obtain n ty where n: "(n, ty) \<in> set es" "e = (json_escape n, ty)" using assms(3) by auto
  then have "n \<in> set (map fst es)" by force
  with n show "entry_fits e" "CHR 0x00 \<notin> set (fst e) \<and> CHR 0x00 \<notin> set (snd e)"
    using assms(1) dir_stream_types [OF assms(2) n(1)] escaped_no_nul [of n] by (auto simp: entry_fits_def listable_def jstr_plain)
qed

lemma list_doc_wf: "listable path (map fst es) \<Longrightarrow> dir_stream k path dir w es w' \<Longrightarrow> jwf (list_doc (escaped_entries es))"
  using entries_fit(1) [of path es k dir w w'] jwf_entry by (auto simp: list_doc_def status_doc_def)

lemma length_local_tokens [simp]: "length (local_tokens rt n) = n"
  by (simp add: local_tokens_def)

lemma map_jres_JErr: "map_jres f r = JErr e \<Longrightarrow> r = JErr e"
  by (cases r) (simp_all add: map_jres_def)

context connected begin

lemma list_get:
  assumes "servable root p" "length (base_url client) + 3 * length p < 1000"
    and "k_opendir k (local_path root p) w = (Inr dir, w1)" "dir_stream k (local_path root p) dir w1 es w2"
    and "listable (local_path root p) (map fst es)"
  shows "simple_get rt client ''/v1/list'' p a b w = (Ret (jprint (list_doc (escaped_entries es))), k_closedir k dir w2)"
proof (rule simple_get_served)
  show "CHR 0x00 \<notin> set (jprint (list_doc (escaped_entries es)))"
    by (rule list_doc_no_nul, rule ballI, rule entries_fit(2) [OF assms(5,4)])
  show "CHR 0x00 \<notin> set p" using plain_text_no_nul assms(1) by (simp add: servable_def)
qed (use assms handle_list_served [OF assms(5,3,4)] resolve_servable [OF assms(1)] in \<open>simp_all add: get_endpoints dispatch_request_def\<close>)

lemma readdir_served:
  assumes "servable root p" "length (base_url client) + 3 * length p < 1000"
    and "k_opendir k (local_path root p) w = (Inr dir, w1)" "dir_stream k (local_path root p) dir w1 es' w2"
    and "listable (local_path root p) (map fst es')" "length es' \<le> 101"
  shows "httpfs_readdir_impl rt client p filler buf w =
    (Some (fill_names filler (map json_escape (map fst es')) buf), k_closedir k dir w2)"
proof -
  define es where "es = escaped_entries es'"
  let ?kvs = "[(''status'', JString ''ok''), (''entries'', JArray (map entry_doc es))]"
  have doc: "list_doc es = JObject ?kvs" by (simp add: list_doc_def status_doc_def)
  have wf: "jwf (JObject ?kvs)" using list_doc_wf [OF assms(5,4)] unfolding es_def doc [unfolded es_def, symmetric] .
  have len: "length es = length es'" by (simp add: es_def)
  have count: "jcount (JObject ?kvs) \<le> 512" using jcount_list_doc [of es] assms(6) len unfolding doc by simp
  obtain n T where parsed: "parse_ok_response (jprint (list_doc es)) (local_tokens rt 1024) = Ret (n, T)"
      "node (jprint (list_doc es)) T n 0 0 (-1) (JObject ?kvs)"
    by (rule parse_ok_printed [OF wf count, of "local_tokens rt 1024" "jprint (list_doc es)"])
      (use count in \<open>simp_all add: doc\<close>)
  obtain i q where i: "find_object_value (jprint (list_doc es)) T n 0 ''entries'' = Some i"
      "node (jprint (list_doc es)) T n i q 0 (JArray (map entry_doc es))"
    using find_member(2) [OF parsed(2), of "''entries''" "JArray (map entry_doc es)"] by auto
  have fits: "\<forall>x \<in> set es. entry_fits x" using entries_fit(1) [OF assms(5,4)] by (simp add: es_def)
  have "httpfs_list_dir rt client p 512 w = (Ret (dir_entries es), k_closedir k dir w2)"
    using list_get [OF assms(1-5)] parsed(1) i(1) node_array_loop [OF i(2) fits, of 512] assms(6) len
    by (simp add: httpfs_list_dir_def es_def [symmetric])
  then show ?thesis
    by (simp add: httpfs_readdir_impl_def fuse_result_def fill_entries_names dir_entries_names es_def comp_def)
qed

lemma readdir_too_many:
  assumes "servable root p" "length (base_url client) + 3 * length p < 1000"
    and "k_opendir k (local_path root p) w = (Inr dir, w1)" "dir_stream k (local_path root p) dir w1 es' w2"
    and "listable (local_path root p) (map fst es')" "101 < length es'"
  shows "httpfs_readdir_impl rt client p filler buf w = (Some (- EIO, buf), k_closedir k dir w2)"
proof -
  define es where "es = escaped_entries es'"
  have many: "512 < jcount (list_doc es)" using jcount_list_doc [of es] assms(6) by (simp add: es_def)
  have wf: "jwf (list_doc es)" unfolding es_def by (rule list_doc_wf [OF assms(5,4)])
  obtain e where run: "tok_run 512 (jprint (list_doc es)) 0 (-1) [] = JErr e"
    using tok_run_jprint_too_many [OF wf many] by (elim exE)
  have "512 \<le> length (local_tokens rt 1024)" by simp
  from jsmn_parse_tok_run(1) [OF this, of "jprint (list_doc es)"] run
  have "map_jres (\<lambda>(n, t). take n t) (jsmn_parse jsmn_init (jprint (list_doc es)) (local_tokens rt 1024) 512) = JErr e"
    by (rule trans)
  then have e: "jsmn_parse jsmn_init (jprint (list_doc es)) (local_tokens rt 1024) 512 = JErr e" by (rule map_jres_JErr)
  have "parse_ok_response (jprint (list_doc es)) (local_tokens rt 1024) = Fail (set_error EIO ''Server returned invalid JSON'')"
    by (simp add: parse_ok_response_def parse_response_tokens_def e)
  then have "httpfs_list_dir rt client p 512 w = (Fail (set_error EIO ''Server returned invalid JSON''), k_closedir k dir w2)"
    using list_get [OF assms(1-5)] by (simp add: httpfs_list_dir_def es_def)
  moreover have "neg_errno (set_error EIO m) = - EIO" for m by (rule neg_errno_set_error) (simp add: is_errno_def EIO_def)
  ultimately show ?thesis by (simp add: httpfs_readdir_impl_def fuse_result_def)
qed

lemma readdir_failed:
  assumes "servable root p" "length (base_url client) + 3 * length p < 1000"
    and "k_opendir k (local_path root p) w = (Inl e, w1)" "is_errno e"
  shows "httpfs_readdir_impl rt client p filler buf w = (Some (- e, buf), w1)"
proof -
  have "CHR 0x00 \<notin> set p" using plain_text_no_nul assms(1) by (simp add: servable_def)
  then obtain m where m: "\<And>a b. simple_get rt client ''/v1/list'' p a b w = (Ret (error_payload e m), w1)" "jstr m"
    using error_get_served [OF assms(4) get_endpoints(2), of p w w1] assms(2,3) resolve_servable [OF assms(1)]
    by (auto simp: dispatch_request_def handle_list_def)
  obtain t where "parse_ok_response (error_payload e m) (local_tokens rt 1024) = Fail (set_error e t)"
    using error_response_read(1) [OF assms(4) m(2), of "local_tokens rt 1024"] by auto
  then show ?thesis
    using m(1) by (simp add: httpfs_readdir_impl_def httpfs_list_dir_def fuse_result_def neg_errno_set_error [OF assms(4)])
qed

end

end
