(* ===== verification/File_Store.thy ===== *)
theory File_Store
  imports Server_Handlers
begin

text \<open>
  Reading and writing a file with \<open>pread_full\<close>, \<open>pwrite_full\<close> and \<open>store_and_verify\<close>. What the code relies on in the
  kernel is the interface \<open>file_store\<close>: a regular file that can be opened, whose reads are complete, and whose
  writes may be interrupted finitely often and may be short, but make progress.
\<close>

subsection \<open>The bytes of a file\<close>

definition overwrite :: "bytes \<Rightarrow> nat \<Rightarrow> bytes \<Rightarrow> bytes" where
  "overwrite c off d = take off (c @ replicate (off - length c) (CHR 0x00)) @ d @ drop (off + length d) c"

lemma length_overwrite_front [simp]: "length (take off (c @ replicate (off - length c) x)) = off"
  by simp

lemma overwrite_read: "take n (drop off (overwrite c off d)) = take n (d @ drop (off + length d) c)"
  by (simp add: overwrite_def)

lemma overwrite_append: "overwrite (overwrite c off a) (off + length a) b = overwrite c off (a @ b)"
proof -
  define f where "f = take off (c @ replicate (off - length c) (CHR 0x00))"
  have f: "length f = off" by (simp add: f_def)
  have "overwrite c off a = f @ a @ drop (off + length a) c" by (simp add: overwrite_def f_def)
  moreover have "take (off + length a) ((f @ a @ x) @ y) = f @ a" for x y using f by simp
  moreover have "drop (off + length a + length b) (f @ a @ drop (off + length a) c) = drop (off + (length a + length b)) c"
    using f by (simp add: ac_simps)
  ultimately show ?thesis by (simp add: overwrite_def f_def add.assoc)
qed

locale file_store =
  fixes k :: "'w kernel" and path :: string and stored :: "'w \<Rightarrow> bytes \<Rightarrow> bool" and handle :: "int \<Rightarrow> 'w \<Rightarrow> bytes \<Rightarrow> bool"
    and pending_signals :: "'w \<Rightarrow> nat"
  assumes open_file: "stored w c \<Longrightarrow> m = ReadOnly \<or> m = ReadWrite \<Longrightarrow>
      \<exists>fd w'. k_open k path m w = (Inr fd, w') \<and> handle fd w' c"
    and close_file: "handle fd w c \<Longrightarrow> stored (k_close k fd w) c"
    and pread_file: "handle fd w c \<Longrightarrow> \<exists>w'. k_pread k fd n (int off) w = (Inr (take n (drop off c)), w') \<and> handle fd w' c"
    and pwrite_file: "handle fd w c \<Longrightarrow> d \<noteq> [] \<Longrightarrow>
      (\<exists>w'. k_pwrite k fd d (int off) w = (Inl EINTR, w') \<and> handle fd w' c \<and> pending_signals w' < pending_signals w) \<or>
      (\<exists>n w'. k_pwrite k fd d (int off) w = (Inr n, w') \<and> 0 < n \<and> n \<le> length d \<and> handle fd w' (overwrite c off (take n d)))"
    and malloc_small: "n \<le> 1024 * 1024 + 1 \<Longrightarrow> k_malloc k n"
begin

lemma pwrite_full_correct:
  assumes "handle fd w c" "sent < length data"
  shows "\<exists>w'. pwrite_full k fd data (int off) sent w = Some (Inr (length data), w') \<and>
    handle fd w' (overwrite c (off + sent) (drop sent data))"
  using assms
proof (induction "(length data - sent, pending_signals w)" arbitrary: sent w c rule: wf_induct_rule [OF wf_lex_prod [OF wf_less wf_less]])
  case 1
  let ?d = "drop sent data"
  have d: "?d \<noteq> []" using 1(3) by simp
  from pwrite_file [OF 1(2) d, of "off + sent"] show ?case
  proof (elim disjE exE conjE)
    fix w' assume w': "k_pwrite k fd ?d (int (off + sent)) w = (Inl EINTR, w')" "handle fd w' c" "pending_signals w' < pending_signals w"
    with 1(1) [of sent w' c] 1(3) show ?thesis by (subst pwrite_full.simps) simp
  next
    fix n w' assume w': "k_pwrite k fd ?d (int (off + sent)) w = (Inr n, w')" "0 < n" "n \<le> length ?d"
      "handle fd w' (overwrite c (off + sent) (take n ?d))"
    have step: "pwrite_full k fd data (int off) sent w = pwrite_full k fd data (int off) (sent + n) w'"
      using w'(1,2) 1(3) by (subst pwrite_full.simps) simp
    show ?thesis
    proof (cases "sent + n < length data")
      case True
      have "length data - (sent + n) < length data - sent" using w'(2) 1(3) by simp
      with 1(1) [of "sent + n" w' "overwrite c (off + sent) (take n ?d)"] True w'(4) step
      obtain w'' where "pwrite_full k fd data (int off) sent w = Some (Inr (length data), w'')"
        "handle fd w'' (overwrite (overwrite c (off + sent) (take n ?d)) (off + (sent + n)) (drop (sent + n) data))" by auto
      moreover have "overwrite (overwrite c (off + sent) (take n ?d)) (off + (sent + n)) (drop (sent + n) data) =
          overwrite c (off + sent) (take n ?d @ drop (sent + n) data)"
        using overwrite_append [of c "off + sent" "take n ?d" "drop (sent + n) data"] w'(3) by (simp add: min_absorb2 add.assoc)
      moreover have "take n ?d @ drop (sent + n) data = ?d"
        by (metis append_take_drop_id drop_drop add.commute)
      ultimately show ?thesis by auto
    next
      case False
      then have "n = length ?d" using w'(3) by simp
      with step w'(4) False 1(3) show ?thesis by (auto simp: pwrite_full.simps)
    qed
  qed
qed

lemma pread_full_correct:
  assumes "handle fd w c" "0 < len"
  shows "\<exists>w'. pread_full k fd len (int off) [] w = Some (Inr (take len (drop off c)), w') \<and> handle fd w' c"
proof -
  let ?d = "take len (drop off c)"
  obtain w1 where w1: "k_pread k fd len (int off) w = (Inr ?d, w1)" "handle fd w1 c" using pread_file [OF assms(1)] by blast
  show ?thesis
  proof (cases "?d = [] \<or> length ?d = len")
    case True
    then show ?thesis using w1 assms(2) by (subst pread_full.simps) (auto simp: pread_full.simps)
  next
    case False
    then have short: "length ?d < len" "?d \<noteq> []" by auto
    then have "drop (off + length ?d) c = []" by simp
    then obtain w2 where w2: "k_pread k fd (len - length ?d) (int (off + length ?d)) w1 = (Inr [], w2)" "handle fd w2 c"
      using pread_file [OF w1(2), of "len - length ?d" "off + length ?d"] by auto
    have "pread_full k fd len (int off) [] w = pread_full k fd len (int off) ?d w1"
      using w1(1) short assms(2) by (subst pread_full.simps) simp
    also have "\<dots> = Some (Inr ?d, w2)" using w2(1) short(1) by (subst pread_full.simps) (simp del: length_take length_drop)
    finally show ?thesis using w2(2) by blast
  qed
qed


lemma store_verified:
  assumes "stored w c" "body \<noteq> []" "length body \<le> 1024 * 1024" "httpfs_sparse_md5_hex (map byte_of body) (int off) = Some md5"
  shows "\<exists>w'. store_and_verify k path body (int off) md5 w = Some (send_ok (write_payload (length body) md5), w') \<and>
    stored w' (overwrite c off body)"
proof -
  obtain fd w1 where w1: "k_open k path ReadWrite w = (Inr fd, w1)" "handle fd w1 c" using open_file [OF assms(1)] by blast
  obtain w2 where w2: "pwrite_full k fd body (int off) 0 w1 = Some (Inr (length body), w2)" "handle fd w2 (overwrite c off body)"
    using pwrite_full_correct [OF w1(2), of 0 body off] assms(2) by auto
  have "take (length body) (drop off (overwrite c off body)) = body" by (simp add: overwrite_read)
  then obtain w3 where w3: "pread_full k fd (length body) (int off) [] w2 = Some (Inr body, w3)" "handle fd w3 (overwrite c off body)"
    using pread_full_correct [OF w2(2), of "length body" off] assms(2) by auto
  have "length (show_nat (length body)) \<le> 7" using assms(3) by (intro length_show_nat_le) simp_all
  moreover have "length md5 = 32" using sparse_md5_hex_valid [OF assms(4)] by (simp add: httpfs_is_valid_md5_hex_def)
  ultimately have "fst (snprintf 256 (write_payload (length body) md5)) = write_payload (length body) md5"
    by (simp add: snprintf_def write_payload_def)
  moreover have "k_malloc k (if length body > 0 then length body else 1)" using assms(3) by (intro malloc_small) simp
  ultimately show ?thesis
    using w1(1) w2(1) w3(1) assms(4) close_file [OF w3(2)] by (simp add: store_and_verify_def Let_def)
qed

lemma read_stored:
  assumes "stored w c" "sz \<le> 1024 * 1024" "int off \<le> LONG_MAX" "resolve_path root p 4096 = Some path"
  shows "\<exists>w' md5. (\<forall>q m. query_value q ''path'' 2048 = Some p \<longrightarrow> query_value q ''offset'' 64 = Some (show_int (int off)) \<longrightarrow>
      query_value q ''size'' 64 = Some (show_int (int sz)) \<longrightarrow>
      handle_read k \<lparr>rc_method = ''GET'', rc_path = ''/v1/read'', rc_query = q, rc_content_md5 = m, rc_body = [], rc_root_dir = root\<rparr> w =
        (send_binary (take sz (drop off c)) md5, w')) \<and> stored w' c \<and>
    httpfs_sparse_md5_hex (map byte_of (take sz (drop off c))) (int off) = Some md5"
proof -
  obtain fd w1 where w1: "k_open k path ReadOnly w = (Inr fd, w1)" "handle fd w1 c" using open_file [OF assms(1)] by blast
  obtain w2 where w2: "k_pread k fd sz (int off) w1 = (Inr (take sz (drop off c)), w2)" "handle fd w2 c" using pread_file [OF w1(2)] by blast
  obtain md5 where md5: "httpfs_sparse_md5_hex (map byte_of (take sz (drop off c))) (int off) = Some md5"
    using sparse_md5_hex_spec [of "int off" "map byte_of (take sz (drop off c))"] by auto
  have num: "fst (strtoll (show_int (int n))) = int n" if "int n \<le> LONG_MAX" for n
    using strtoll_show_int [of "int n" "[]"] that by (simp add: LONG_MIN_def)
  have "k_malloc k (sz + 1)" using assms(2) by (intro malloc_small) simp
  then show ?thesis
    using assms(2-4) w1(1) w2(1) md5 num [of off] num [of sz] close_file [OF w2(2)]
    by (auto simp: handle_read_def LONG_MAX_def)
qed

end

end
