(* ===== verification/Mounted_Data.thy ===== *)
theory Mounted_Data
  imports Listing File_Store
begin

text \<open>
  Reading and writing a file through the mount: the loops of the client over chunks of 1 MiB together with the
  handlers of the service, on a file that satisfies the interface \<open>file_store\<close>.
\<close>

subsection \<open>Queries of the data operations\<close>

definition write_query :: "string \<Rightarrow> nat \<Rightarrow> string" where
  "write_query e off = ''path='' @ e @ ''&offset='' @ show_int (int off)"

definition read_query :: "string \<Rightarrow> nat \<Rightarrow> nat \<Rightarrow> string" where
  "read_query e off n = ''path='' @ e @ ''&offset='' @ show_int (int off) @ ''&size='' @ show_int (int n)"

lemma show_nat_int: "show_nat n = show_int (int n)"
  by (simp add: show_int_def)

lemma data_queries:
  assumes "pct_encoded enc" "CHR 0x00 \<notin> set p" "3 * length p < 2048" "int off \<le> LONG_MAX" "int n \<le> LONG_MAX"
  shows "query_value (write_query (concat (map enc p)) off) ''path'' 2048 = Some p"
    and "query_value (write_query (concat (map enc p)) off) ''offset'' 64 = Some (show_int (int off))"
    and "query_value (read_query (concat (map enc p)) off n) ''path'' 2048 = Some p"
    and "query_value (read_query (concat (map enc p)) off n) ''offset'' 64 = Some (show_int (int off))"
    and "query_value (read_query (concat (map enc p)) off n) ''size'' 64 = Some (show_int (int n))"
proof -
  have min: "LONG_MIN \<le> int x" for x by (simp add: LONG_MIN_def)
  show "query_value (write_query (concat (map enc p)) off) ''path'' 2048 = Some p"
    "query_value (read_query (concat (map enc p)) off n) ''path'' 2048 = Some p"
    using query_path [OF assms(1-3)] by (simp_all add: write_query_def read_query_def)
  show "query_value (write_query (concat (map enc p)) off) ''offset'' 64 = Some (show_int (int off))"
    using query_after_path [OF assms(1), of "''offset''" p] query_number [OF min assms(4), of "''offset''" "[]"]
    by (simp add: write_query_def)
  show "query_value (read_query (concat (map enc p)) off n) ''offset'' 64 = Some (show_int (int off))"
    using query_after_path [OF assms(1), of "''offset''" p] query_number [OF min assms(4), of "''offset''"]
    by (simp add: read_query_def)
  show "query_value (read_query (concat (map enc p)) off n) ''size'' 64 = Some (show_int (int n))"
    using query_after_path [OF assms(1), of "''size''" p] query_after_number [of "''offset''" "''size''"]
      query_number [OF min assms(5), of "''size''" "[]"]
    by (simp add: read_query_def)
qed

lemma query_ok_data:
  assumes "pct_encoded enc"
  shows "query_ok (write_query (concat (map enc p)) off)" "query_ok (read_query (concat (map enc p)) off n)"
proof -
  have "query_ok ''path=''" "query_ok ''&offset=''" "query_ok ''&size=''" by (simp_all add: query_ok_def is_space_def)
  then show "query_ok (write_query (concat (map enc p)) off)" "query_ok (read_query (concat (map enc p)) off n)"
    using query_ok_encoded [OF assms, of p] query_ok_show_int
    by (simp_all only: write_query_def read_query_def query_ok_append simp_thms)
qed

lemma length_data_queries:
  assumes "int off \<le> LONG_MAX" "int n \<le> LONG_MAX"
  shows "length (write_query e off) \<le> length e + 33" "length (read_query e off n) \<le> length e + 59"
proof -
  have "length (show_int (int x)) \<le> 20" if "int x \<le> LONG_MAX" for x
    using length_show_int_le [of "int x"] that by (simp add: LONG_MIN_def)
  from this [OF assms(1)] this [OF assms(2)] show "length (write_query e off) \<le> length e + 33" "length (read_query e off n) \<le> length e + 59"
    by (simp_all add: write_query_def read_query_def)
qed

lemma binary_header_lines:
  assumes "httpfs_is_valid_md5_hex md5"
  shows "request_headers (Some ''application/octet-stream'') (Some md5) =
      Ret [''Content-Type: application/octet-stream'', ''X-HTTPFS-Content-MD5: '' @ md5, ''Expect:'']"
    and "list_all line_ok [''Content-Type: application/octet-stream'', ''X-HTTPFS-Content-MD5: '' @ md5, ''Expect:'']"
    and "filter (\<lambda>l. line_names l ''X-HTTPFS-Content-MD5'')
      [''Content-Type: application/octet-stream'', ''X-HTTPFS-Content-MD5: '' @ md5, ''Expect:''] = [''X-HTTPFS-Content-MD5: '' @ md5]"
proof -
  have "length md5 = 32" using assms by (simp add: httpfs_is_valid_md5_hex_def)
  then show "request_headers (Some ''application/octet-stream'') (Some md5) =
      Ret [''Content-Type: application/octet-stream'', ''X-HTTPFS-Content-MD5: '' @ md5, ''Expect:'']"
    by (simp add: request_headers_def)
  have "CHR 0x0D \<notin> set md5" "CHR 0x0A \<notin> set md5" "CHR 0x00 \<notin> set md5" using md5_hex_chars [OF assms] by blast+
  then show "list_all line_ok [''Content-Type: application/octet-stream'', ''X-HTTPFS-Content-MD5: '' @ md5, ''Expect:'']"
    by (simp add: line_ok_def)
  show "filter (\<lambda>l. line_names l ''X-HTTPFS-Content-MD5'')
      [''Content-Type: application/octet-stream'', ''X-HTTPFS-Content-MD5: '' @ md5, ''Expect:''] = [''X-HTTPFS-Content-MD5: '' @ md5]"
    by (simp add: line_names_def strncaseeq_def tolower_def)
qed

lemma int_of_size_small: "n < 2 ^ 31 \<Longrightarrow> int_of_size n = int n"
proof -
  assume n: "n < 2 ^ 31"
  have "sint (word_of_int (int n) :: 32 word) = signed_take_bit 31 (int n)" unfolding sint_sbintrunc' by simp
  also have "\<dots> = int n" using n by (intro signed_take_bit_int_eq_self) simp_all
  finally show ?thesis by (simp add: int_of_size_def)
qed

lemma write_response_read:
  assumes "httpfs_is_valid_md5_hex md5" "n \<le> 1024 * 1024"
  shows "check_write_response rt n md5 (200, write_payload n md5) = Ret n"
proof -
  let ?kvs = "[(''status'', JString ''ok''), (''bytes_written'', JPrim (show_int (int n))), (''content_md5'', JString md5)]"
  have doc: "write_payload n md5 = jprint (JObject ?kvs)" by (simp add: write_payload_doc status_doc_def show_nat_int)
  have "CHR 0x22 \<notin> set md5" "CHR 0x5C \<notin> set md5" using md5_hex_chars [OF assms(1)] by blast+
  then have wf: "jwf (JObject ?kvs)" by (simp add: jstr_plain)
  obtain m T where parsed: "parse_ok_response (write_payload n md5) (local_tokens rt 256) = Ret (m, T)"
      "node (write_payload n md5) T m 0 0 (-1) (JObject ?kvs)"
    by (rule parse_ok_printed [OF wf _ _ doc, of "local_tokens rt 256"]) simp_all
  obtain i q where i: "find_object_value (write_payload n md5) T m 0 ''bytes_written'' = Some i"
      "node (write_payload n md5) T m i q 0 (JPrim (show_int (int n)))"
    using find_member(2) [OF parsed(2), of "''bytes_written''" "JPrim (show_int (int n))"] by auto
  obtain j q' where j: "find_object_value (write_payload n md5) T m 0 ''content_md5'' = Some j"
      "node (write_payload n md5) T m j q' 0 (JString md5)"
    using find_member(2) [OF parsed(2), of "''content_md5''" "JString md5"] by auto
  have "length md5 = 32" using assms(1) by (simp add: httpfs_is_valid_md5_hex_def)
  then have "token_to_string (write_payload n md5) (T ! j) 33 = Some md5" using token_equals_string(2) [OF j(2)] by simp
  moreover have "long_field (write_payload n md5) T i = Some (int n)"
    by (rule long_field_prim [OF i(2)]) (use assms(2) in \<open>simp_all add: LONG_MIN_def LONG_MAX_def\<close>)
  ultimately show ?thesis
    using parsed(1) i(1) j(1) assms(1) by (simp add: check_write_response_def check_written_def)
qed

subsection \<open>One read and one write request\<close>

context connected begin

lemma read_exchange:
  assumes "servable root p" "length (base_url client) + 3 * length p < 900" "n \<le> 1024 * 1024" "int off \<le> LONG_MAX"
    and reply: "\<And>q m. query_value q ''path'' 2048 = Some p \<Longrightarrow> query_value q ''offset'' 64 = Some (show_int (int off)) \<Longrightarrow>
      query_value q ''size'' 64 = Some (show_int (int n)) \<Longrightarrow>
      handle_read k \<lparr>rc_method = ''GET'', rc_path = ''/v1/read'', rc_query = q, rc_content_md5 = m, rc_body = [], rc_root_dir = root\<rparr> w =
        (header_block ls @ CRLF @ payload, w')"
    and ls: "list_all line_ok ls" "ls \<noteq> []" "hd ls = ''HTTP/1.1 200 OK''"
    and meta: "header_callbacks (map (\<lambda>l. l @ CRLF) ls @ [CRLF]) \<lparr>content_type = [], content_md5 = []\<rparr> = Some m"
  shows "\<exists>endpoint. build_read_endpoint rt p (int off) n 1024 w = (Some endpoint, w) \<and>
    http_request_ex rt client ''GET'' endpoint [] None None w = (Ret (200, payload, m), w')"
proof -
  obtain enc where enc: "pct_encoded enc" "\<And>p. curl_easy_escape rt p = Some (concat (map enc p))"
    using ready by (auto simp: curl_ready_def)
  let ?e = "concat (map enc p)"
  have n: "int n \<le> LONG_MAX" using assms(3) by (simp add: LONG_MAX_def)
  have small: "3 * length p < 2048" using assms(2) by simp
  have nul: "CHR 0x00 \<notin> set p" using plain_text_no_nul assms(1) by (simp add: servable_def)
  note len = pct_length [OF enc(1), of p] length_data_queries(2) [OF assms(4) n, of ?e]
  note q = data_queries(3-5) [OF enc(1) nul small assms(4) n]
  have "http_request_ex rt client ''GET'' (''/v1/read'' @ CHR ''?'' # read_query ?e off n) [] None None w = (Ret (200, payload, m), w')"
    by (rule get_exchange [OF get_endpoints(3) query_ok_data(2) [OF enc(1)] _ _ ls meta])
      (use assms(2) len reply [OF q] in \<open>simp_all add: dispatch_request_def\<close>)
  moreover have "build_read_endpoint rt p (int off) n 1024 w = (Some (''/v1/read'' @ CHR ''?'' # read_query ?e off n), w)"
    using assms(2) len enc(2)
    by (simp add: build_read_endpoint_def escaped_endpoint_def snprintf_def read_query_def show_nat_int)
  ultimately show ?thesis by blast
qed

lemma read_data_exchange:
  assumes "servable root p" "length (base_url client) + 3 * length p < 900" "n \<le> 1024 * 1024" "int off \<le> LONG_MAX"
    and "httpfs_sparse_md5_hex (map byte_of data) (int off) = Some md5" "length data \<le> n"
    and reply: "\<And>q m. query_value q ''path'' 2048 = Some p \<Longrightarrow> query_value q ''offset'' 64 = Some (show_int (int off)) \<Longrightarrow>
      query_value q ''size'' 64 = Some (show_int (int n)) \<Longrightarrow>
      handle_read k \<lparr>rc_method = ''GET'', rc_path = ''/v1/read'', rc_query = q, rc_content_md5 = m, rc_body = [], rc_root_dir = root\<rparr> w =
        (send_binary data md5, w')"
  shows "\<exists>endpoint reply. build_read_endpoint rt p (int off) n 1024 w = (Some endpoint, w) \<and>
    http_request_ex rt client ''GET'' endpoint [] None None w = (Ret reply, w') \<and>
    check_read_response rt n (int off) reply = Ret data"
proof -
  have valid: "httpfs_is_valid_md5_hex md5" using sparse_md5_hex_valid [OF assms(5)] .
  have "CHR 0x0D \<notin> set md5" "CHR 0x0A \<notin> set md5" "CHR 0x00 \<notin> set md5" using md5_hex_chars [OF valid] by blast+
  note lines = binary_lines_ok [OF this, of "length data mod 2 ^ 64"]
  have "length md5 \<le> 32" using valid by (simp add: httpfs_is_valid_md5_hex_def)
  note full = send_binary_lines [OF this, of data]
  have "binary_lines md5 (length data mod 2 ^ 64) \<noteq> []" "hd (binary_lines md5 (length data mod 2 ^ 64)) = ''HTTP/1.1 200 OK''"
    by (simp_all add: binary_lines_def)
  from read_exchange [OF assms(1-4) _ lines this binary_metadata [OF valid], where payload = data and w = w and w' = w'] reply full
  obtain endpoint where "build_read_endpoint rt p (int off) n 1024 w = (Some endpoint, w)"
    "http_request_ex rt client ''GET'' endpoint [] None None w =
      (Ret (200, data, \<lparr>content_type = ''application/octet-stream'', content_md5 = md5\<rparr>), w')" by auto
  moreover have "check_read_response rt n (int off) (200, data, \<lparr>content_type = ''application/octet-stream'', content_md5 = md5\<rparr>) = Ret data"
    using valid assms(5,6) by (simp add: check_read_response_def is_content_type_json_def is_content_type_octet_stream_def strncaseeq_def tolower_def)
  ultimately show ?thesis by blast
qed

lemma read_error_exchange:
  assumes "servable root p" "length (base_url client) + 3 * length p < 900" "n \<le> 1024 * 1024" "int off \<le> LONG_MAX" "is_errno e"
    and reply: "\<And>q m. query_value q ''path'' 2048 = Some p \<Longrightarrow> query_value q ''offset'' 64 = Some (show_int (int off)) \<Longrightarrow>
      query_value q ''size'' 64 = Some (show_int (int n)) \<Longrightarrow>
      handle_read k \<lparr>rc_method = ''GET'', rc_path = ''/v1/read'', rc_query = q, rc_content_md5 = m, rc_body = [], rc_root_dir = root\<rparr> w =
        (send_errno k e, w')"
  shows "\<exists>endpoint reply t. build_read_endpoint rt p (int off) n 1024 w = (Some endpoint, w) \<and>
    http_request_ex rt client ''GET'' endpoint [] None None w = (Ret reply, w') \<and>
    check_read_response rt n (int off) reply = Fail (set_error e t)"
proof -
  obtain m where m: "send_errno k e = send_ok (error_payload e m)" "jstr m" "CHR 0x00 \<notin> set m"
    using is_errno_long [OF assms(5)] send_error_payload [of e "k_strerror k e"] unfolding send_errno_def by metis
  let ?n = "length (error_payload e m) mod 2 ^ 64"
  have "json_lines ?n \<noteq> []" "hd (json_lines ?n) = ''HTTP/1.1 200 OK''" by (simp_all add: json_lines_def)
  from read_exchange [OF assms(1-4) _ json_lines_ok this json_metadata, where payload = "error_payload e m" and w = w and w' = w'] reply m(1) send_ok_lines
  obtain endpoint where "build_read_endpoint rt p (int off) n 1024 w = (Some endpoint, w)"
    "http_request_ex rt client ''GET'' endpoint [] None None w =
      (Ret (200, error_payload e m, \<lparr>content_type = ''application/json; charset=utf-8'', content_md5 = []\<rparr>), w')" by auto
  moreover obtain t where "parse_error_response (error_payload e m) (local_tokens rt 256) = Fail (set_error e t)"
    using error_response_read(2) [OF assms(5) m(2), of "local_tokens rt 256"] by auto
  then have "check_read_response rt n (int off) (200, error_payload e m, \<lparr>content_type = ''application/json; charset=utf-8'', content_md5 = []\<rparr>) =
      Fail (set_error e t)"
    using error_payload_no_nul [OF m(3), of e]
    by (simp add: check_read_response_def is_content_type_json_def strncaseeq_def tolower_def)
  ultimately show ?thesis by blast
qed

lemma write_exchange:
  assumes "servable root p" "length (base_url client) + 3 * length p < 900" "length d \<le> 1024 * 1024" "int off \<le> LONG_MAX"
    and "httpfs_sparse_md5_hex (map byte_of d) (int off) = Some md5" "CHR 0x00 \<notin> set payload"
    and reply: "store_and_verify k (local_path root p) d (int off) md5 w = Some (send_ok payload, w')"
  shows "\<exists>endpoint. build_write_endpoint rt p (int off) 1024 w = (Some endpoint, w) \<and>
    http_request rt client ''POST'' endpoint d (Some ''application/octet-stream'') (Some md5) w = (Ret (200, payload), w')"
proof -
  obtain enc where enc: "pct_encoded enc" "\<And>p. curl_easy_escape rt p = Some (concat (map enc p))"
    using ready by (auto simp: curl_ready_def)
  let ?e = "concat (map enc p)"
  have valid: "httpfs_is_valid_md5_hex md5" using sparse_md5_hex_valid [OF assms(5)] .
  have small: "3 * length p < 2048" using assms(2) by simp
  have zero: "int 0 \<le> LONG_MAX" by (simp add: LONG_MAX_def)
  have nul: "CHR 0x00 \<notin> set p" using plain_text_no_nul assms(1) by (simp add: servable_def)
  note len = pct_length [OF enc(1), of p] length_data_queries(1) [OF assms(4) zero, of ?e]
  note q = data_queries(1,2) [OF enc(1) nul small assms(4) zero]
  have "fst (strtoll (show_int (int off))) = int off"
    using strtoll_show_int [of "int off" "[]"] assms(4) by (simp add: LONG_MIN_def)
  then have handled: "dispatch_request k \<lparr>rc_method = ''POST'', rc_path = ''/v1/write'', rc_query = write_query ?e off, rc_content_md5 = md5,
      rc_body = d, rc_root_dir = root\<rparr> w = Some (send_ok payload, w')"
    using q reply valid assms(5) resolve_servable [OF assms(1)] by (simp add: dispatch_request_def handle_write_def LONG_MAX_def)
  have e: "\<forall>c \<in> set (''/v1/write'' @ write_query ?e off). \<not> is_space c \<and> c \<noteq> CHR 0x00"
    using query_ok_data(1) [OF enc(1), of p off] by (simp add: query_ok_def is_space_def)
  have "http_request_ex rt client ''POST'' (''/v1/write'' @ CHR ''?'' # write_query ?e off) d (Some ''application/octet-stream'') (Some md5) w =
      (Ret (200, payload, \<lparr>content_type = ''application/json; charset=utf-8'', content_md5 = []\<rparr>), w')"
  proof (rule exchange [where path = "''/v1/write''" and query = "write_query ?e off" and ls = "json_lines (length payload mod 2 ^ 64)"
        and hl = "[''Content-Type: application/octet-stream'', ''X-HTTPFS-Content-MD5: '' @ md5, ''Expect:'']"])
    show "line_ok (''POST'' @ '' '' @ (''/v1/write'' @ CHR ''?'' # write_query ?e off) @ '' HTTP/1.1'')"
      using not_space_line [OF e] by (simp add: line_ok_def)
    show "parse_request_line (''POST'' @ '' '' @ (''/v1/write'' @ CHR ''?'' # write_query ?e off) @ '' HTTP/1.1'') =
        Some (''POST'', ''/v1/write'', write_query ?e off)"
    proof (rule parse_request_line_target(1))
      show "\<forall>c \<in> set (''/v1/write'' @ write_query ?e off). \<not> is_space c"
        by (rule ballI, rule bspec [OF e, THEN conjunct1])
      show "length ''/v1/write'' + length (write_query ?e off) + 1 < 2047" using assms(2) len by simp
    qed simp_all
    show "(if ''POST'' = ''POST'' then request_headers (Some ''application/octet-stream'') (Some md5) else Ret []) =
        Ret [''Content-Type: application/octet-stream'', ''X-HTTPFS-Content-MD5: '' @ md5, ''Expect:'']"
      using binary_header_lines(1) [OF valid] by simp
    show "list_all line_ok [''Content-Type: application/octet-stream'', ''X-HTTPFS-Content-MD5: '' @ md5, ''Expect:'']"
      by (rule binary_header_lines(2) [OF valid])
    show "httpfs_is_valid_md5_hex v \<and> filter (\<lambda>l. line_names l ''X-HTTPFS-Content-MD5'')
        [''Content-Type: application/octet-stream'', ''X-HTTPFS-Content-MD5: '' @ md5, ''Expect:''] = [''X-HTTPFS-Content-MD5: '' @ v]"
      if "Some md5 = Some v" for v using that valid binary_header_lines(3) [OF valid] by simp
    show "int (length d) \<le> LONG_MAX" using assms(3) by (simp add: LONG_MAX_def)
  qed (use assms(2) len handled send_ok_lines json_lines_ok json_metadata in \<open>simp_all add: json_lines_def\<close>)
  then have "http_request rt client ''POST'' (''/v1/write'' @ CHR ''?'' # write_query ?e off) d (Some ''application/octet-stream'') (Some md5) w =
      (Ret (200, payload), w')"
    using assms(6) by (simp add: http_request_def)
  moreover have "build_write_endpoint rt p (int off) 1024 w = (Some (''/v1/write'' @ CHR ''?'' # write_query ?e off), w)"
    using assms(2) len enc(2) by (simp add: build_write_endpoint_def escaped_endpoint_def snprintf_def write_query_def)
  ultimately show ?thesis by blast
qed

lemma write_payload_no_nul: "httpfs_is_valid_md5_hex md5 \<Longrightarrow> CHR 0x00 \<notin> set (write_payload n md5)"
  using no_nul_show_nat [of n] md5_hex_chars [of md5 "CHR 0x00"] by (auto simp: write_payload_def quoted_def)

end

subsection \<open>A file behind the mount\<close>

locale mounted_file = connected rt wire client k root + file_store k "local_path root p" stored handle pending_signals
  for rt :: "'w runtime" and wire client k root p stored handle pending_signals +
  assumes servable_file: "servable root p"
    and short_url: "length (base_url client) + 3 * length p < 900"
begin

lemma read_chunk:
  assumes "stored w c" "n \<le> 1024 * 1024" "int off \<le> LONG_MAX"
  shows "\<exists>w' endpoint reply. build_read_endpoint rt p (int off) n 1024 w = (Some endpoint, w) \<and>
    http_request_ex rt client ''GET'' endpoint [] None None w = (Ret reply, w') \<and> stored w' c \<and>
    check_read_response rt n (int off) reply = Ret (take n (drop off c))"
proof -
  let ?d = "take n (drop off c)"
  obtain w' md5 where r: "\<And>q m. query_value q ''path'' 2048 = Some p \<Longrightarrow> query_value q ''offset'' 64 = Some (show_int (int off)) \<Longrightarrow>
      query_value q ''size'' 64 = Some (show_int (int n)) \<Longrightarrow>
      handle_read k \<lparr>rc_method = ''GET'', rc_path = ''/v1/read'', rc_query = q, rc_content_md5 = m, rc_body = [], rc_root_dir = root\<rparr> w =
        (send_binary ?d md5, w')" "stored w' c" "httpfs_sparse_md5_hex (map byte_of ?d) (int off) = Some md5"
    using read_stored [OF assms(1,2,3) resolve_servable [OF servable_file]] by metis
  have "length ?d \<le> n" by simp
  from read_data_exchange [OF servable_file short_url assms(2,3) r(3) this r(1)] r(2) show ?thesis by blast
qed

lemma read_loop_served:
  assumes "stored w c" "int (off + sz) \<le> LONG_MAX" "data = take (length data) (drop off c)" "length data \<le> sz"
  shows "\<exists>w'. read_loop rt client p (int off) sz data w = (Ret (take sz (drop off c)), w') \<and> stored w' c"
  using assms(1,3,4)
proof (induction "sz - length data" arbitrary: data w rule: less_induct)
  case less
  let ?t = "length data"
  show ?case
  proof (cases "?t < sz")
    case False
    with less(3,4) show ?thesis using less(2) by (subst read_loop.simps) (metis le_neq_implies_less)
  next
    case True
    define n where "n = min (sz - ?t) HTTPFS_READ_CHUNK_SIZE"
    have chunk: "0 < n" "n \<le> 1024 * 1024" "?t + n \<le> sz" using True by (simp_all add: n_def HTTPFS_READ_CHUNK_SIZE_def)
    have "int (off + ?t) \<le> LONG_MAX" using assms(2) True by simp
    then obtain w' endpoint reply where r: "build_read_endpoint rt p (int (off + ?t)) n 1024 w = (Some endpoint, w)"
        "http_request_ex rt client ''GET'' endpoint [] None None w = (Ret reply, w')" "stored w' c"
        "check_read_response rt n (int (off + ?t)) reply = Ret (take n (drop (off + ?t) c))"
      using read_chunk [OF less(2) chunk(2)] by blast
    let ?d = "take n (drop (off + ?t) c)"
    have loop: "read_loop rt client p (int off) sz data w =
        (if length ?d < n then (Ret (data @ ?d), w') else read_loop rt client p (int off) sz (data @ ?d) w')"
      using r True by (subst read_loop.simps) (simp add: Let_def n_def [symmetric] del: length_take length_drop)
    have grow: "data @ ?d = take (?t + n) (drop off c)"
      by (subst less(3)) (simp only: take_add drop_drop add.commute [of off])
    show ?thesis
    proof (cases "length ?d < n")
      case short: True
      then have "data @ ?d = take sz (drop off c)" unfolding grow using chunk(3) by auto
      with short loop r(3) show ?thesis by (simp del: length_take length_drop)
    next
      case full: False
      then have d: "length ?d = n" by simp
      have "\<exists>w''. read_loop rt client p (int off) sz (data @ ?d) w' = (Ret (take sz (drop off c)), w'') \<and> stored w'' c"
      proof (rule less(1))
        show "data @ ?d = take (length (data @ ?d)) (drop off c)" unfolding length_append d by (rule grow)
      qed (use r(3) d chunk in \<open>simp_all del: length_take length_drop\<close>)
      with full loop show ?thesis by (simp del: length_take length_drop)
    qed
  qed
qed

lemma read_served:
  assumes "stored w c" "int (off + sz) \<le> LONG_MAX" "sz < 2 ^ 31"
  shows "\<exists>w'. httpfs_read rt client p sz (int off) w = (Some (int (length (take sz (drop off c))), take sz (drop off c)), w') \<and> stored w' c"
proof -
  obtain w' where "httpfs_read_file rt client p (int off) sz w = (Ret (take sz (drop off c)), w')" "stored w' c"
    using read_loop_served [OF assms(1,2), of "[]"] assms(1) by (cases "sz = 0") (auto simp: httpfs_read_file_def)
  moreover have "int_of_size (length (take sz (drop off c))) = int (length (take sz (drop off c)))"
    by (rule int_of_size_small) (use assms(3) in simp)
  ultimately show ?thesis by (simp add: httpfs_read_def fuse_result_def)
qed


lemma write_chunk:
  assumes "stored w c" "d \<noteq> []" "length d \<le> 1024 * 1024" "int off \<le> LONG_MAX"
  shows "\<exists>w' endpoint md5 reply. build_write_endpoint rt p (int off) 1024 w = (Some endpoint, w) \<and>
    httpfs_sparse_md5_hex (map byte_of d) (int off) = Some md5 \<and>
    http_request rt client ''POST'' endpoint d (Some ''application/octet-stream'') (Some md5) w = (Ret reply, w') \<and>
    stored w' (overwrite c off d) \<and> check_write_response rt (length d) md5 reply = Ret (length d)"
proof -
  obtain md5 where md5: "httpfs_sparse_md5_hex (map byte_of d) (int off) = Some md5"
    using sparse_md5_hex_spec [of "int off" "map byte_of d"] by auto
  have valid: "httpfs_is_valid_md5_hex md5" using sparse_md5_hex_valid [OF md5] .
  obtain w' where w': "store_and_verify k (local_path root p) d (int off) md5 w = Some (send_ok (write_payload (length d) md5), w')"
      "stored w' (overwrite c off d)"
    using store_verified [OF assms(1-3) md5] by blast
  from write_exchange [OF servable_file short_url assms(3,4) md5 write_payload_no_nul [OF valid] w'(1)] w'(2) md5
    write_response_read [OF valid, of "length d" rt] assms(3) show ?thesis by blast
qed

lemma write_loop_served:
  assumes "stored w c" "int (off + length data) \<le> LONG_MAX" "t < length data"
  shows "\<exists>w'. write_loop rt client p (int off) data t w = (Ret (length data), w') \<and> stored w' (overwrite c (off + t) (drop t data))"
  using assms(1,3)
proof (induction "length data - t" arbitrary: t w c rule: less_induct)
  case less
  define n where "n = min (length data - t) HTTPFS_WRITE_CHUNK_SIZE"
  define d where "d = take n (drop t data)"
  have n: "0 < n" "n \<le> 1024 * 1024" "t + n \<le> length data" using less(3) by (simp_all add: n_def HTTPFS_WRITE_CHUNK_SIZE_def)
  have d: "d \<noteq> []" "length d = n" using n less(3) by (auto simp: d_def)
  have "int (off + t) \<le> LONG_MAX" using assms(2) less(3) by simp
  then obtain w' endpoint md5 reply where r: "build_write_endpoint rt p (int (off + t)) 1024 w = (Some endpoint, w)"
      "httpfs_sparse_md5_hex (map byte_of d) (int (off + t)) = Some md5"
      "http_request rt client ''POST'' endpoint d (Some ''application/octet-stream'') (Some md5) w = (Ret reply, w')"
      "stored w' (overwrite c (off + t) d)" "check_write_response rt n md5 reply = Ret n"
    using write_chunk [OF less(2) d(1), of "off + t"] d(2) n(2) by auto
  have loop: "write_loop rt client p (int off) data t w = write_loop rt client p (int off) data (t + n) w'"
    using r less(3) by (subst write_loop.simps) (simp add: Let_def n_def [symmetric] d_def [symmetric])
  show ?case
  proof (cases "t + n < length data")
    case True
    have "\<exists>w''. write_loop rt client p (int off) data (t + n) w' = (Ret (length data), w'') \<and>
        stored w'' (overwrite (overwrite c (off + t) d) (off + (t + n)) (drop (t + n) data))"
      by (rule less(1)) (use True r(4) n(1) less(3) in simp_all)
    moreover have "overwrite (overwrite c (off + t) d) (off + (t + n)) (drop (t + n) data) = overwrite c (off + t) (d @ drop (t + n) data)"
      using overwrite_append [of c "off + t" d "drop (t + n) data"] d(2) by (simp add: add.assoc)
    moreover have "d @ drop (t + n) data = drop t data"
      unfolding d_def by (metis append_take_drop_id drop_drop add.commute)
    ultimately show ?thesis using loop by simp
  next
    case False
    with n(3) have e: "t + n = length data" by simp
    then have "d = drop t data" by (simp add: d_def)
    with loop r(4) e show ?thesis by (subst (asm) (2) write_loop.simps) auto
  qed
qed

lemma write_served:
  assumes "stored w c" "int (off + length data) \<le> LONG_MAX" "data \<noteq> []" "length data < 2 ^ 31"
  shows "\<exists>w'. httpfs_write rt client p data (int off) w = (Some (int (length data)), w') \<and> stored w' (overwrite c off data)"
proof -
  obtain w' where "httpfs_write_file rt client p (int off) data w = (Ret (length data), w')" "stored w' (overwrite c off data)"
    using write_loop_served [OF assms(1,2), of 0] assms(3) by (auto simp: httpfs_write_file_def)
  with int_of_size_small [OF assms(4)] show ?thesis by (simp add: httpfs_write_def fuse_result_def)
qed

lemma read_back:
  assumes "stored w c" "int (off + length data) \<le> LONG_MAX" "data \<noteq> []" "length data < 2 ^ 31"
  shows "\<exists>w' w''. httpfs_write rt client p data (int off) w = (Some (int (length data)), w') \<and>
    httpfs_read rt client p (length data) (int off) w' = (Some (int (length data), data), w'') \<and> stored w'' (overwrite c off data)"
proof -
  obtain w' where w': "httpfs_write rt client p data (int off) w = (Some (int (length data)), w')" "stored w' (overwrite c off data)"
    using write_served [OF assms] by blast
  have "take (length data) (drop off (overwrite c off data)) = data" by (simp add: overwrite_read)
  with read_served [OF w'(2) assms(2,4)] w' show ?thesis by auto
qed

end

end
