(* ===== verification/Mounted_Run.thy ===== *)
theory Mounted_Run
  imports Mounted_Data
begin

text \<open>
  Sequences of calls. \<open>local_call\<close> is the abstract specification of the mounted file system: the system calls that a program
  would make on the file system of the service itself, below its root directory, without the network between them. The
  table of FUSE operations refines it call by call, and so does every sequence of calls that keeps the limits of the
  protocol, which \<open>call_fits\<close> spells out for each call in the state in which it is made.
\<close>

subsection \<open>The system calls\<close>

definition local_stat :: "'w kernel \<Rightarrow> string \<Rightarrow> string \<Rightarrow> 'w \<Rightarrow> (int \<times> stat) \<times> 'w" where
  "local_stat k root p w =
     (case k_lstat k (local_path root p) w of (Inl e, w) \<Rightarrow> ((- e, zero_stat), w) | (Inr st, w) \<Rightarrow> ((0, st), w))"

text \<open>The names of an open directory; \<open>None\<close> when it never ends.\<close>

partial_function (option) read_names :: "'w kernel \<Rightarrow> int \<Rightarrow> 'w \<Rightarrow> (string list \<times> 'w) option" where
  "read_names k dir w =
     (case k_readdir k dir w of
        (None, w) \<Rightarrow> Some ([], w)
      | (Some n, w) \<Rightarrow> Option.bind (read_names k dir w) (\<lambda>(ns, w). Some (n # ns, w)))"

definition local_names :: "'w kernel \<Rightarrow> string \<Rightarrow> string \<Rightarrow> 'w \<Rightarrow> ((int \<times> string list) \<times> 'w) option" where
  "local_names k root p w =
     (case k_opendir k (local_path root p) w of
        (Inl e, w) \<Rightarrow> Some ((- e, []), w)
      | (Inr dir, w) \<Rightarrow> map_option (\<lambda>(ns, w). ((0, ns), k_closedir k dir w)) (read_names k dir w))"

definition local_read :: "'w kernel \<Rightarrow> string \<Rightarrow> string \<Rightarrow> nat \<Rightarrow> int \<Rightarrow> 'w \<Rightarrow> (int \<times> bytes) \<times> 'w" where
  "local_read k root p sz off w =
     (case k_open k (local_path root p) ReadOnly w of
        (Inl e, w) \<Rightarrow> ((- e, []), w)
      | (Inr fd, w) \<Rightarrow>
          (case k_pread k fd sz off w of
             (Inl e, w) \<Rightarrow> ((- e, []), k_close k fd w)
           | (Inr d, w) \<Rightarrow> ((int (length d), d), k_close k fd w)))"

definition local_write :: "'w kernel \<Rightarrow> string \<Rightarrow> string \<Rightarrow> bytes \<Rightarrow> int \<Rightarrow> 'w \<Rightarrow> int \<times> 'w" where
  "local_write k root p d off w =
     (case k_open k (local_path root p) ReadWrite w of
        (Inl e, w) \<Rightarrow> (- e, w)
      | (Inr fd, w) \<Rightarrow>
          (case k_pwrite k fd d off w of
             (Inl e, w) \<Rightarrow> (- e, k_close k fd w)
           | (Inr n, w) \<Rightarrow> (int n, k_close k fd w)))"

text \<open>Opening a file of the mount keeps no descriptor: what it answers is whether \<open>lstat\<close> finds the file.\<close>

definition local_call :: "'w kernel \<Rightarrow> string \<Rightarrow> fuse_call \<Rightarrow> 'w \<Rightarrow> (fuse_answer \<times> 'w) option" where
  "local_call k root call w =
     (case call of
        FuseGetattr p \<Rightarrow> Some (apfst (\<lambda>(r, st). AnswerStat r st) (local_stat k root p w))
      | FuseReaddir p \<Rightarrow> map_option (apfst (\<lambda>(r, ns). AnswerNames r ns)) (local_names k root p w)
      | FuseOpen p \<Rightarrow> Some (apfst (\<lambda>(r, st). Answer r) (local_stat k root p w))
      | FuseRead p sz off \<Rightarrow> Some (apfst (\<lambda>(r, d). AnswerData r d) (local_read k root p sz off w))
      | FuseWrite p d off \<Rightarrow> Some (apfst Answer (local_write k root p d off w))
      | FuseCreate p m \<Rightarrow> Some (answer Answer (as_status (create_exclusive k (local_path root p) m w)))
      | FuseMkdir p m \<Rightarrow> Some (answer Answer (as_status (k_mkdir k (local_path root p) m w)))
      | FuseUnlink p \<Rightarrow> Some (answer Answer (as_status (k_unlink k (local_path root p) w)))
      | FuseRmdir p \<Rightarrow> Some (answer Answer (as_status (k_rmdir k (local_path root p) w)))
      | FuseRename p q flags \<Rightarrow>
          Some (if flags \<noteq> 0 then (Answer (- EINVAL), w)
                else answer Answer (as_status (k_rename k (local_path root p) (local_path root q) w)))
      | FuseTruncate p sz \<Rightarrow> Some (answer Answer (as_status (k_truncate k (local_path root p) sz w)))
      | FuseUtimens p tv \<Rightarrow>
          Some (case tv of None \<Rightarrow> (Answer (- EINVAL), w)
                | Some (a, m) \<Rightarrow> answer Answer (as_status (k_utimensat k (local_path root p) a m w))))"

subsection \<open>The limits of the protocol\<close>

text \<open>A directory that ends, with at most 101 names that fit the payload and need no escape.\<close>

definition dir_fits :: "'w kernel \<Rightarrow> string \<Rightarrow> 'w \<Rightarrow> bool" where
  "dir_fits k path w =
     (case k_opendir k path w of
        (Inl e, w) \<Rightarrow> True
      | (Inr dir, w) \<Rightarrow>
          (case read_names k dir w of
             None \<Rightarrow> False
           | Some (ns, w) \<Rightarrow> listable path ns \<and> length ns \<le> 101 \<and> list_all (\<lambda>n. json_escape n = n) ns))"

text \<open>A write that is not interrupted and not short, and whose bytes are read back; \<open>mount_write\<close> is about the others.\<close>

definition write_fits :: "'w kernel \<Rightarrow> string \<Rightarrow> bytes \<Rightarrow> int \<Rightarrow> 'w \<Rightarrow> bool" where
  "write_fits k path d off w =
     (case k_open k path ReadWrite w of
        (Inl e, w) \<Rightarrow> True
      | (Inr fd, w) \<Rightarrow>
          (case k_pwrite k fd d off w of
             (Inl e, w) \<Rightarrow> e \<noteq> EINTR
           | (Inr n, w) \<Rightarrow> n = length d \<and> k_pread k fd n off w = (Inr d, w)))"

definition call_fits :: "'w kernel \<Rightarrow> string \<Rightarrow> httpfs_client \<Rightarrow> fuse_call \<Rightarrow> 'w \<Rightarrow> bool" where
  "call_fits k root client call w =
     (let url_fits = (\<lambda>p. length (base_url client) + 3 * length p < 900);
          quotable = (\<lambda>p. CHR 0x22 \<notin> set p \<and> CHR 0x5C \<notin> set p);
          range_fits = (\<lambda>n off. 0 < n \<and> n \<le> 1024 * 1024 \<and> 0 \<le> off \<and> off \<le> LONG_MAX)
      in case call of
           FuseGetattr p \<Rightarrow> servable root p \<and> url_fits p \<and> quotable p
         | FuseReaddir p \<Rightarrow> servable root p \<and> url_fits p \<and> dir_fits k (local_path root p) w
         | FuseOpen p \<Rightarrow> servable root p \<and> url_fits p \<and> quotable p
         | FuseRead p sz off \<Rightarrow> servable root p \<and> url_fits p \<and> range_fits sz off
         | FuseWrite p d off \<Rightarrow> servable root p \<and> url_fits p \<and> range_fits (length d) off \<and> write_fits k (local_path root p) d off w
         | FuseCreate p m \<Rightarrow> servable root p
         | FuseMkdir p m \<Rightarrow> servable root p
         | FuseUnlink p \<Rightarrow> servable root p
         | FuseRmdir p \<Rightarrow> servable root p
         | FuseRename p q flags \<Rightarrow> servable root p \<and> servable root q
         | FuseTruncate p sz \<Rightarrow> servable root p \<and> LONG_MIN \<le> sz \<and> sz \<le> LONG_MAX
         | FuseUtimens p tv \<Rightarrow> servable root p \<and> (case tv of None \<Rightarrow> True | Some (a, m) \<Rightarrow> time_fits a \<and> time_fits m))"

subsection \<open>Runs\<close>

fun mount_run :: "'w runtime \<Rightarrow> httpfs_client \<Rightarrow> fuse_call list \<Rightarrow> 'w \<Rightarrow> fuse_answer list \<times> 'w" where
  "mount_run rt client [] w = ([], w)"
| "mount_run rt client (c # cs) w =
     (let (a, w) = httpfs_ops rt client c w; (as, w) = mount_run rt client cs w in (a # as, w))"

fun local_run :: "'w kernel \<Rightarrow> string \<Rightarrow> fuse_call list \<Rightarrow> 'w \<Rightarrow> (fuse_answer list \<times> 'w) option" where
  "local_run k root [] w = Some ([], w)"
| "local_run k root (c # cs) w =
     Option.bind (local_call k root c w) (\<lambda>(a, w). map_option (apfst ((#) a)) (local_run k root cs w))"

text \<open>Each call keeps the limits in the state that the system calls before it have left.\<close>

fun run_fits :: "'w kernel \<Rightarrow> string \<Rightarrow> httpfs_client \<Rightarrow> fuse_call list \<Rightarrow> 'w \<Rightarrow> bool" where
  "run_fits k root client [] w \<longleftrightarrow> True"
| "run_fits k root client (c # cs) w \<longleftrightarrow> call_fits k root client c w \<and>
     (case local_call k root c w of None \<Rightarrow> False | Some (a, w) \<Rightarrow> run_fits k root client cs w)"

text \<open>
  What the service relies on: the errors of the system calls are error numbers, attributes fit their fields, \<open>lstat\<close> and
  \<open>pread\<close> do not change the file system beyond what they return, a read returns no more than was asked for, and there is memory for a chunk.
\<close>

locale kernel_contract =
  fixes k :: "'w kernel"
  assumes lstat_errno: "k_lstat k path w = (Inl e, w') \<Longrightarrow> is_errno e"
    and lstat_fits: "k_lstat k path w = (Inr st, w') \<Longrightarrow> stat_fits st"
    and lstat_keeps: "snd (k_lstat k path w) = w"
    and opendir_errno: "k_opendir k path w = (Inl e, w') \<Longrightarrow> is_errno e"
    and open_errno: "k_open k path om w = (Inl e, w') \<Longrightarrow> is_errno e"
    and pread_errno: "k_pread k fd n off w = (Inl e, w') \<Longrightarrow> is_errno e"
    and pread_length: "k_pread k fd n off w = (Inr d, w') \<Longrightarrow> length d \<le> n"
    and pwrite_errno: "k_pwrite k fd d off w = (Inl e, w') \<Longrightarrow> is_errno e"
    and mkdir_errno: "k_mkdir k path mode w = (Some e, w') \<Longrightarrow> is_errno e"
    and unlink_errno: "k_unlink k path w = (Some e, w') \<Longrightarrow> is_errno e"
    and rmdir_errno: "k_rmdir k path w = (Some e, w') \<Longrightarrow> is_errno e"
    and rename_errno: "k_rename k path path' w = (Some e, w') \<Longrightarrow> is_errno e"
    and truncate_errno: "k_truncate k path sz w = (Some e, w') \<Longrightarrow> is_errno e"
    and utimensat_errno: "k_utimensat k path a m w = (Some e, w') \<Longrightarrow> is_errno e"
    and malloc_chunk: "n \<le> 1024 * 1024 + 1 \<Longrightarrow> k_malloc k n"
begin

lemma create_errno: "create_exclusive k path mode w = (Some e, w') \<Longrightarrow> is_errno e"
  by (auto simp: create_exclusive_def split: prod.split_asm sum.split_asm intro: open_errno)

lemma read_names_stream:
  assumes "read_names k dir w = Some (ns, w')"
  shows "\<exists>es. dir_stream k path dir w es w' \<and> map fst es = ns"
proof -
  have "k = k \<longrightarrow> (\<exists>es. dir_stream k path dir w es (snd (ns, w')) \<and> map fst es = fst (ns, w'))"
  proof (rule read_names.raw_induct
      [where P = "\<lambda>a dir w r. a = k \<longrightarrow> (\<exists>es. dir_stream k path dir w es (snd r) \<and> map fst es = fst r)", OF _ assms], intro impI)
    fix rec a dir w r
    assume rec: "\<And>a dir w r. rec a dir w = Some r \<Longrightarrow> a = k \<longrightarrow> (\<exists>es. dir_stream k path dir w es (snd r) \<and> map fst es = fst r)"
      and body: "(case k_readdir a dir w of (None, w) \<Rightarrow> Some ([], w)
        | (Some n, w) \<Rightarrow> Option.bind (rec a dir w) (\<lambda>(ns, w). Some (n # ns, w))) = Some r"
      and eq: "a = k"
    obtain x w1 where x: "k_readdir k dir w = (x, w1)" by fastforce
    show "\<exists>es. dir_stream k path dir w es (snd r) \<and> map fst es = fst r"
    proof (cases x)
      case None
      with x body eq dir_stream.stop [of k dir w w1 path] show ?thesis by auto
    next
      case (Some n)
      with x body eq obtain ns w2 where ns: "rec k dir w1 = Some (ns, w2)" "r = (n # ns, w2)" by (auto simp: bind_eq_Some_conv)
      from rec [OF ns(1)] obtain es where es: "dir_stream k path dir w1 es w2" "map fst es = ns" by auto
      obtain st where "k_lstat k (path @ ''/'' @ n) w1 = (st, w1)" using lstat_keeps [of "path @ ''/'' @ n" w1] by (metis prod.collapse)
      from dir_stream.entry [OF _ this es(1)] x Some es(2) ns(2) show ?thesis by (intro exI [of _ "(n, list_type st) # es"]) simp
    qed
  qed
  then show ?thesis by simp
qed

end

locale mount = connected rt wire client k root + kernel_contract k
  for rt :: "'w runtime" and wire client k root +
  assumes short_base: "length (base_url client) < 900"
begin

lemma stat_call:
  assumes "servable root p" "length (base_url client) + 3 * length p < 900" "CHR 0x22 \<notin> set p" "CHR 0x5C \<notin> set p"
  shows "httpfs_getattr_impl rt client p w = apfst Some (local_stat k root p w)"
proof -
  have malloc: "k_malloc k (length p + 256)" using assms(2) by (intro malloc_chunk) simp
  have url: "length (base_url client) + 3 * length p < 1000" using assms(2) by simp
  show ?thesis
    using lstat_errno lstat_fits malloc
    by (subst getattr_served [OF assms(1,3,4) url]) (auto simp: local_stat_def split: prod.split sum.split)
qed

lemma fill_all: "fill_names (\<lambda>ns n. (False, ns @ [n])) ns buf = (0, buf @ ns)"
  by (induction ns arbitrary: buf) simp_all

lemma names_call:
  assumes "servable root p" "length (base_url client) + 3 * length p < 900" "dir_fits k (local_path root p) w"
  shows "\<exists>r. local_names k root p w = Some r \<and> httpfs_readdir_impl rt client p (\<lambda>ns n. (False, ns @ [n])) [] w = apfst Some r"
proof -
  obtain x w1 where x: "k_opendir k (local_path root p) w = (x, w1)" by fastforce
  have url: "length (base_url client) + 3 * length p < 1000" using assms(2) by simp
  show ?thesis
  proof (cases x)
    case (Inl e)
    with x have o: "k_opendir k (local_path root p) w = (Inl e, w1)" by simp
    from readdir_failed [OF assms(1) url o opendir_errno [OF o], where filler = "\<lambda>ns n. (False, ns @ [n])" and buf = "[]"] o
    show ?thesis by (simp add: local_names_def)
  next
    case (Inr dir)
    with x have o: "k_opendir k (local_path root p) w = (Inr dir, w1)" by simp
    with assms(3) obtain ns w2 where ns: "read_names k dir w1 = Some (ns, w2)" "listable (local_path root p) ns" "length ns \<le> 101"
        "list_all (\<lambda>n. json_escape n = n) ns"
      by (auto simp: dir_fits_def split: option.split_asm)
    obtain es where es: "dir_stream k (local_path root p) dir w1 es w2" "map fst es = ns" using read_names_stream [OF ns(1)] by blast
    have len: "length es \<le> 101" using ns(3) es(2) by (metis length_map)
    have plain: "map json_escape ns = ns" using ns(4) by (induction ns) simp_all
    from readdir_served [OF assms(1) url o es(1) _ len, where filler = "\<lambda>ns n. (False, ns @ [n])" and buf = "[]", unfolded es(2)]
      ns(1,2) o plain show ?thesis
      by (simp add: local_names_def fill_all)
  qed
qed

lemma read_call:
  assumes "servable root p" "length (base_url client) + 3 * length p < 900" "0 < sz" "sz \<le> 1024 * 1024" "int off \<le> LONG_MAX"
  shows "httpfs_read rt client p sz (int off) w = apfst Some (local_read k root p sz (int off) w)"
proof -
  obtain x w1 where x: "k_open k (local_path root p) ReadOnly w = (x, w1)" by fastforce
  have num: "fst (strtoll (show_int (int n))) = int n" if "int n \<le> LONG_MAX" for n
    using strtoll_show_int [of "int n" "[]"] that by (simp add: LONG_MIN_def)
  have sz: "int sz \<le> LONG_MAX" using assms(4) by (simp add: LONG_MAX_def)
  have malloc: "k_malloc k (sz + 1)" using assms(4) by (intro malloc_chunk) simp
  note handled = num [OF assms(5)] num [OF sz] resolve_servable [OF assms(1)] malloc
  have chunk: "min sz HTTPFS_READ_CHUNK_SIZE = sz" using assms(4) by (simp add: HTTPFS_READ_CHUNK_SIZE_def)
  have failed: ?thesis if e: "is_errno e" and loc: "local_read k root p sz (int off) w = ((- e, []), w')"
    and reply: "\<And>q m. query_value q ''path'' 2048 = Some p \<Longrightarrow> query_value q ''offset'' 64 = Some (show_int (int off)) \<Longrightarrow>
      query_value q ''size'' 64 = Some (show_int (int sz)) \<Longrightarrow>
      handle_read k \<lparr>rc_method = ''GET'', rc_path = ''/v1/read'', rc_query = q, rc_content_md5 = m, rc_body = [], rc_root_dir = root\<rparr> w =
        (send_errno k e, w')" for e w'
  proof -
    obtain endpoint r t where "build_read_endpoint rt p (int off) sz 1024 w = (Some endpoint, w)"
        "http_request_ex rt client ''GET'' endpoint [] None None w = (Ret r, w')" "check_read_response rt sz (int off) r = Fail (set_error e t)"
      using read_error_exchange [OF assms(1,2,4,5) e reply] by blast
    then show ?thesis using assms(3) loc chunk neg_errno_set_error [OF e]
      by (simp add: httpfs_read_def httpfs_read_file_def read_loop.simps [where data = "[]"] Let_def fuse_result_def)
  qed
  show ?thesis
  proof (cases x)
    case (Inl e)
    show ?thesis by (rule failed [of e w1]) (use x Inl open_errno handled in \<open>simp_all add: local_read_def handle_read_def\<close>)
  next
    case (Inr fd)
    obtain y w2 where y: "k_pread k fd sz (int off) w1 = (y, w2)" by fastforce
    show ?thesis
    proof (cases y)
      case (Inl e)
      show ?thesis
        by (rule failed [of e "k_close k fd w2"]) (use x y \<open>x = Inr fd\<close> Inl pread_errno handled in \<open>simp_all add: local_read_def handle_read_def\<close>)
    next
      case (Inr d)
      obtain md5 where md5: "httpfs_sparse_md5_hex (map byte_of d) (int off) = Some md5"
        using sparse_md5_hex_spec [of "int off" "map byte_of d"] by auto
      have d: "length d \<le> sz" using pread_length y Inr by blast
      obtain endpoint r where "build_read_endpoint rt p (int off) sz 1024 w = (Some endpoint, w)"
          "http_request_ex rt client ''GET'' endpoint [] None None w = (Ret r, k_close k fd w2)" "check_read_response rt sz (int off) r = Ret d"
        using read_data_exchange [OF assms(1,2,4,5) md5 d, of w "k_close k fd w2"] x y \<open>x = Inr fd\<close> Inr md5 handled
        by (auto simp: handle_read_def)
      then have "httpfs_read_file rt client p (int off) sz w = (Ret d, k_close k fd w2)"
        using assms(3) chunk d
        by (simp add: httpfs_read_file_def read_loop.simps [where data = "[]"] read_loop.simps [where data = d] Let_def)
      moreover have "int_of_size (length d) = int (length d)" by (rule int_of_size_small) (use d assms(4) in simp)
      ultimately show ?thesis using x y \<open>x = Inr fd\<close> Inr by (simp add: httpfs_read_def fuse_result_def local_read_def)
    qed
  qed
qed

lemma write_call:
  assumes "servable root p" "length (base_url client) + 3 * length p < 900" "0 < length d" "length d \<le> 1024 * 1024" "int off \<le> LONG_MAX"
    and "write_fits k (local_path root p) d (int off) w"
  shows "httpfs_write rt client p d (int off) w = apfst Some (local_write k root p d (int off) w)"
proof -
  obtain md5 where md5: "httpfs_sparse_md5_hex (map byte_of d) (int off) = Some md5"
    using sparse_md5_hex_spec [of "int off" "map byte_of d"] by auto
  have valid: "httpfs_is_valid_md5_hex md5" using sparse_md5_hex_valid [OF md5] .
  have ne: "d \<noteq> []" using assms(3) by simp
  have chunk: "min (length d) HTTPFS_WRITE_CHUNK_SIZE = length d" using assms(4) by (simp add: HTTPFS_WRITE_CHUNK_SIZE_def)
  have failed: ?thesis if e: "is_errno e" and loc: "local_write k root p d (int off) w = (- e, w')"
    and reply: "store_and_verify k (local_path root p) d (int off) md5 w = Some (send_errno k e, w')" for e w'
  proof -
    obtain m where m: "send_errno k e = send_ok (error_payload e m)" "jstr m" "CHR 0x00 \<notin> set m"
      using is_errno_long [OF e] send_error_payload [of e "k_strerror k e"] unfolding send_errno_def by metis
    obtain endpoint where "build_write_endpoint rt p (int off) 1024 w = (Some endpoint, w)"
        "http_request rt client ''POST'' endpoint d (Some ''application/octet-stream'') (Some md5) w = (Ret (200, error_payload e m), w')"
      using write_exchange [OF assms(1,2,4,5) md5 error_payload_no_nul [OF m(3)] reply [unfolded m(1)]] by blast
    moreover obtain t where "check_write_response rt (length d) md5 (200, error_payload e m) = Fail (set_error e t)"
      using error_response_read(1) [OF e m(2), of "local_tokens rt 256"] by (auto simp: check_write_response_def)
    ultimately show ?thesis using ne md5 loc chunk neg_errno_set_error [OF e]
      by (simp add: httpfs_write_def httpfs_write_file_def write_loop.simps [where total_written = 0] Let_def fuse_result_def)
  qed
  obtain x w1 where x: "k_open k (local_path root p) ReadWrite w = (x, w1)" by fastforce
  show ?thesis
  proof (cases x)
    case (Inl e)
    show ?thesis by (rule failed [of e w1]) (use x Inl open_errno in \<open>simp_all add: local_write_def store_and_verify_def\<close>)
  next
    case (Inr fd)
    obtain y w2 where y: "k_pwrite k fd d (int off) w1 = (y, w2)" by fastforce
    show ?thesis
    proof (cases y)
      case (Inl e)
      have "e \<noteq> EINTR" using assms(6) x y \<open>x = Inr fd\<close> Inl by (simp add: write_fits_def)
      then have "pwrite_full k fd d (int off) 0 w1 = Some (Inl e, w2)"
        using y Inl ne by (simp add: pwrite_full.simps)
      then show ?thesis
        by (intro failed [of e "k_close k fd w2"])
          (use x y \<open>x = Inr fd\<close> Inl pwrite_errno in \<open>simp_all add: local_write_def store_and_verify_def\<close>)
    next
      case (Inr n)
      have n: "n = length d" and reads: "k_pread k fd (length d) (int off) w2 = (Inr d, w2)"
        using assms(6) x y \<open>x = Inr fd\<close> Inr by (auto simp: write_fits_def)
      have full: "pwrite_full k fd d (int off) 0 w1 = Some (Inr (length d), w2)"
        using y Inr n ne by (simp add: pwrite_full.simps [where total_written = 0] pwrite_full.simps [where total_written = "length d"])
      have again: "pread_full k fd (length d) (int off) [] w2 = Some (Inr d, w2)"
        using reads ne by (simp add: pread_full.simps [where data = "[]"] pread_full.simps [where data = d])
      have "length (show_nat (length d)) \<le> 7" using assms(4) by (intro length_show_nat_le) simp_all
      moreover have "length md5 = 32" using valid by (simp add: httpfs_is_valid_md5_hex_def)
      ultimately have cut: "fst (snprintf 256 (write_payload (length d) md5)) = write_payload (length d) md5"
        by (simp add: snprintf_def write_payload_def)
      have "k_malloc k (if length d > 0 then length d else 1)" using assms(4) by (intro malloc_chunk) simp
      then have "store_and_verify k (local_path root p) d (int off) md5 w = Some (send_ok (write_payload (length d) md5), k_close k fd w2)"
        using x \<open>x = Inr fd\<close> full again md5 cut by (simp add: store_and_verify_def Let_def)
      from write_exchange [OF assms(1,2,4,5) md5 write_payload_no_nul [OF valid] this] obtain endpoint where
        "build_write_endpoint rt p (int off) 1024 w = (Some endpoint, w)"
        "http_request rt client ''POST'' endpoint d (Some ''application/octet-stream'') (Some md5) w =
          (Ret (200, write_payload (length d) md5), k_close k fd w2)" by blast
      then have "httpfs_write_file rt client p (int off) d w = (Ret (length d), k_close k fd w2)"
        using ne md5 chunk write_response_read [OF valid assms(4), of rt]
        by (simp add: httpfs_write_file_def write_loop.simps [where total_written = 0] write_loop.simps [where total_written = "length d"] Let_def)
      moreover have "int_of_size (length d) = int (length d)" by (rule int_of_size_small) (use assms(4) in simp)
      ultimately show ?thesis using x y \<open>x = Inr fd\<close> Inr n by (simp add: httpfs_write_def fuse_result_def local_write_def)
    qed
  qed
qed

lemma refines_call:
  assumes "call_fits k root client call w"
  shows "local_call k root call w = Some (httpfs_ops rt client call w)"
proof (cases call)
  case (FuseReaddir p)
  with assms names_call [of p w] show ?thesis
    by (auto simp: call_fits_def local_call_def httpfs_ops_def httpfs_readdir_def answer_def Let_def)
next
  case (FuseGetattr p)
  with assms stat_call [of p w] show ?thesis
    by (auto simp: httpfs_ops_def httpfs_getattr_def answer_def call_fits_def local_call_def apfst_def map_prod_def split: prod.splits)
next
  case (FuseOpen p)
  with assms stat_call [of p w] show ?thesis
    by (auto simp: httpfs_ops_def open_getattr answer_def call_fits_def local_call_def apfst_def map_prod_def split: prod.splits)
next
  case (FuseRead p sz off)
  moreover from this assms obtain i where "off = int i" by (auto simp: call_fits_def Let_def elim: nonneg_int_cases)
  ultimately show ?thesis using assms read_call [of p sz i w]
    by (auto simp: httpfs_ops_def answer_def call_fits_def local_call_def apfst_def map_prod_def Let_def split: prod.splits)
next
  case (FuseWrite p d off)
  moreover from this assms obtain i where "off = int i" by (auto simp: call_fits_def Let_def elim: nonneg_int_cases)
  ultimately show ?thesis using assms write_call [of p d i w]
    by (auto simp: httpfs_ops_def answer_def call_fits_def local_call_def apfst_def map_prod_def Let_def split: prod.splits)
next
  case (FuseUtimens p tv)
  have "neg_errno (set_error EINVAL m) = - EINVAL" for m by (rule neg_errno_set_error) (simp add: is_errno_def EINVAL_def)
  with FuseUtimens assms utimens_served [OF _ _ _ short_base utimensat_errno] show ?thesis
    by (cases tv) (auto simp: httpfs_ops_def call_fits_def local_call_def answer_def httpfs_utimens_def httpfs_utimens_impl_def
        httpfs_update_times_def fuse_status_def fuse_result_def)
next
  case (FuseRename p q flags)
  with assms rename_served [OF _ _ short_base rename_errno] show ?thesis
    by (auto simp: httpfs_ops_def call_fits_def local_call_def httpfs_rename_def answer_def)
qed (use assms truncate_served [OF _ short_base _ _ truncate_errno] remove_served(1) [OF _ short_base unlink_errno]
    remove_served(2) [OF _ short_base rmdir_errno] create_served(1) [OF _ short_base create_errno]
    create_served(2) [OF _ short_base mkdir_errno]
  in \<open>auto simp: httpfs_ops_def call_fits_def local_call_def\<close>)

lemma refines_run:
  "run_fits k root client calls w \<Longrightarrow> local_run k root calls w = Some (mount_run rt client calls w)"
proof (induction calls arbitrary: w)
  case (Cons c cs)
  then have c: "local_call k root c w = Some (httpfs_ops rt client c w)" using refines_call by simp
  obtain a w1 where a: "httpfs_ops rt client c w = (a, w1)" by fastforce
  with Cons c have "local_run k root cs w1 = Some (mount_run rt client cs w1)" by simp
  with a c show ?case by (simp add: Let_def case_prod_unfold apfst_def map_prod_def)
qed simp

end

end
