(* ===== verification/Loopback.thy ===== *)
theory Loopback
  imports Mounted_Run
begin

text \<open>
  Concrete instances of the parameters: a runtime that hands each request directly to the service
  (\<open>loop_runtime\<close>, for any kernel), and a small kernel with files in memory (\<open>mem_kernel\<close>) whose writes are interrupted
  by pending signals and store at most four bytes at a time. The interpretations discharge the interfaces \<open>connected\<close>,
  \<open>file_store\<close> and \<open>mounted_file\<close> for them.
\<close>

subsection \<open>A runtime without a network\<close>

definition pct_enc :: "char \<Rightarrow> string" where
  "pct_enc c = (if url_unreserved c then [c] else [CHR ''%'', hex_digits ! (of_char c div 16), hex_digits ! (of_char c mod 16)])"

lemma hex_value_digit: "n < 16 \<Longrightarrow> hex_value (hex_digits ! n) = int n"
  using less_16_cases [of n] by (auto simp: hex_digits_def hex_value_def)

lemma pct_enc_encoded: "pct_encoded pct_enc"
proof -
  have "(of_char c :: nat) div 16 < 16" for c :: char using of_char_less_256 [of c] by (simp add: less_mult_imp_div_less)
  then show ?thesis by (simp add: pct_encoded_def pct_enc_def hex_value_digit)
qed

definition loop_wire :: "string \<Rightarrow> request \<Rightarrow> bytes" where
  "loop_wire url rq = http_text (if rq_body rq = None then ''GET'' else ''POST'') (drop (length url) (rq_url rq))
     ((''Content-Length: '' @ show_nat (length (rq_payload rq))) # rq_headers rq) (rq_payload rq)"

lemma loop_wire_writes: "writes_requests (loop_wire url) url"
  unfolding writes_requests_def
proof (intro allI impI, elim conjE)
  fix rq endpoint
  assume rq: "rq_url rq = url @ endpoint" "int (length (rq_payload rq)) \<le> LONG_MAX" "list_all line_ok (rq_headers rq)"
  let ?l = "''Content-Length: '' @ show_nat (length (rq_payload rq))" and ?P = "\<lambda>l. line_names l ''X-HTTPFS-Content-MD5''"
  have l: "line_ok ?l" by (rule show_nat_line) simp_all
  have no: "\<not> ?P ?l" by (simp add: line_names_def strncaseeq_def tolower_def)
  have "announces (?l # rq_headers rq) (length (rq_payload rq))"
    unfolding announces_def using rq(2) by (intro conjI disjI2 exI [of _ "[]"] exI [of _ "rq_headers rq"]) simp_all
  moreover have "\<exists>a b. ?l # rq_headers rq = a @ (''X-HTTPFS-Content-MD5: '' @ v) # b \<and> list_all (\<lambda>l. \<not> ?P l) a"
    if v: "filter ?P (rq_headers rq) = [''X-HTTPFS-Content-MD5: '' @ v]" for v
  proof -
    obtain us vs where "rq_headers rq = us @ (''X-HTTPFS-Content-MD5: '' @ v) # vs" "\<forall>u \<in> set us. \<not> ?P u"
      using v by (auto simp: filter_eq_Cons_iff)
    with no show ?thesis by (intro exI [of _ "?l # us"] exI [of _ vs]) (simp add: list_all_iff)
  qed
  moreover have "loop_wire url rq = http_text (if rq_body rq = None then ''GET'' else ''POST'') endpoint (?l # rq_headers rq) (rq_payload rq)"
    by (simp add: loop_wire_def rq(1))
  ultimately show "\<exists>hs. loop_wire url rq = http_text (if rq_body rq = None then ''GET'' else ''POST'') endpoint hs (rq_payload rq) \<and>
      list_all line_ok hs \<and> announces hs (length (rq_payload rq)) \<and>
      (\<forall>v. filter ?P (rq_headers rq) = [''X-HTTPFS-Content-MD5: '' @ v] \<longrightarrow>
         (\<exists>a b. hs = a @ (''X-HTTPFS-Content-MD5: '' @ v) # b \<and> list_all (\<lambda>l. \<not> ?P l) a))"
    using rq(3) l by (intro exI [of _ "?l # rq_headers rq"]) simp
qed

function split_reply :: "bytes \<Rightarrow> string list \<times> bytes" where
  "split_reply s =
     (case strstr s CRLF of
        None \<Rightarrow> ([], s)
      | Some i \<Rightarrow> if i = 0 then ([], drop 2 s)
                else (let (ls, body) = split_reply (drop (i + 2) s) in (take i s # ls, body)))"
  by pat_completeness auto
termination
proof (relation "measure length", goal_cases)
  case (2 s i)
  then have "s \<noteq> []" by (auto simp: CRLF_def)
  then show ?case by (cases s) auto
qed simp

declare split_reply.simps [simp del]

lemma split_reply_lines: "list_all line_ok ls \<Longrightarrow> split_reply (header_block ls @ CRLF @ body) = (ls, body)"
proof (induction ls)
  case Nil
  then show ?case by (subst split_reply.simps) (simp add: CRLF_def)
next
  case (Cons l ls)
  then have l: "line_ok l" "l \<noteq> []" by (auto simp: line_ok_def)
  from Cons show ?case using l find_line_end [OF l(1), of "header_block ls @ CRLF @ body"]
    by (subst split_reply.simps) (simp add: CRLF_def)
qed

definition loop_runtime :: "'w kernel \<Rightarrow> string \<Rightarrow> string \<Rightarrow> 'w runtime" where
  "loop_runtime k root url =
     \<lparr>curl_easy_init = (\<lambda>w. (True, w)),
      curl_easy_escape = (\<lambda>p. Some (concat (map pct_enc p))),
      curl_easy_perform = (\<lambda>rq w.
        case process_request_buffer k root (loop_wire url rq) w of
          None \<Rightarrow> (CurlError ''Timeout was reached'', w)
        | Some (reply, w') \<Rightarrow>
            (let (ls, body) = split_reply reply in (Transferred 200 (map (\<lambda>l. l @ CRLF) ls @ [CRLF]) [body], w'))),
      stack = (\<lambda>i. mk_tok JSMN_UNDEFINED 0 0 0 0)\<rparr>"

lemma loop_runtime_serves: "serves (loop_runtime k root url) (loop_wire url) k root"
  unfolding serves_def by (auto simp: loop_runtime_def split_reply_lines)

interpretation loop: connected "loop_runtime k root (base_url client)" "loop_wire (base_url client)" client k root
  for k root client
proof unfold_locales
  show "curl_ready (loop_runtime k root (base_url client))"
    using pct_enc_encoded by (auto simp: curl_ready_def loop_runtime_def)
qed (rule loop_wire_writes loop_runtime_serves)+

subsection \<open>A kernel with files in memory\<close>

record mem_fs =
  mem_files :: "string \<rightharpoonup> bytes"
  mem_names :: "string list"
  mem_open :: "string option"
  mem_dir :: "string list"
  mem_signals :: nat

definition mem_stat :: "bytes \<Rightarrow> stat" where
  "mem_stat c = \<lparr>st_mode = 0x81A4, st_size = min (int (length c)) LONG_MAX, st_uid = 1000, st_gid = 1000, st_nlink = 1, st_atime = 1, st_mtime = 2, st_ctime = 3\<rparr>"

definition mem_update :: "string \<Rightarrow> (bytes \<Rightarrow> bytes) \<Rightarrow> mem_fs \<Rightarrow> int option \<times> mem_fs" where
  "mem_update path f w =
     (case mem_files w path of
        None \<Rightarrow> (Some 2, w)
      | Some c \<Rightarrow> (None, w\<lparr>mem_files := (mem_files w)(path \<mapsto> f c)\<rparr>))"

definition mem_kernel :: "mem_fs kernel" where
  "mem_kernel =
     \<lparr>k_lstat = (\<lambda>path w. (case mem_files w path of None \<Rightarrow> Inl 2 | Some c \<Rightarrow> Inr (mem_stat c), w)),
      k_opendir = (\<lambda>path w. (Inr 5, w\<lparr>mem_dir := mem_names w\<rparr>)),
      k_readdir = (\<lambda>dir w. case mem_dir w of [] \<Rightarrow> (None, w) | n # ns \<Rightarrow> (Some n, w\<lparr>mem_dir := ns\<rparr>)),
      k_closedir = (\<lambda>dir w. w\<lparr>mem_dir := []\<rparr>),
      k_open = (\<lambda>path m w.
        case m of
          CreateExclusive mode \<Rightarrow>
            if mem_files w path \<noteq> None then (Inl 17, w)
            else (Inr 3, w\<lparr>mem_files := (mem_files w)(path \<mapsto> []), mem_open := Some path\<rparr>)
        | _ \<Rightarrow> if mem_files w path = None then (Inl 2, w) else (Inr 3, w\<lparr>mem_open := Some path\<rparr>)),
      k_close = (\<lambda>fd w. w\<lparr>mem_open := None\<rparr>),
      k_pread = (\<lambda>fd n off w.
        (case Option.bind (mem_open w) (mem_files w) of None \<Rightarrow> Inl 9 | Some c \<Rightarrow> Inr (take n (drop (nat off) c)), w)),
      k_pwrite = (\<lambda>fd d off w.
        if 0 < mem_signals w then (Inl EINTR, w\<lparr>mem_signals := mem_signals w - 1\<rparr>)
        else case mem_open w of
               None \<Rightarrow> (Inl 9, w)
             | Some path \<Rightarrow> (Inr (length (take 4 d)), snd (mem_update path (\<lambda>c. overwrite c (nat off) (take 4 d)) w))),
      k_mkdir = (\<lambda>path mode w. (None, w\<lparr>mem_names := path # mem_names w\<rparr>)),
      k_unlink = (\<lambda>path w. if mem_files w path = None then (Some 2, w) else (None, w\<lparr>mem_files := (mem_files w)(path := None)\<rparr>)),
      k_rmdir = (\<lambda>path w. (Some 20, w)),
      k_rename = (\<lambda>a b w.
        if mem_files w a = None then (Some 2, w)
        else (None, w\<lparr>mem_files := (mem_files w)(a := None, b := mem_files w a)\<rparr>)),
      k_truncate = (\<lambda>path n w. mem_update path (\<lambda>c. take (nat n) (c @ replicate (nat n - length c) (CHR 0x00))) w),
      k_utimensat = (\<lambda>path a m w. mem_update path id w),
      k_strerror = (\<lambda>e. ''error''),
      k_malloc = (\<lambda>n. True)\<rparr>"

interpretation mem: file_store mem_kernel path "\<lambda>w c. mem_files w path = Some c"
    "\<lambda>fd w c. mem_open w = Some path \<and> mem_files w path = Some c" mem_signals
  for path
proof unfold_locales
  fix fd and w :: mem_fs and c d off
  assume h: "mem_open w = Some path \<and> mem_files w path = Some c" "d \<noteq> ([] :: bytes)"
  show "(\<exists>w'. k_pwrite mem_kernel fd d (int off) w = (Inl EINTR, w') \<and> (mem_open w' = Some path \<and> mem_files w' path = Some c) \<and>
        mem_signals w' < mem_signals w) \<or>
     (\<exists>n w'. k_pwrite mem_kernel fd d (int off) w = (Inr n, w') \<and> 0 < n \<and> n \<le> length d \<and>
        mem_open w' = Some path \<and> mem_files w' path = Some (overwrite c off (take n d)))"
  proof (cases "0 < mem_signals w")
    case True
    with h show ?thesis by (simp add: mem_kernel_def)
  next
    case False
    have "0 < length (take 4 d)" "length (take 4 d) \<le> length d" "take (length (take 4 d)) d = take 4 d"
      using h(2) by (auto simp: min_def)
    with False h show ?thesis by (intro disjI2 exI [of _ "length (take 4 d)"]) (simp add: mem_kernel_def mem_update_def)
  qed
qed (auto simp: mem_kernel_def)

text \<open>The calls one by one, for runs on this kernel.\<close>

lemma mem_kernel_calls:
  "k_lstat mem_kernel path w = (case mem_files w path of None \<Rightarrow> Inl 2 | Some c \<Rightarrow> Inr (mem_stat c), w)"
  "k_opendir mem_kernel path w = (Inr 5, w\<lparr>mem_dir := mem_names w\<rparr>)"
  "k_closedir mem_kernel dir w = w\<lparr>mem_dir := []\<rparr>"
  "k_open mem_kernel path (CreateExclusive mode) w =
     (if mem_files w path \<noteq> None then (Inl 17, w) else (Inr 3, w\<lparr>mem_files := (mem_files w)(path \<mapsto> []), mem_open := Some path\<rparr>))"
  "k_open mem_kernel path ReadOnly w = (if mem_files w path = None then (Inl 2, w) else (Inr 3, w\<lparr>mem_open := Some path\<rparr>))"
  "k_open mem_kernel path ReadWrite w = (if mem_files w path = None then (Inl 2, w) else (Inr 3, w\<lparr>mem_open := Some path\<rparr>))"
  "k_close mem_kernel fd w = w\<lparr>mem_open := None\<rparr>"
  "k_pread mem_kernel fd n off w =
     (case Option.bind (mem_open w) (mem_files w) of None \<Rightarrow> Inl 9 | Some c \<Rightarrow> Inr (take n (drop (nat off) c)), w)"
  "k_pwrite mem_kernel fd d off w =
     (if 0 < mem_signals w then (Inl EINTR, w\<lparr>mem_signals := mem_signals w - 1\<rparr>)
      else case mem_open w of
             None \<Rightarrow> (Inl 9, w)
           | Some path \<Rightarrow> (Inr (length (take 4 d)), snd (mem_update path (\<lambda>c. overwrite c (nat off) (take 4 d)) w)))"
  "k_unlink mem_kernel path w =
     (if mem_files w path = None then (Some 2, w) else (None, w\<lparr>mem_files := (mem_files w)(path := None)\<rparr>))"
  "k_rmdir mem_kernel path w = (Some 20, w)"
  "k_rename mem_kernel path path' w =
     (if mem_files w path = None then (Some 2, w)
      else (None, w\<lparr>mem_files := (mem_files w)(path := None, path' := mem_files w path)\<rparr>))"
  "k_truncate mem_kernel path sz w = mem_update path (\<lambda>c. take (nat sz) (c @ replicate (nat sz - length c) (CHR 0x00))) w"
  by (simp_all add: mem_kernel_def)

text \<open>Reading the open directory.\<close>

lemma mem_dir_names: "read_names mem_kernel dir w = Some (mem_dir w, w\<lparr>mem_dir := []\<rparr>)"
proof (induction "mem_dir w" arbitrary: w)
  case Nil
  then show ?case by (subst read_names.simps) (simp add: mem_kernel_def)
next
  case (Cons n ns)
  from Cons(1) [of "w\<lparr>mem_dir := ns\<rparr>"] show ?case
    by (subst read_names.simps) (simp add: mem_kernel_def Cons(2) [symmetric])
qed

interpretation mem_calls: kernel_contract mem_kernel
proof unfold_locales
  show "k_lstat mem_kernel path w = (Inr st, w') \<Longrightarrow> stat_fits st" for path w st w'
    by (auto simp: mem_kernel_def mem_stat_def stat_fits_def stat_ok_def LONG_MAX_def LONG_MIN_def split: option.split_asm)
qed (auto simp: mem_kernel_def mem_update_def is_errno_def EINTR_def split: option.split_asm open_mode.split_asm if_split_asm)

definition mem_mounted :: "string \<Rightarrow> string \<Rightarrow> httpfs_client \<Rightarrow> bool" where
  "mem_mounted root p client \<longleftrightarrow> servable root p \<and> length (base_url client) + 3 * length p < 900"

lemma mem_mounted_file:
  assumes "mem_mounted root p client"
  shows "mounted_file (loop_runtime mem_kernel root (base_url client)) (loop_wire (base_url client)) client mem_kernel root p
    (\<lambda>w c. mem_files w (local_path root p) = Some c)
    (\<lambda>fd w c. mem_open w = Some (local_path root p) \<and> mem_files w (local_path root p) = Some c) mem_signals"
  by unfold_locales (use assms in \<open>simp_all add: mem_mounted_def\<close>)

text \<open>One concrete mount: the file \<open>/notes\<close> below the root \<open>/srv\<close>.\<close>

definition demo_client :: httpfs_client where
  "demo_client = httpfs_fuse_client ''http://127.0.0.1:8080/v1/''"

lemma demo_base_url: "base_url demo_client = ''http://127.0.0.1:8080''"
  by (simp add: demo_client_def httpfs_fuse_client_def httpfs_client_init_def normalize_base_url_def strip_slashes_def snprintf_def)

lemma demo_servable: "servable ''/srv'' ''/notes''" "servable ''/srv'' ''/old''" "servable ''/srv'' ''/''"
  by (simp_all add: servable_def clean_path_def plain_text_def json_simple_def)

abbreviation demo_runtime :: "mem_fs runtime" where
  "demo_runtime \<equiv> loop_runtime mem_kernel ''/srv'' (base_url demo_client)"

definition demo_world :: "(string \<rightharpoonup> bytes) \<Rightarrow> mem_fs" where
  "demo_world files = \<lparr>mem_files = files, mem_names = [''notes'', ''a b''], mem_open = None, mem_dir = [], mem_signals = 2\<rparr>"

lemma demo_local_path [simp]: "local_path ''/srv'' ''/notes'' = ''/srv/notes''" "local_path ''/srv'' ''/old'' = ''/srv/old''"
  "local_path ''/srv'' ''/'' = ''/srv''"
  by (simp_all add: local_path_def)

interpretation demo: mounted_file "loop_runtime mem_kernel ''/srv'' (base_url demo_client)" "loop_wire (base_url demo_client)"
    demo_client mem_kernel "''/srv''" "''/notes''" "\<lambda>w c. mem_files w (local_path ''/srv'' ''/notes'') = Some c"
    "\<lambda>fd w c. mem_open w = Some (local_path ''/srv'' ''/notes'') \<and> mem_files w (local_path ''/srv'' ''/notes'') = Some c" mem_signals
  by (rule mem_mounted_file) (simp add: mem_mounted_def demo_servable demo_base_url)

interpretation demo_mount: mount demo_runtime "loop_wire (base_url demo_client)" demo_client mem_kernel "''/srv''"
  by unfold_locales (simp add: demo_base_url)

lemma demo_connected: "connected demo_runtime (loop_wire (base_url demo_client)) demo_client mem_kernel ''/srv''"
  by (rule loop.connected_axioms)

end
