(* ===== verification/Verified_Write.thy ===== *)
theory Verified_Write
  imports Loopback
begin

text \<open>
  What an acknowledged write means. The digest is checked on the body that arrived and again on the bytes that are
  read back from the file before the service answers with status \<open>ok\<close>.
\<close>

definition ok_prefix :: string where
  "ok_prefix = ''{'' @ quoted ''status'' @ '':'' @ quoted ''ok''"

lemma send_ok_inject: "send_ok a = send_ok b \<Longrightarrow> a = b"
  unfolding send_ok_lines using header_block_unique [OF json_lines_ok json_lines_ok] by blast

lemma error_not_ok: "send_error_json e m \<noteq> send_ok (ok_prefix @ r)"
proof
  assume eq: "send_error_json e m = send_ok (ok_prefix @ r)"
  define p where "p = error_payload e (case json_escape_string m 1024 of Some x \<Rightarrow> x | None \<Rightarrow> ''internal error'')"
  have "send_error_json e m = send_ok (fst (snprintf 1400 p))" by (simp add: send_error_json_def send_ok_def p_def)
  with eq have "fst (snprintf 1400 p) = ok_prefix @ r" using send_ok_inject by metis
  then have "take 1399 p ! 11 = (ok_prefix @ r) ! 11" by (simp add: snprintf_def)
  moreover have "take 1399 p ! 11 = p ! 11" by (rule nth_take) simp
  moreover have "p ! 11 = CHR ''e''" by (simp add: p_def error_payload_def quoted_def)
  moreover have "(ok_prefix @ r) ! 11 = CHR ''o''" by (simp add: ok_prefix_def quoted_def)
  ultimately show False by simp
qed

lemma store_acknowledged:
  assumes "store_and_verify k path body off md5 w = Some (send_ok (ok_prefix @ r), w')"
  shows "\<exists>fd w1 w2 w3 verified. k_open k path ReadWrite w = (Inr fd, w1) \<and>
    pwrite_full k fd body off 0 w1 = Some (Inr (length body), w2) \<and>
    pread_full k fd (length body) off [] w2 = Some (Inr verified, w3) \<and> length verified = length body \<and>
    httpfs_sparse_md5_hex (map byte_of verified) off = Some md5 \<and> w' = k_close k fd w3"
  using assms error_not_ok [THEN not_sym] error_not_ok
  unfolding store_and_verify_def send_errno_def Let_def
  by (auto split: prod.split_asm sum.split_asm option.split_asm if_split_asm)

text \<open>C6: an acknowledged write was verified. If the service answers a write request with status \<open>ok\<close>, then the path
  resolved, the digest of the request was the digest of the body, all bytes of the body were written to the opened
  file at the offset of the query, and the same number of bytes read back from there has the digest of the request.\<close>

theorem write_acknowledged:
  assumes "handle_write k ctx w = Some (send_ok (ok_prefix @ r), w')"
  shows "\<exists>path offset_text local_path fd w1 w2 w3 verified off.
    query_value (rc_query ctx) ''path'' 2048 = Some path \<and> resolve_path (rc_root_dir ctx) path 4096 = Some local_path \<and>
    query_value (rc_query ctx) ''offset'' 64 = Some offset_text \<and> off = fst (strtoll offset_text) \<and>
    httpfs_sparse_md5_hex (map byte_of (rc_body ctx)) off = Some (rc_content_md5 ctx) \<and>
    k_open k local_path ReadWrite w = (Inr fd, w1) \<and>
    pwrite_full k fd (rc_body ctx) off 0 w1 = Some (Inr (length (rc_body ctx)), w2) \<and>
    pread_full k fd (length (rc_body ctx)) off [] w2 = Some (Inr verified, w3) \<and> length verified = length (rc_body ctx) \<and>
    httpfs_sparse_md5_hex (map byte_of verified) off = Some (rc_content_md5 ctx)"
proof -
  obtain path offset_text local_path where q: "query_value (rc_query ctx) ''path'' 2048 = Some path"
      "query_value (rc_query ctx) ''offset'' 64 = Some offset_text" "resolve_path (rc_root_dir ctx) path 4096 = Some local_path"
    using assms error_not_ok by (auto simp: handle_write_def split: option.split_asm)
  define off where "off = fst (strtoll offset_text)"
  have "httpfs_sparse_md5_hex (map byte_of (rc_body ctx)) off = Some (rc_content_md5 ctx)"
    "store_and_verify k local_path (rc_body ctx) off (rc_content_md5 ctx) w = Some (send_ok (ok_prefix @ r), w')"
    using assms error_not_ok q unfolding handle_write_def
    by (auto simp: Let_def off_def [symmetric] split: option.split_asm if_split_asm)
  with store_acknowledged [OF this(2)] q off_def show ?thesis by metis
qed

theorem write_acknowledged_witness:
  "\<exists>md5 r w' fd w1 w2 w3 verified.
     handle_write mem_kernel \<lparr>rc_method = ''POST'', rc_path = ''/v1/write'', rc_query = ''path=/notes&offset=0'', rc_content_md5 = md5,
       rc_body = ''abc'', rc_root_dir = ''/srv''\<rparr>
       \<lparr>mem_files = [''/srv/notes'' \<mapsto> ''hello''], mem_names = [], mem_open = None, mem_dir = [], mem_signals = 2\<rparr> = Some (send_ok (ok_prefix @ r), w') \<and>
     pwrite_full mem_kernel fd ''abc'' 0 0 w1 = Some (Inr 3, w2) \<and> pread_full mem_kernel fd 3 0 [] w2 = Some (Inr verified, w3) \<and>
     httpfs_sparse_md5_hex (map byte_of verified) 0 = Some md5"
proof -
  let ?w = "\<lparr>mem_files = [''/srv/notes'' \<mapsto> ''hello''], mem_names = [], mem_open = None, mem_dir = [], mem_signals = 2\<rparr>"
  obtain md5 where md5: "httpfs_sparse_md5_hex (map byte_of ''abc'') 0 = Some md5"
    using sparse_md5_hex_spec [of 0 "map byte_of ''abc''"] by blast
  let ?ctx = "\<lparr>rc_method = ''POST'', rc_path = ''/v1/write'', rc_query = ''path=/notes&offset=0'', rc_content_md5 = md5,
       rc_body = ''abc'', rc_root_dir = ''/srv''\<rparr>"
  have q: "query_value ''path=/notes&offset=0'' ''path'' 2048 = Some ''/notes''" "query_value ''path=/notes&offset=0'' ''offset'' 64 = Some ''0''"
    by (simp_all add: query_value.simps url_decode_def c_str_def)
  have res: "resolve_path ''/srv'' ''/notes'' 4096 = Some ''/srv/notes''" by (simp add: resolve_path_def snprintf_def)
  have zero: "fst (strtoll ''0'') = 0"
    by (simp add: strtoll_def strtol10_def is_space_def is_digit_def dec_val_def digit_val_def LONG_MIN_def LONG_MAX_def)
  obtain w' where w': "store_and_verify mem_kernel ''/srv/notes'' ''abc'' 0 md5 ?w = Some (send_ok (write_payload 3 md5), w')"
    using mem.store_verified [of ?w "''/srv/notes''" "''hello''" "''abc''" 0 md5] md5
    by (auto simp: numeral_3_eq_3)
  have "write_payload 3 md5 = ok_prefix @ drop 14 (write_payload 3 md5)" by (simp add: write_payload_def ok_prefix_def quoted_def)
  then have ack: "handle_write mem_kernel ?ctx ?w = Some (send_ok (ok_prefix @ drop 14 (write_payload 3 md5)), w')"
    using w' q res zero md5 sparse_md5_hex_valid [OF md5] by (simp add: handle_write_def)
  obtain fd w1 w2 w3 verified where "pwrite_full mem_kernel fd ''abc'' 0 0 w1 = Some (Inr 3, w2)"
      "pread_full mem_kernel fd 3 0 [] w2 = Some (Inr verified, w3)" "httpfs_sparse_md5_hex (map byte_of verified) 0 = Some md5"
    using write_acknowledged [OF ack] q zero by (auto simp: numeral_3_eq_3)
  with ack show ?thesis by blast
qed

end
