(* ===== verification/Confinement.thy ===== *)
theory Confinement
  imports Server_Handlers
begin

text \<open>
  What the service asks of its kernel. \<open>guarded root k\<close> refuses every path outside the root directory; the service
  cannot tell it from \<open>k\<close>, so it never asks for such a path. Paths are texts here: where a symbolic link below the root
  leads is the kernel's affair.
\<close>

definition confined :: "string \<Rightarrow> string \<Rightarrow> bool" where
  "confined root path \<longleftrightarrow> path = root \<or> (\<exists>s. path = root @ CHR ''/'' # s \<and> stays_below 0 (split_slash s))"

text \<open>
  \<open>handle_list\<close> also asks for the type of each entry that \<open>readdir\<close> gave in a directory below the root; nothing else about
  such a name is known, and \<open>..\<close> is one of them.
\<close>

definition reported :: "'w kernel \<Rightarrow> string set" where
  "reported k = {n. \<exists>dir w w'. k_readdir k dir w = (Some n, w')}"

definition reported_entry :: "string \<Rightarrow> 'w kernel \<Rightarrow> string \<Rightarrow> bool" where
  "reported_entry root k path \<longleftrightarrow> (\<exists>dir n. path = dir @ ''/'' @ n \<and> confined root dir \<and> n \<in> reported k)"

definition guarded :: "string \<Rightarrow> 'w kernel \<Rightarrow> 'w kernel" where
  "guarded root k = k
     \<lparr>k_lstat := (\<lambda>p w. if confined root p \<or> reported_entry root k p then k_lstat k p w else (Inl 1, w)),
      k_opendir := (\<lambda>p w. if confined root p then k_opendir k p w else (Inl 1, w)),
      k_open := (\<lambda>p m w. if confined root p then k_open k p m w else (Inl 1, w)),
      k_mkdir := (\<lambda>p m w. if confined root p then k_mkdir k p m w else (Some 1, w)),
      k_unlink := (\<lambda>p w. if confined root p then k_unlink k p w else (Some 1, w)),
      k_rmdir := (\<lambda>p w. if confined root p then k_rmdir k p w else (Some 1, w)),
      k_rename := (\<lambda>p q w. if confined root p \<and> confined root q then k_rename k p q w else (Some 1, w)),
      k_truncate := (\<lambda>p n w. if confined root p then k_truncate k p n w else (Some 1, w)),
      k_utimensat := (\<lambda>p a m w. if confined root p then k_utimensat k p a m w else (Some 1, w))\<rparr>"

lemma resolve_confined: "resolve_path root p n = Some path \<Longrightarrow> confined root path"
  using resolve_path_SomeD [of root p n path] by (auto simp: confined_def split: if_splits)

lemma guarded_calls [simp]:
  "k_pread (guarded root k) = k_pread k" "k_pwrite (guarded root k) = k_pwrite k" "k_close (guarded root k) = k_close k"
  "k_readdir (guarded root k) = k_readdir k" "k_closedir (guarded root k) = k_closedir k"
  "k_strerror (guarded root k) = k_strerror k" "k_malloc (guarded root k) = k_malloc k"
  by (simp_all add: guarded_def)

lemma guarded_paths:
  assumes "confined root p"
  shows "k_lstat (guarded root k) p w = k_lstat k p w"
    "n \<in> reported k \<Longrightarrow> k_lstat (guarded root k) (p @ ''/'' @ n) w = k_lstat k (p @ ''/'' @ n) w"
    "k_opendir (guarded root k) p w = k_opendir k p w" "k_open (guarded root k) p m w = k_open k p m w"
    "k_mkdir (guarded root k) p u w = k_mkdir k p u w" "k_unlink (guarded root k) p w = k_unlink k p w"
    "k_rmdir (guarded root k) p w = k_rmdir k p w" "k_truncate (guarded root k) p sz w = k_truncate k p sz w"
    "k_utimensat (guarded root k) p a b w = k_utimensat k p a b w"
    "confined root q \<Longrightarrow> k_rename (guarded root k) p q w = k_rename k p q w"
  using assms by (auto simp: guarded_def reported_entry_def)

lemma send_errno_guarded [simp]: "send_errno (guarded root k) = send_errno k" "reply_status (guarded root k) = reply_status k"
  by (simp_all add: send_errno_def reply_status_def fun_eq_iff split: option.split)

text \<open>The two loops only use calls on descriptors.\<close>

lemma pwrite_full_eq:
  assumes "k_pwrite k' = k_pwrite k"
  shows "pwrite_full k' = pwrite_full k"
proof -
  have "k_pwrite b = k_pwrite a \<longrightarrow> pwrite_full b fd d off t w = Some r" if "pwrite_full a fd d off t w = Some r" for a b fd d off t w r
  proof (rule pwrite_full.raw_induct
      [where P = "\<lambda>a fd d off t w r. k_pwrite b = k_pwrite a \<longrightarrow> pwrite_full b fd d off t w = Some r", OF _ that], intro impI)
    fix rec a fd d off t w r
    assume rec: "\<And>a fd d off t w r. rec a fd d off t w = Some r \<Longrightarrow> k_pwrite b = k_pwrite a \<longrightarrow> pwrite_full b fd d off t w = Some r"
      and body: "(if t < length d then
           case k_pwrite a fd (drop t d) (off + int t) w of
             (Inl e, w) \<Rightarrow> if e = EINTR then rec a fd d off t w else Some (Inl e, w)
           | (Inr n, w) \<Rightarrow> if n = 0 then Some (Inr t, w) else rec a fd d off (t + n) w
         else Some (Inr t, w)) = Some r"
      and eq: "k_pwrite b = k_pwrite a"
    obtain x w' where "k_pwrite a fd (drop t d) (off + int t) w = (x, w')" by fastforce
    with body eq rec show "pwrite_full b fd d off t w = Some r"
      by (subst pwrite_full.simps) (cases x, auto split: if_splits)
  qed
  note * = this
  show ?thesis
  proof (intro ext)
    fix u v x y z
    show "pwrite_full k' u v x y z = pwrite_full k u v x y z"
      using assms * [of k u v x y z _ k'] * [of k' u v x y z _ k]
      by (cases "pwrite_full k u v x y z"; cases "pwrite_full k' u v x y z") simp_all
  qed
qed

lemma pread_full_eq:
  assumes "k_pread k' = k_pread k"
  shows "pread_full k' = pread_full k"
proof -
  have "k_pread b = k_pread a \<longrightarrow> pread_full b fd n off d w = Some r" if "pread_full a fd n off d w = Some r" for a b fd n off d w r
  proof (rule pread_full.raw_induct
      [where P = "\<lambda>a fd n off d w r. k_pread b = k_pread a \<longrightarrow> pread_full b fd n off d w = Some r", OF _ that], intro impI)
    fix rec a fd n off d w r
    assume rec: "\<And>a fd n off d w r. rec a fd n off d w = Some r \<Longrightarrow> k_pread b = k_pread a \<longrightarrow> pread_full b fd n off d w = Some r"
      and body: "(if length d < n then
           case k_pread a fd (n - length d) (off + int (length d)) w of
             (Inl e, w) \<Rightarrow> if e = EINTR then rec a fd n off d w else Some (Inl e, w)
           | (Inr x, w) \<Rightarrow> if x = [] then Some (Inr d, w) else rec a fd n off (d @ x) w
         else Some (Inr d, w)) = Some r"
      and eq: "k_pread b = k_pread a"
    obtain x w' where "k_pread a fd (n - length d) (off + int (length d)) w = (x, w')" by fastforce
    with body eq rec show "pread_full b fd n off d w = Some r"
      by (subst pread_full.simps) (cases x, auto split: if_splits)
  qed
  note * = this
  show ?thesis
  proof (intro ext)
    fix u v x y z
    show "pread_full k' u v x y z = pread_full k u v x y z"
      using assms * [of k u v x y z _ k'] * [of k' u v x y z _ k]
      by (cases "pread_full k u v x y z"; cases "pread_full k' u v x y z") simp_all
  qed
qed


subsection \<open>The handlers\<close>

text \<open>The loop over a directory asks only for names that \<open>readdir\<close> gave.\<close>

lemma list_entries_agree:
  assumes "k_readdir k' = k_readdir k" "k_closedir k' = k_closedir k"
    and "\<And>n w. n \<in> reported k \<Longrightarrow> k_lstat k' (path @ ''/'' @ n) w = k_lstat k (path @ ''/'' @ n) w"
  shows "list_entries k path dir pp f w = Some r \<Longrightarrow> list_entries k' path dir pp f w = Some r"
proof -
  assume "list_entries k path dir pp f w = Some r"
  then have "k = k \<and> path = path \<longrightarrow> list_entries k' path dir pp f w = Some r"
  proof (rule list_entries.raw_induct
      [where P = "\<lambda>a p dir pp f w r. a = k \<and> p = path \<longrightarrow> list_entries k' path dir pp f w = Some r", rotated], intro impI, elim conjE)
    fix rec a p dir pp f w r
    assume rec: "\<And>a p dir pp f w r. rec a p dir pp f w = Some r \<Longrightarrow> a = k \<and> p = path \<longrightarrow> list_entries k' path dir pp f w = Some r"
      and body: "(case k_readdir a dir w of
        (None, w) \<Rightarrow> Some (Inr pp, w)
      | (Some d_name, w) \<Rightarrow>
          (let entry_path = p @ ''/'' @ d_name
           in if length entry_path \<ge> 4096
              then Some (Inl (send_error_json ENAMETOOLONG ''entry path too long''), k_closedir a dir w)
              else
                (case k_lstat a entry_path w of
                   (r, w) \<Rightarrow>
                     (case json_escape_string d_name 512 of
                        None \<Rightarrow> Some (Inl (send_error_json EIO ''entry name escape failed''), k_closedir a dir w)
                      | Some escaped \<Rightarrow>
                          (let pp = append_payload pp (list_entry f escaped (list_type r))
                           in if snd pp + 64 \<ge> SERVER_LIST_PAYLOAD_SIZE
                              then Some (Inl (send_error_json ENOBUFS ''too many entries''), k_closedir a dir w)
                              else rec a p dir pp False w))))) = Some r"
      and eq: "a = k" "p = path"
    obtain x w1 where x: "k_readdir k dir w = (x, w1)" by fastforce
    show "list_entries k' path dir pp f w = Some r"
    proof (cases x)
      case None
      with body x eq assms(1) show ?thesis by (subst list_entries.simps) simp
    next
      case (Some n)
      have "n \<in> reported k" using x Some by (auto simp: reported_def)
      note same = assms(3) [OF this]
      obtain y w2 where y: "k_lstat k (path @ ''/'' @ n) w1 = (y, w2)" by fastforce
      show ?thesis using body x y Some eq assms(1,2) same [of w1] rec
        by (subst list_entries.simps) (auto simp: Let_def split: option.split_asm if_split_asm option.split)
    qed
  qed
  then show ?thesis by simp
qed

lemma list_entries_guarded:
  assumes "confined root path"
  shows "list_entries (guarded root k) path dir pp f w = list_entries k path dir pp f w"
proof -
  have r: "reported (guarded root k) = reported k" by (simp add: reported_def)
  note same = guarded_paths(2) [OF assms]
  have 1: "list_entries (guarded root k) path dir pp f w = Some x" if "list_entries k path dir pp f w = Some x" for x
    by (rule list_entries_agree [OF _ _ _ that]) (simp_all only: guarded_calls same)
  have 2: "list_entries k path dir pp f w = Some x" if "list_entries (guarded root k) path dir pp f w = Some x" for x
    by (rule list_entries_agree [OF _ _ _ that]) (simp_all only: r guarded_calls same)
  show ?thesis
    using 1 2 by (cases "list_entries k path dir pp f w"; cases "list_entries (guarded root k) path dir pp f w") simp_all
qed

lemma body_path_confined: "body_path ctx key = Some path \<Longrightarrow> confined (rc_root_dir ctx) path"
  by (auto simp: body_path_def Option.bind_eq_Some_conv dest: resolve_confined)

lemma loops_guarded: "pwrite_full (guarded root k) = pwrite_full k" "pread_full (guarded root k) = pread_full k"
  by (rule pwrite_full_eq pread_full_eq, simp)+

lemma store_guarded:
  assumes "confined root path"
  shows "store_and_verify (guarded root k) path body off md5 w = store_and_verify k path body off md5 w"
  unfolding store_and_verify_def guarded_paths(4) [OF assms] loops_guarded send_errno_guarded guarded_calls ..

lemma handlers_guarded:
  assumes "rc_root_dir ctx = root"
  shows "handle_meta (guarded root k) ctx w = handle_meta k ctx w" "handle_list (guarded root k) ctx w = handle_list k ctx w"
    "handle_read (guarded root k) ctx w = handle_read k ctx w" "handle_write (guarded root k) ctx w = handle_write k ctx w"
    "handle_create_file (guarded root k) ctx w = handle_create_file k ctx w"
    "handle_create_dir (guarded root k) ctx w = handle_create_dir k ctx w"
    "handle_remove_file (guarded root k) ctx w = handle_remove_file k ctx w"
    "handle_remove_dir (guarded root k) ctx w = handle_remove_dir k ctx w"
    "handle_rename (guarded root k) ctx w = handle_rename k ctx w" "handle_truncate (guarded root k) ctx w = handle_truncate k ctx w"
    "handle_utimens (guarded root k) ctx w = handle_utimens k ctx w"
proof -
  note body = body_path_confined [of ctx, unfolded assms]
  show "handle_meta (guarded root k) ctx w = handle_meta k ctx w"
    unfolding handle_meta_def assms send_errno_guarded guarded_calls
    by (simp add: guarded_paths(1) resolve_confined split: option.split)
  show "handle_list (guarded root k) ctx w = handle_list k ctx w"
  proof (cases "query_value (rc_query ctx) ''path'' 2048 \<bind> (\<lambda>path. resolve_path root path 4096)")
    case (Some dir)
    then have dir: "confined root dir" by (auto simp: Option.bind_eq_Some_conv dest: resolve_confined)
    show ?thesis unfolding handle_list_def assms Some send_errno_guarded guarded_calls option.case
      guarded_paths(3) [OF dir] list_entries_guarded [OF dir] ..
  qed (simp add: handle_list_def assms)
  show "handle_read (guarded root k) ctx w = handle_read k ctx w"
    unfolding handle_read_def Let_def assms send_errno_guarded guarded_calls by (simp add: guarded_paths(4) resolve_confined split: option.split)
  show "handle_write (guarded root k) ctx w = handle_write k ctx w"
    unfolding handle_write_def Let_def assms send_errno_guarded guarded_calls by (simp add: store_guarded resolve_confined split: option.split)
  show "handle_create_file (guarded root k) ctx w = handle_create_file k ctx w"
    unfolding handle_create_file_def send_errno_guarded guarded_calls by (simp add: guarded_paths(4) body split: option.split)
  show "handle_create_dir (guarded root k) ctx w = handle_create_dir k ctx w"
    unfolding handle_create_dir_def send_errno_guarded guarded_calls by (simp add: guarded_paths(5) body split: option.split)
  show "handle_remove_file (guarded root k) ctx w = handle_remove_file k ctx w"
    unfolding handle_remove_file_def send_errno_guarded guarded_calls by (simp add: guarded_paths(6) body split: option.split)
  show "handle_remove_dir (guarded root k) ctx w = handle_remove_dir k ctx w"
    unfolding handle_remove_dir_def send_errno_guarded guarded_calls by (simp add: guarded_paths(7) body split: option.split)
  show "handle_rename (guarded root k) ctx w = handle_rename k ctx w"
    unfolding handle_rename_def send_errno_guarded guarded_calls by (simp add: guarded_paths(10) body split: option.split)
  show "handle_truncate (guarded root k) ctx w = handle_truncate k ctx w"
    unfolding handle_truncate_def send_errno_guarded guarded_calls by (simp add: guarded_paths(8) body split: option.split)
  show "handle_utimens (guarded root k) ctx w = handle_utimens k ctx w"
    unfolding handle_utimens_def Let_def send_errno_guarded guarded_calls by (simp add: guarded_paths(9) body split: option.split)
qed

lemma dispatch_guarded: "rc_root_dir ctx = root \<Longrightarrow> dispatch_request (guarded root k) ctx w = dispatch_request k ctx w"
  by (simp add: dispatch_request_def handlers_guarded)


subsection \<open>Properties\<close>

text \<open>C5: the service asks only for paths below its root directory. Whatever bytes a client sends, the service behaves exactly
  as it would on a kernel that refuses every path which is not the root directory itself or the root directory followed
  by a path that never climbs above it: so no request makes it open, list, create, rename, truncate, remove or stat
  anything else. The one exception is part of listing: for an entry that \<open>readdir\<close> reported in such a directory the type is looked up with
  \<open>lstat\<close>, also for the entry \<open>..\<close> of the root directory. Paths are compared as texts; symbolic links below the root are resolved by the
  kernel.\<close>

theorem service_confined:
  "process_request_buffer (guarded root k) root data w = process_request_buffer k root data w"
  unfolding process_request_buffer_def Let_def
  by (simp add: dispatch_guarded split: option.split prod.split)

end
