(* ===== verification/Server_Main.thy ===== *)
theory Server_Main
  imports C_Lib
begin

text \<open>
  The entry points: the command line of the service (\<open>demo/service_provider/c/main.c\<close>) and of the mount
  program (\<open>src/httpfs_mount_main.c\<close>), and the number of workers.
\<close>

subsection \<open>Command lines\<close>

definition atoi :: "string \<Rightarrow> int" where
  "atoi s = sint (word_of_int (fst (strtol s)) :: 32 word)"

record server_config =
  host :: string
  port :: int
  root_dir :: "string option"

definition server_usage :: "string \<Rightarrow> string" where
  "server_usage prog = ''Usage: '' @ prog @ '' --port <port> --root-dir <backend_root_dir> [--host <host>]''"

text \<open>\<open>Inl\<close> is the message printed before the exit code 1.\<close>

fun parse_server_args :: "string \<Rightarrow> string list \<Rightarrow> server_config \<Rightarrow> string + server_config" where
  "parse_server_args prog [] config = Inr config"
| "parse_server_args prog (a # args) config =
     (if a = ''--host'' then
        (case args of [] \<Rightarrow> Inl ''Missing value for --host'' | v # r \<Rightarrow> parse_server_args prog r (config\<lparr>host := v\<rparr>))
      else if a = ''--port'' then
        (case args of [] \<Rightarrow> Inl ''Missing value for --port'' | v # r \<Rightarrow> parse_server_args prog r (config\<lparr>port := atoi v\<rparr>))
      else if a = ''--root-dir'' then
        (case args of [] \<Rightarrow> Inl ''Missing value for --root-dir''
         | v # r \<Rightarrow> parse_server_args prog r (config\<lparr>root_dir := Some v\<rparr>))
      else Inl (server_usage prog))"

definition server_main :: "string \<Rightarrow> string list \<Rightarrow> string + server_config" where
  "server_main prog args =
     (case parse_server_args prog args \<lparr>host = ''127.0.0.1'', port = 0, root_dir = None\<rparr> of
        Inl m \<Rightarrow> Inl m
      | Inr config \<Rightarrow> if port config \<le> 0 \<or> root_dir config = None then Inl (server_usage prog) else Inr config)"

text \<open>\<open>argv\<close> with the program name; the result is what \<open>httpfs_fuse_main\<close> is called with.\<close>

definition mount_main :: "string list \<Rightarrow> (string \<times> string list) option" where
  "mount_main argv =
     (if length argv < 3 then None
      else Some (argv ! 1, argv ! 0 # map (\<lambda>i. argv ! i) [2..<length argv]))"

subsection \<open>The number of workers\<close>

definition SERVER_DEFAULT_WORKERS :: nat where "SERVER_DEFAULT_WORKERS = 4"
definition SERVER_MAX_WORKERS :: nat where "SERVER_MAX_WORKERS = 32"

definition choose_worker_count :: "int \<Rightarrow> nat" where
  "choose_worker_count cpu_count =
     (if cpu_count \<le> 0 then SERVER_DEFAULT_WORKERS
      else if cpu_count > int SERVER_MAX_WORKERS then SERVER_MAX_WORKERS
      else nat cpu_count)"

lemma choose_worker_count_pos: "0 < choose_worker_count n"
  by (auto simp: choose_worker_count_def SERVER_DEFAULT_WORKERS_def SERVER_MAX_WORKERS_def)

subsection \<open>Properties\<close>

lemma atoi_show_int:
  assumes "0 < p" "p < 2 ^ 31"
  shows "atoi (show_int p) = p"
proof -
  have "fst (strtol (show_int p)) = p"
    using strtol10_show_int [of LONG_MIN p LONG_MAX "[]"] assms by (simp add: strtol_def LONG_MIN_def LONG_MAX_def)
  moreover have "sint (word_of_int p :: 32 word) = signed_take_bit 31 p" unfolding sint_sbintrunc' by simp
  moreover have "signed_take_bit 31 p = p" using assms by (intro signed_take_bit_int_eq_self) auto
  ultimately show ?thesis by (simp add: atoi_def)
qed

lemma parse_server_args_acc:
  "parse_server_args prog args c = Inr c' \<Longrightarrow>
   (port c' = port c \<or> (\<exists>v \<in> set args. port c' = atoi v)) \<and> (root_dir c' = root_dir c \<or> (\<exists>v \<in> set args. root_dir c' = Some v)) \<and>
   (host c' = host c \<or> host c' \<in> set args)"
  by (induction prog args c rule: parse_server_args.induct) (auto split: if_splits list.splits)

text \<open>C31: the command line of the service. What is written with \<open>--host\<close>, \<open>--port\<close> and \<open>--root-dir\<close> is read back, for every
  port that fits an \<open>int\<close>; and a configuration is only accepted with a positive port and a root directory, both taken
  from the arguments.\<close>

theorem server_arguments:
  assumes "0 < p" "p < 2 ^ 31"
  shows "server_main prog [''--host'', h, ''--port'', show_int p, ''--root-dir'', r] = Inr \<lparr>host = h, port = p, root_dir = Some r\<rparr> \<and>
    (\<forall>args c. server_main prog args = Inr c \<longrightarrow> 0 < port c \<and> (\<exists>v \<in> set args. port c = atoi v) \<and> (\<exists>v \<in> set args. root_dir c = Some v))"
proof (intro conjI allI impI)
  show "server_main prog [''--host'', h, ''--port'', show_int p, ''--root-dir'', r] = Inr \<lparr>host = h, port = p, root_dir = Some r\<rparr>"
    using assms atoi_show_int [OF assms] by (simp add: server_main_def)
  fix args c assume "server_main prog args = Inr c"
  then have ok: "0 < port c" "root_dir c \<noteq> None"
      "parse_server_args prog args \<lparr>host = ''127.0.0.1'', port = 0, root_dir = None\<rparr> = Inr c"
    by (auto simp: server_main_def split: sum.split_asm if_split_asm)
  with parse_server_args_acc [OF ok(3)] show "0 < port c" "\<exists>v \<in> set args. port c = atoi v" "\<exists>v \<in> set args. root_dir c = Some v" by auto
qed

theorem server_arguments_witness:
  "server_main ''srv'' [''--host'', ''::'', ''--port'', show_int 8080, ''--root-dir'', ''/srv''] = Inr \<lparr>host = ''::'', port = 8080, root_dir = Some ''/srv''\<rparr>"
  using server_arguments [of 8080 "''srv''" "''::''" "''/srv''"] by simp

end
