(* ===== verification/Server_Queue.thy ===== *)
theory Server_Queue
  imports Prelude
begin

text \<open>
  The queue of accepted sockets that the accepting thread hands to a worker of
  \<open>demo/service_provider/c/httpfs_server.c\<close>: a singly linked list in the heap with a head and a tail
  pointer, and the pipe that wakes the worker. The heap maps addresses to nodes; a node that was freed is
  not mapped any more, and an access to it is the result \<open>None\<close>. What \<open>malloc\<close> returned is an argument,
  \<open>None\<close> for the null pointer.
\<close>

subsection \<open>The linked list\<close>

record pending_fd_node =
  n_fd :: int
  n_next :: "nat option"

record worker_queue =
  heap :: "nat \<rightharpoonup> pending_fd_node"
  pending_head :: "nat option"
  pending_tail :: "nat option"

definition empty_queue :: worker_queue where
  "empty_queue = \<lparr>heap = Map.empty, pending_head = None, pending_tail = None\<rparr>"

text \<open>The flag is the return value \<open>0\<close>.\<close>

definition enqueue_pending_fd :: "nat option \<Rightarrow> int \<Rightarrow> worker_queue \<Rightarrow> (bool \<times> worker_queue) option" where
  "enqueue_pending_fd malloced fd q =
     (case malloced of
        None \<Rightarrow> Some (False, q)
      | Some node \<Rightarrow>
          (let h = (heap q)(node \<mapsto> \<lparr>n_fd = fd, n_next = None\<rparr>)
           in case pending_tail q of
                Some t \<Rightarrow>
                  (case h t of
                     None \<Rightarrow> None
                   | Some n \<Rightarrow>
                       Some (True, q\<lparr>heap := h(t \<mapsto> n\<lparr>n_next := Some node\<rparr>), pending_tail := Some node\<rparr>))
              | None \<Rightarrow> Some (True, q\<lparr>heap := h, pending_head := Some node, pending_tail := Some node\<rparr>)))"

definition dequeue_pending_fd :: "worker_queue \<Rightarrow> (int \<times> worker_queue) option" where
  "dequeue_pending_fd q =
     (case pending_head q of
        None \<Rightarrow> Some (-1, q)
      | Some node \<Rightarrow>
          (case heap q node of
             None \<Rightarrow> None
           | Some n \<Rightarrow>
               Some (n_fd n, q\<lparr>heap := (heap q)(node := None), pending_head := n_next n,
                 pending_tail := (if n_next n = None then None else pending_tail q)\<rparr>)))"

text \<open>
  The loop of \<open>add_pending_clients\<close>; \<open>add fd\<close> tells whether \<open>add_client_to_worker\<close> succeeds. The result
  lists the sockets that were added and those that were closed.
\<close>

partial_function (option) add_pending_clients ::
  "(int \<Rightarrow> bool) \<Rightarrow> worker_queue \<Rightarrow> int list \<Rightarrow> int list \<Rightarrow> (int list \<times> int list \<times> worker_queue) option" where
  "add_pending_clients add q added closed =
     (case dequeue_pending_fd q of
        None \<Rightarrow> None
      | Some (client_fd, q) \<Rightarrow>
          if client_fd < 0 then Some (added, closed, q)
          else if add client_fd then add_pending_clients add q (added @ [client_fd]) closed
          else add_pending_clients add q added (closed @ [client_fd]))"

text \<open>The loop of \<open>destroy_worker\<close> over the nodes that are left, with the sockets it closed.\<close>

partial_function (option) destroy_pending ::
  "(nat \<rightharpoonup> pending_fd_node) \<Rightarrow> nat option \<Rightarrow> int list \<Rightarrow> (int list \<times> (nat \<rightharpoonup> pending_fd_node)) option" where
  "destroy_pending h node closed =
     (case node of
        None \<Rightarrow> Some (closed, h)
      | Some p \<Rightarrow>
          (case h p of
             None \<Rightarrow> None
           | Some n \<Rightarrow> destroy_pending (h(p := None)) (n_next n) (closed @ [n_fd n])))"

subsection \<open>The list that a heap represents\<close>

fun chain :: "(nat \<rightharpoonup> pending_fd_node) \<Rightarrow> nat option \<Rightarrow> nat list \<Rightarrow> int list \<Rightarrow> bool" where
  "chain h p [] [] \<longleftrightarrow> p = None"
| "chain h p (a # as) (x # xs) \<longleftrightarrow>
     p = Some a \<and> (case h a of None \<Rightarrow> False | Some n \<Rightarrow> n_fd n = x \<and> chain h (n_next n) as xs)"
| "chain h p _ _ \<longleftrightarrow> False"

text \<open>The nodes of the queue are all that is allocated for it: nothing dangles and nothing is lost.\<close>

definition queue_rep :: "worker_queue \<Rightarrow> int list \<Rightarrow> bool" where
  "queue_rep q xs \<longleftrightarrow>
     (\<exists>as. chain (heap q) (pending_head q) as xs \<and> distinct as \<and> dom (heap q) = set as \<and>
        pending_tail q = (if as = [] then None else Some (last as)))"

definition fresh_node :: "worker_queue \<Rightarrow> nat option \<Rightarrow> bool" where
  "fresh_node q a \<longleftrightarrow> (\<exists>p. a = Some p \<and> heap q p = None)"

lemma chain_length: "chain h p as xs \<Longrightarrow> length as = length xs"
  by (induction h p as xs rule: chain.induct) (auto split: option.splits)

lemma chain_cong: "chain h p as xs \<Longrightarrow> (\<And>a. a \<in> set as \<Longrightarrow> h' a = h a) \<Longrightarrow> chain h' p as xs"
  by (induction h p as xs rule: chain.induct) (auto split: option.splits)

lemma chain_snoc:
  assumes "chain h p as xs" "distinct as" "a \<notin> set as"
  shows "as \<noteq> [] \<Longrightarrow> \<exists>n. h (last as) = Some n \<and>
      chain (h(a \<mapsto> \<lparr>n_fd = x, n_next = None\<rparr>, last as \<mapsto> n\<lparr>n_next := Some a\<rparr>)) p (as @ [a]) (xs @ [x])"
  using assms
proof (induction h p as xs rule: chain.induct)
  case (2 h p b as y ys)
  then obtain n where n: "p = Some b" "h b = Some n" "n_fd n = y" "chain h (n_next n) as ys"
    by (auto split: option.splits)
  show ?case
  proof (cases "as = []")
    case True
    then have "ys = []" using chain_length [OF n(4)] by simp
    then show ?thesis using n True 2 by simp
  next
    case False
    with 2 n obtain m where m: "h (last as) = Some m"
      "chain (h(a \<mapsto> \<lparr>n_fd = x, n_next = None\<rparr>, last as \<mapsto> m\<lparr>n_next := Some a\<rparr>)) (n_next n) (as @ [a]) (ys @ [x])"
      using "2.IH" [OF n(2) False n(4)] by (auto simp del: fun_upd_apply)
    have "last as \<noteq> b" "b \<noteq> a" using False 2 by auto
    then show ?thesis using n m False by (auto simp: fun_upd_other simp del: fun_upd_apply)
  qed
qed auto

lemma enqueue_rep:
  assumes "queue_rep q xs" "fresh_node q a"
  shows "\<exists>q'. enqueue_pending_fd a x q = Some (True, q') \<and> queue_rep q' (xs @ [x])"
proof -
  obtain p where p: "a = Some p" "heap q p = None" using assms(2) by (auto simp: fresh_node_def)
  obtain as where as: "chain (heap q) (pending_head q) as xs" "distinct as" "dom (heap q) = set as"
      "pending_tail q = (if as = [] then None else Some (last as))"
    using assms(1) by (auto simp: queue_rep_def)
  have "p \<notin> set as" using as(3) p(2) by auto
  show ?thesis
  proof (cases "as = []")
    case True
    then have "xs = []" "heap q = Map.empty" using as chain_length by fastforce+
    with True as p show ?thesis
      by (auto simp: enqueue_pending_fd_def queue_rep_def Let_def intro!: exI [of _ "[p]"])
  next
    case False
    with chain_snoc [OF as(1,2) \<open>p \<notin> set as\<close> False, of x] obtain n where
      n: "heap q (last as) = Some n"
        "chain ((heap q)(p \<mapsto> \<lparr>n_fd = x, n_next = None\<rparr>, last as \<mapsto> n\<lparr>n_next := Some p\<rparr>)) (pending_head q) (as @ [p]) (xs @ [x])"
      by auto
    have "last as \<noteq> p" using False \<open>p \<notin> set as\<close> by auto
    with False as p n \<open>p \<notin> set as\<close> show ?thesis
      by (auto simp: enqueue_pending_fd_def queue_rep_def Let_def intro!: exI [of _ "as @ [p]"])
  qed
qed

lemma dequeue_rep:
  assumes "queue_rep q (x # xs)"
  shows "\<exists>q'. dequeue_pending_fd q = Some (x, q') \<and> queue_rep q' xs"
proof -
  obtain as where as: "chain (heap q) (pending_head q) as (x # xs)" "distinct as" "dom (heap q) = set as"
      "pending_tail q = (if as = [] then None else Some (last as))"
    using assms by (auto simp: queue_rep_def)
  then obtain a as' where a: "as = a # as'" by (cases as) auto
  with as obtain n where n: "pending_head q = Some a" "heap q a = Some n" "n_fd n = x" "chain (heap q) (n_next n) as' xs"
    by (auto split: option.splits)
  have "chain ((heap q)(a := None)) (n_next n) as' xs" by (rule chain_cong [OF n(4)]) (use as(2) a in auto)
  moreover have "n_next n = None \<longleftrightarrow> as' = []" using n(4) by (cases as'; cases xs) auto
  moreover have "set as - {a} = set as'" using as(2) a by auto
  ultimately have "queue_rep (q\<lparr>heap := (heap q)(a := None), pending_head := n_next n,
      pending_tail := (if n_next n = None then None else pending_tail q)\<rparr>) xs"
    unfolding queue_rep_def using as a by (intro exI [of _ as']) simp
  then show ?thesis using n by (simp add: dequeue_pending_fd_def)
qed

lemma dequeue_empty: "queue_rep q [] \<Longrightarrow> dequeue_pending_fd q = Some (-1, q)"
proof -
  assume "queue_rep q []"
  then obtain as where "chain (heap q) (pending_head q) as []" by (auto simp: queue_rep_def)
  then have "pending_head q = None" by (cases as) auto
  then show ?thesis by (simp add: dequeue_pending_fd_def)
qed

subsection \<open>The contract of the queue\<close>

text \<open>
  What the two threads rely on: a first-in first-out queue whose operations never touch a freed node. \<open>rep\<close>
  is the representation, \<open>fresh\<close> what the allocator may return, \<open>none\<close> the answer of an empty queue.
\<close>

fun enq_all :: "('a \<Rightarrow> 'x \<Rightarrow> 'q \<Rightarrow> (bool \<times> 'q) option) \<Rightarrow> ('a \<times> 'x) list \<Rightarrow> 'q \<Rightarrow> 'q option" where
  "enq_all enq [] q = Some q"
| "enq_all enq ((a, x) # ops) q = (case enq a x q of Some (True, q') \<Rightarrow> enq_all enq ops q' | _ \<Rightarrow> None)"

text \<open>
  Operations in any order: \<open>Enqueue x ok\<close> with the answer of \<open>malloc\<close>, and \<open>Dequeue\<close>. \<open>alloc i q\<close> is the address the
  allocator returns when \<open>i\<close> operations follow. \<open>fifo_ops\<close> is the specification on a list.
\<close>

datatype 'x queue_op = Enqueue 'x bool | Dequeue

datatype 'x queue_answer = Enqueued bool | Dequeued 'x

fun run_queue :: "('a \<Rightarrow> 'x \<Rightarrow> 'q \<Rightarrow> (bool \<times> 'q) option) \<Rightarrow> ('q \<Rightarrow> ('x \<times> 'q) option) \<Rightarrow> (nat \<Rightarrow> 'q \<Rightarrow> 'a) \<Rightarrow> 'a \<Rightarrow>
  'x queue_op list \<Rightarrow> 'q \<Rightarrow> ('x queue_answer list \<times> 'q) option" where
  "run_queue enq deq alloc null [] q = Some ([], q)"
| "run_queue enq deq alloc null (Enqueue x ok # ops) q =
     (case enq (if ok then alloc (length ops) q else null) x q of
        None \<Rightarrow> None
      | Some (r, q') \<Rightarrow> map_option (apfst ((#) (Enqueued r))) (run_queue enq deq alloc null ops q'))"
| "run_queue enq deq alloc null (Dequeue # ops) q =
     (case deq q of
        None \<Rightarrow> None
      | Some (x, q') \<Rightarrow> map_option (apfst ((#) (Dequeued x))) (run_queue enq deq alloc null ops q'))"

fun fifo_ops :: "'x \<Rightarrow> 'x queue_op list \<Rightarrow> 'x list \<Rightarrow> 'x queue_answer list \<times> 'x list" where
  "fifo_ops none [] xs = ([], xs)"
| "fifo_ops none (Enqueue x ok # ops) xs = apfst ((#) (Enqueued ok)) (fifo_ops none ops (if ok then xs @ [x] else xs))"
| "fifo_ops none (Dequeue # ops) [] = apfst ((#) (Dequeued none)) (fifo_ops none ops [])"
| "fifo_ops none (Dequeue # ops) (x # xs) = apfst ((#) (Dequeued x)) (fifo_ops none ops xs)"

locale fifo =
  fixes enq :: "'a \<Rightarrow> 'x \<Rightarrow> 'q \<Rightarrow> (bool \<times> 'q) option"
    and deq :: "'q \<Rightarrow> ('x \<times> 'q) option"
    and rep :: "'q \<Rightarrow> 'x list \<Rightarrow> bool"
    and fresh :: "'q \<Rightarrow> 'a \<Rightarrow> bool"
    and none :: 'x
    and null :: 'a
  assumes enq_rep: "rep q xs \<Longrightarrow> fresh q a \<Longrightarrow> \<exists>q'. enq a x q = Some (True, q') \<and> rep q' (xs @ [x])"
    and enq_fresh: "rep q xs \<Longrightarrow> fresh q a \<Longrightarrow> fresh q b \<Longrightarrow> a \<noteq> b \<Longrightarrow> enq a x q = Some (r, q') \<Longrightarrow> fresh q' b"
    and enq_null: "enq null x q = Some (False, q)"
    and deq_rep: "rep q (x # xs) \<Longrightarrow> \<exists>q'. deq q = Some (x, q') \<and> rep q' xs"
    and deq_empty: "rep q [] \<Longrightarrow> deq q = Some (none, q)"
begin

lemma enq_all_rep:
  "rep q xs \<Longrightarrow> distinct (map fst ops) \<Longrightarrow> \<forall>a \<in> set (map fst ops). fresh q a \<Longrightarrow>
   \<exists>q'. enq_all enq ops q = Some q' \<and> rep q' (xs @ map snd ops)"
proof (induction ops arbitrary: q xs)
  case (Cons op ops)
  obtain a x where op: "op = (a, x)" by (cases op)
  with Cons.prems obtain q' where q': "enq a x q = Some (True, q')" "rep q' (xs @ [x])"
    using enq_rep [of q xs a x] by auto
  have "\<forall>b \<in> set (map fst ops). fresh q' b"
    using Cons.prems op q' enq_fresh [of q xs a _ x True q'] by force
  with Cons.IH [OF q'(2)] Cons.prems op q' show ?case by auto
qed simp

lemma run_queue_rep:
  assumes "\<And>i q xs. rep q xs \<Longrightarrow> fresh q (alloc i q)"
  shows "rep q xs \<Longrightarrow>
    \<exists>q'. run_queue enq deq alloc null ops q = Some (fst (fifo_ops none ops xs), q') \<and> rep q' (snd (fifo_ops none ops xs))"
proof (induction ops arbitrary: q xs)
  case (Cons op ops)
  note IH = Cons.IH
  show ?case
  proof (cases op)
    case (Enqueue x ok)
    show ?thesis
    proof (cases ok)
      case True
      with enq_rep [OF Cons.prems assms [OF Cons.prems], of "length ops" x] obtain q1 where
        q1: "enq (alloc (length ops) q) x q = Some (True, q1)" "rep q1 (xs @ [x])" by blast
      then show ?thesis using Cons.IH [of q1 "xs @ [x]"] True Enqueue by auto
    next
      case False
      then show ?thesis using Cons.IH [OF Cons.prems] enq_null Enqueue by auto
    qed
  next
    case Dequeue
    show ?thesis
    proof (cases xs)
      case Nil
      then show ?thesis using Cons.IH [of q "[]"] Cons.prems deq_empty [of q] Dequeue by auto
    next
      case (Cons y ys)
      with deq_rep [of q y ys] \<open>rep q xs\<close> obtain q1 where q1: "deq q = Some (y, q1)" "rep q1 ys" by blast
      then show ?thesis using IH [of q1 ys] Cons Dequeue by auto
    qed
  qed
qed auto

end

lemma enqueue_fresh:
  assumes "queue_rep q xs" "fresh_node q a" "fresh_node q b" "a \<noteq> b" "enqueue_pending_fd a x q = Some (r, q')"
  shows "fresh_node q' b"
  using assms
  by (auto simp: enqueue_pending_fd_def fresh_node_def Let_def split: option.splits if_splits)

lemma enqueue_null: "enqueue_pending_fd None x q = Some (False, q)"
  by (simp add: enqueue_pending_fd_def)

interpretation pending: fifo enqueue_pending_fd dequeue_pending_fd queue_rep fresh_node "-1" None
  by unfold_locales (auto intro: enqueue_rep enqueue_fresh dequeue_rep dequeue_empty enqueue_null)

lemma add_pending_drains:
  "queue_rep q xs \<Longrightarrow> \<forall>x \<in> set xs. 0 \<le> x \<Longrightarrow>
   \<exists>q'. add_pending_clients add q added closed = Some (added @ filter add xs, closed @ filter (\<lambda>x. \<not> add x) xs, q') \<and>
     queue_rep q' []"
proof (induction xs arbitrary: q added closed)
  case Nil
  then show ?case by (subst add_pending_clients.simps) (simp add: dequeue_empty)
next
  case (Cons x xs)
  then obtain q' where "dequeue_pending_fd q = Some (x, q')" "queue_rep q' xs" using dequeue_rep by blast
  with Cons.IH [of q' "added @ [x]" closed] Cons.IH [of q' added "closed @ [x]"] Cons.prems(2) show ?case
    by (subst add_pending_clients.simps) simp
qed

lemma destroy_chain:
  "chain h p as xs \<Longrightarrow> distinct as \<Longrightarrow>
   \<exists>h'. destroy_pending h p closed = Some (closed @ xs, h') \<and> dom h' = dom h - set as"
proof (induction as arbitrary: h p xs closed)
  case Nil
  then have "p = None" "xs = []" by (cases xs; auto)+
  then show ?case by (subst destroy_pending.simps) simp
next
  case (Cons a as)
  then obtain x ys n where n: "xs = x # ys" "p = Some a" "h a = Some n" "n_fd n = x" "chain h (n_next n) as ys"
    by (cases xs) (auto split: option.splits)
  have "chain (h(a := None)) (n_next n) as ys" by (rule chain_cong [OF n(5)]) (use Cons.prems in auto)
  from Cons.IH [OF this, of "closed @ [x]"] Cons.prems n show ?case
    by (subst destroy_pending.simps) (auto simp del: fun_upd_apply simp: dom_fun_upd)
qed

lemma destroy_frees_all:
  assumes "queue_rep q xs"
  shows "destroy_pending (heap q) (pending_head q) [] = Some (xs, Map.empty)"
proof -
  obtain as where "chain (heap q) (pending_head q) as xs" "distinct as" "dom (heap q) = set as"
    using assms by (auto simp: queue_rep_def)
  then show ?thesis using destroy_chain [of "heap q" "pending_head q" as xs "[]"] by auto
qed

subsection \<open>The hand-over between the threads\<close>

text \<open>
  The accepting thread puts a socket into the queue and then writes a byte to the pipe (\<open>wake_worker\<close>; a full
  pipe is left as it is). The worker waits in \<open>epoll_wait\<close> until the pipe is readable, empties the pipe with
  reads of up to 64 bytes (\<open>drain_notify_pipe\<close>), and then takes sockets out of the queue until it is empty
  (\<open>add_pending_clients\<close>). The steps of the two threads interleave; each access to the queue is one step, since
  it holds the mutex.
\<close>

datatype main_pc = MAccept | MWake

datatype worker_pc = WWait | WDrain | WAdd

record handover =
  hq :: worker_queue
  pipe_bytes :: nat
  main_pc :: main_pc
  worker_pc :: worker_pc
  accepted :: "int list"
  taken :: "int list"

definition handover_init :: handover where
  "handover_init = \<lparr>hq = empty_queue, pipe_bytes = 0, main_pc = MAccept, worker_pc = WWait, accepted = [], taken = []\<rparr>"

definition wake_worker :: "nat \<Rightarrow> nat \<Rightarrow> nat" where
  "wake_worker pipe_size n = (if n < pipe_size then n + 1 else n)"

definition drain_read :: "nat \<Rightarrow> nat" where
  "drain_read n = n - min 64 n"

inductive handover_step :: "nat \<Rightarrow> handover \<Rightarrow> handover \<Rightarrow> bool" for pipe_size :: nat where
  enqueue: "main_pc s = MAccept \<Longrightarrow> 0 \<le> fd \<Longrightarrow> fresh_node (hq s) a \<Longrightarrow>
    enqueue_pending_fd a fd (hq s) = Some (True, q') \<Longrightarrow>
    handover_step pipe_size s (s\<lparr>hq := q', main_pc := MWake, accepted := accepted s @ [fd]\<rparr>)"
| enqueue_fails: "main_pc s = MAccept \<Longrightarrow> enqueue_pending_fd None fd (hq s) = Some (False, q') \<Longrightarrow>
    handover_step pipe_size s (s\<lparr>hq := q'\<rparr>)"
| wake: "main_pc s = MWake \<Longrightarrow>
    handover_step pipe_size s (s\<lparr>pipe_bytes := wake_worker pipe_size (pipe_bytes s), main_pc := MAccept\<rparr>)"
| readable: "worker_pc s = WWait \<Longrightarrow> 0 < pipe_bytes s \<Longrightarrow> handover_step pipe_size s (s\<lparr>worker_pc := WDrain\<rparr>)"
| drain: "worker_pc s = WDrain \<Longrightarrow> 0 < pipe_bytes s \<Longrightarrow>
    handover_step pipe_size s (s\<lparr>pipe_bytes := drain_read (pipe_bytes s)\<rparr>)"
| drained: "worker_pc s = WDrain \<Longrightarrow> pipe_bytes s = 0 \<Longrightarrow> handover_step pipe_size s (s\<lparr>worker_pc := WAdd\<rparr>)"
| take_fd: "worker_pc s = WAdd \<Longrightarrow> dequeue_pending_fd (hq s) = Some (fd, q') \<Longrightarrow> 0 \<le> fd \<Longrightarrow>
    handover_step pipe_size s (s\<lparr>hq := q', taken := taken s @ [fd]\<rparr>)"
| queue_empty: "worker_pc s = WAdd \<Longrightarrow> dequeue_pending_fd (hq s) = Some (fd, q') \<Longrightarrow> fd < 0 \<Longrightarrow>
    handover_step pipe_size s (s\<lparr>hq := q', worker_pc := WWait\<rparr>)"

inductive_cases handover_stepE: "handover_step pipe_size s s'"

definition handover_inv :: "handover \<Rightarrow> bool" where
  "handover_inv s \<longleftrightarrow>
     (\<exists>xs. queue_rep (hq s) xs \<and> (\<forall>x \<in> set xs. 0 \<le> x) \<and> accepted s = taken s @ xs \<and>
        (xs \<noteq> [] \<longrightarrow> 0 < pipe_bytes s \<or> main_pc s = MWake \<or> worker_pc s \<noteq> WWait))"

lemma queue_rep_unique: "queue_rep q xs \<Longrightarrow> queue_rep q ys \<Longrightarrow> xs = ys"
  using destroy_frees_all [of q xs] destroy_frees_all [of q ys] by simp

lemma handover_init_inv: "handover_inv handover_init"
  by (auto simp: handover_inv_def handover_init_def queue_rep_def empty_queue_def intro!: exI [of _ "[]"])

lemma handover_step_inv:
  assumes "handover_step pipe_size s s'" "handover_inv s" "0 < pipe_size"
  shows "handover_inv s'"
proof -
  obtain xs where inv: "queue_rep (hq s) xs" "\<forall>x \<in> set xs. 0 \<le> x" "accepted s = taken s @ xs"
      "xs \<noteq> [] \<longrightarrow> 0 < pipe_bytes s \<or> main_pc s = MWake \<or> worker_pc s \<noteq> WWait"
    using assms(2) by (auto simp: handover_inv_def)
  from assms(1) show ?thesis
  proof cases
    case (enqueue fd a q')
    then have "queue_rep q' (xs @ [fd])" using enqueue_rep [OF inv(1) enqueue(4), of fd] by simp
    with inv enqueue show ?thesis by (auto simp: handover_inv_def intro!: exI [of _ "xs @ [fd]"])
  next
    case (take_fd fd q')
    then obtain ys where ys: "xs = fd # ys" using inv(1) dequeue_empty dequeue_rep by (cases xs) fastforce+
    then have "queue_rep q' ys" using dequeue_rep [of "hq s" fd ys] inv(1) take_fd by auto
    with inv take_fd ys show ?thesis by (auto simp: handover_inv_def intro!: exI [of _ ys])
  next
    case (queue_empty fd q')
    have "xs = []"
    proof (cases xs)
      case (Cons y ys)
      then show ?thesis using dequeue_rep [of "hq s" y ys] inv queue_empty by auto
    qed
    with inv queue_empty dequeue_empty [of "hq s"] show ?thesis by (auto simp: handover_inv_def)
  qed (use inv assms(3) in \<open>auto simp: handover_inv_def enqueue_pending_fd_def wake_worker_def intro!: exI [of _ xs]\<close>)
qed

inductive handover_reachable :: "nat \<Rightarrow> handover \<Rightarrow> bool" for pipe_size :: nat where
  start: "handover_reachable pipe_size handover_init"
| step: "handover_reachable pipe_size s \<Longrightarrow> handover_step pipe_size s s' \<Longrightarrow> handover_reachable pipe_size s'"

lemma handover_reachable_inv: "handover_reachable pipe_size s \<Longrightarrow> 0 < pipe_size \<Longrightarrow> handover_inv s"
  by (induction rule: handover_reachable.induct) (auto intro: handover_init_inv handover_step_inv)

subsection \<open>Properties\<close>

lemma empty_queue_rep: "queue_rep empty_queue []"
  by (auto simp: queue_rep_def empty_queue_def intro!: exI [of _ "[]"])

lemma fresh_empty: "None \<notin> fst ` set ops \<Longrightarrow> \<forall>a \<in> set (map fst ops). fresh_node empty_queue a"
  by (force simp: fresh_node_def empty_queue_def)

lemma queue_rep_Nil_heap: "queue_rep q [] \<Longrightarrow> heap q = Map.empty"
  using destroy_frees_all [of q "[]"] by (auto simp: queue_rep_def dest: chain_length)

text \<open>What \<open>malloc\<close> promises, and an allocator that keeps it: no address that is in use.\<close>

definition fresh_malloc :: "(worker_queue \<Rightarrow> nat) \<Rightarrow> bool" where
  "fresh_malloc m \<longleftrightarrow> (\<forall>q. finite (dom (heap q)) \<longrightarrow> heap q (m q) = None)"

lemma fresh_mallocD: "fresh_malloc m \<Longrightarrow> queue_rep q xs \<Longrightarrow> fresh_node q (Some (m q))"
  by (auto simp: fresh_malloc_def fresh_node_def queue_rep_def)

definition next_address :: "worker_queue \<Rightarrow> nat" where
  "next_address q = (if dom (heap q) = {} then 0 else Suc (Max (dom (heap q))))"

lemma next_address_fresh: "fresh_malloc next_address"
proof -
  have "heap q (Suc (Max (dom (heap q)))) = None" if "finite (dom (heap q))" for q
  proof (rule ccontr)
    assume "heap q (Suc (Max (dom (heap q)))) \<noteq> None"
    then have "Suc (Max (dom (heap q))) \<le> Max (dom (heap q))" using that by (intro Max_ge) auto
    then show False by simp
  qed
  then show ?thesis by (auto simp: fresh_malloc_def next_address_def)
qed

text \<open>C15: the linked list of pending sockets implements a first-in first-out queue without memory errors. For every
  sequence of \<open>enqueue_pending_fd\<close> and \<open>dequeue_pending_fd\<close> from the empty queue, in any order, through empty queues and
  with failing allocations, and whatever unused addresses the allocator returns (those of freed nodes too), the answers are
  those of a list: no access meets a freed node, and at the end the chain of nodes holds the sockets of that list in
  their order and no other node is allocated.\<close>

theorem pending_queue_fifo:
  assumes "\<And>i. fresh_malloc (m i)"
  shows "\<exists>q. run_queue enqueue_pending_fd dequeue_pending_fd (\<lambda>i q. Some (m i q)) None ops empty_queue =
      Some (fst (fifo_ops (-1) ops []), q) \<and>
    destroy_pending (heap q) (pending_head q) [] = Some (snd (fifo_ops (-1) ops []), Map.empty)"
  using pending.run_queue_rep [OF _ empty_queue_rep, of "\<lambda>i q. Some (m i q)" ops] fresh_mallocD [OF assms] destroy_frees_all
  by blast

theorem pending_queue_fifo_witness:
  "\<exists>q. run_queue enqueue_pending_fd dequeue_pending_fd (\<lambda>i q. Some (next_address q)) None
      [Enqueue 5 True, Enqueue 6 True, Dequeue, Enqueue 9 False, Dequeue, Dequeue, Enqueue 7 True, Dequeue, Enqueue 8 True] empty_queue =
    Some ([Enqueued True, Enqueued True, Dequeued 5, Enqueued False, Dequeued 6, Dequeued (-1), Enqueued True, Dequeued 7, Enqueued True], q) \<and>
    destroy_pending (heap q) (pending_head q) [] = Some ([8], Map.empty)"
  using pending_queue_fifo [of "\<lambda>i. next_address"
      "[Enqueue 5 True, Enqueue 6 True, Dequeue, Enqueue 9 False, Dequeue, Dequeue, Enqueue 7 True, Dequeue, Enqueue 8 True]"]
    next_address_fresh by simp

text \<open>C32: nothing is lost on either way out of the queue. \<open>add_pending_clients\<close> ends, and hands every pending
  socket in order either to the worker or to \<open>close\<close>; \<open>destroy_worker\<close> closes all of them and frees every
  node exactly once.\<close>

theorem pending_queue_drained:
  assumes "distinct (map fst ops)" "None \<notin> fst ` set ops" "\<forall>fd \<in> snd ` set ops. 0 \<le> fd"
  shows "\<exists>q q'. enq_all enqueue_pending_fd ops empty_queue = Some q \<and>
    add_pending_clients add q [] [] =
      Some (filter add (map snd ops), filter (\<lambda>fd. \<not> add fd) (map snd ops), q') \<and> heap q' = Map.empty \<and>
    destroy_pending (heap q) (pending_head q) [] = Some (map snd ops, Map.empty)"
proof -
  obtain q where q: "enq_all enqueue_pending_fd ops empty_queue = Some q" "queue_rep q (map snd ops)"
    using pending.enq_all_rep [OF empty_queue_rep assms(1) fresh_empty [OF assms(2)]] by auto
  with add_pending_drains [OF q(2), of add "[]" "[]"] assms(3) destroy_frees_all [OF q(2)] queue_rep_Nil_heap
  show ?thesis by fastforce
qed

theorem pending_queue_drained_witness:
  "\<exists>q q'. enq_all enqueue_pending_fd [(Some 8, 5), (Some 3, 6)] empty_queue = Some q \<and>
    add_pending_clients (\<lambda>fd. fd = 6) q [] [] = Some ([6], [5], q') \<and> heap q' = Map.empty \<and>
    destroy_pending (heap q) (pending_head q) [] = Some ([5, 6], Map.empty)"
  using pending_queue_drained [of "[(Some 8, 5), (Some 3, 6)]" "\<lambda>fd. fd = 6"] by simp

text \<open>C16: no lost wakeup and no lost socket. In every reachable interleaving of the accepting thread and the worker the
  accepted sockets are the ones taken by the worker followed by the ones in the queue; and whenever the
  worker waits while the accepting thread is not about to wake it, a queue that is not empty comes with a
  readable pipe, so that the wait ends.\<close>

theorem no_lost_wakeup:
  assumes "handover_reachable pipe_size s" "0 < pipe_size"
  shows "\<exists>xs h. destroy_pending (heap (hq s)) (pending_head (hq s)) [] = Some (xs, h) \<and> accepted s = taken s @ xs \<and>
    (xs \<noteq> [] \<and> worker_pc s = WWait \<and> main_pc s = MAccept \<longrightarrow> 0 < pipe_bytes s)"
  using handover_reachable_inv [OF assms] destroy_frees_all unfolding handover_inv_def by fastforce

theorem no_lost_wakeup_witness:
  "\<exists>s xs h. handover_reachable 16 s \<and> worker_pc s = WWait \<and> main_pc s = MAccept \<and> accepted s = [7] \<and>
     destroy_pending (heap (hq s)) (pending_head (hq s)) [] = Some (xs, h) \<and> xs = [7] \<and> 0 < pipe_bytes s"
proof -
  let ?q = "\<lparr>heap = [1 \<mapsto> \<lparr>n_fd = 7, n_next = None\<rparr>], pending_head = Some 1, pending_tail = Some 1\<rparr>"
  let ?s1 = "handover_init\<lparr>hq := ?q, main_pc := MWake, accepted := accepted handover_init @ [7]\<rparr>"
  let ?s2 = "?s1\<lparr>pipe_bytes := wake_worker 16 (pipe_bytes ?s1), main_pc := MAccept\<rparr>"
  have "handover_step 16 handover_init ?s1"
    by (rule handover_step.enqueue [where a = "Some 1"])
      (simp_all add: handover_init_def fresh_node_def empty_queue_def enqueue_pending_fd_def)
  moreover have "handover_step 16 ?s1 ?s2" by (rule handover_step.wake) simp
  ultimately have r: "handover_reachable 16 ?s2"
    using handover_reachable.start handover_reachable.step by blast
  from no_lost_wakeup [OF r] show ?thesis using r
    by (intro exI [of _ ?s2]) (auto simp: handover_init_def)
qed

end
