(* ===== verification/Server_Run.thy ===== *)
theory Server_Run
  imports Server_Main Server_Queue "HOL-Library.Multiset"
begin

text \<open>
  The life of the service: \<open>initialize_worker\<close>, \<open>destroy_worker\<close>, \<open>stop_workers\<close> and \<open>httpfs_server_run\<close> of
  \<open>demo/service_provider/c/httpfs_server.c\<close> with its accept loop and all its early returns. The results of the system
  calls are arguments; what is acquired and released is written to a log. The threads of the workers appear through the
  sockets they take out of their queues.
\<close>

subsection \<open>Resources\<close>

datatype action =
    CallocWorkers | FreeWorkers | MutexInit nat | MutexDestroy nat | OpenFd int | CloseFd int | ThreadStart nat
  | ThreadJoin nat | WakeWorker nat | GetAddrInfo | FreeAddrInfo | MallocNode nat nat | FreeNode nat nat | HandedOver nat int

text \<open>
  Replaying a log: \<open>None\<close> when something is released that is not held, or used after its release. A node is named by
  its worker and its address. A socket that a worker took out of its queue is not released by that: it moves from the
  descriptors the log accounts for (\<open>held_fds\<close>) to those in the hands of the workers (\<open>with_workers\<close>).
\<close>

record resources =
  held_fds :: "int multiset"
  with_workers :: "int multiset"
  list_nodes :: "(nat \<times> nat) set"
  mutexes :: "nat set"
  threads :: "nat set"
  calloced :: bool
  addrinfo :: bool

definition no_resources :: resources where
  "no_resources = \<lparr>held_fds = {#}, with_workers = {#}, list_nodes = {}, mutexes = {}, threads = {}, calloced = False, addrinfo = False\<rparr>"

fun do_action :: "action \<Rightarrow> resources \<Rightarrow> resources option" where
  "do_action CallocWorkers r = (if calloced r then None else Some (r\<lparr>calloced := True\<rparr>))"
| "do_action FreeWorkers r =
     (if calloced r \<and> mutexes r = {} \<and> threads r = {} then Some (r\<lparr>calloced := False\<rparr>) else None)"
| "do_action (MutexInit i) r =
     (if calloced r \<and> i \<notin> mutexes r then Some (r\<lparr>mutexes := insert i (mutexes r)\<rparr>) else None)"
| "do_action (MutexDestroy i) r =
     (if i \<in> mutexes r \<and> i \<notin> threads r then Some (r\<lparr>mutexes := mutexes r - {i}\<rparr>) else None)"
| "do_action (OpenFd fd) r = Some (r\<lparr>held_fds := add_mset fd (held_fds r)\<rparr>)"
| "do_action (CloseFd fd) r = (if fd \<in># held_fds r then Some (r\<lparr>held_fds := held_fds r - {#fd#}\<rparr>) else None)"
| "do_action (ThreadStart i) r =
     (if i \<in> mutexes r \<and> i \<notin> threads r then Some (r\<lparr>threads := insert i (threads r)\<rparr>) else None)"
| "do_action (ThreadJoin i) r = (if i \<in> threads r then Some (r\<lparr>threads := threads r - {i}\<rparr>) else None)"
| "do_action (WakeWorker i) r = (if i \<in> threads r then Some r else None)"
| "do_action GetAddrInfo r = (if addrinfo r then None else Some (r\<lparr>addrinfo := True\<rparr>))"
| "do_action FreeAddrInfo r = (if addrinfo r then Some (r\<lparr>addrinfo := False\<rparr>) else None)"
| "do_action (MallocNode i a) r =
     (if (i, a) \<notin> list_nodes r then Some (r\<lparr>list_nodes := insert (i, a) (list_nodes r)\<rparr>) else None)"
| "do_action (FreeNode i a) r =
     (if (i, a) \<in> list_nodes r then Some (r\<lparr>list_nodes := list_nodes r - {(i, a)}\<rparr>) else None)"
| "do_action (HandedOver i fd) r =
     (if i \<in> threads r \<and> fd \<in># held_fds r
      then Some (r\<lparr>held_fds := held_fds r - {#fd#}, with_workers := add_mset fd (with_workers r)\<rparr>) else None)"

fun replay :: "action list \<Rightarrow> resources \<Rightarrow> resources option" where
  "replay [] r = Some r"
| "replay (a # as) r = Option.bind (do_action a r) (replay as)"

lemma replay_append: "replay (as @ bs) r = Option.bind (replay as r) (replay bs)"
  by (induction as arbitrary: r) (auto intro!: Option.bind_cong)

subsection \<open>One worker\<close>

record worker_context =
  w_index :: nat
  w_epoll_fd :: int
  w_notify_read :: int
  w_notify_write :: int
  w_queue :: worker_queue
  w_root_dir :: string

text \<open>What the system calls of \<open>initialize_worker\<close> return.\<close>

record worker_calls =
  mutex_init_ok :: bool
  epoll_create_fd :: int
  pipe_fds :: "(int \<times> int) option"
  read_flags :: int
  read_setfl_ok :: bool
  write_flags :: int
  write_setfl_ok :: bool
  epoll_ctl_ok :: bool
  thread_create_ok :: bool

text \<open>The results of \<open>F_GETFL\<close> and of \<open>F_SETFL\<close>.\<close>

definition set_nonblocking :: "int \<Rightarrow> bool \<Rightarrow> bool" where
  "set_nonblocking flags setfl_ok = (if flags < 0 then False else if \<not> setfl_ok then False else True)"

definition close_valid :: "int \<Rightarrow> action list" where
  "close_valid fd = (if fd \<ge> 0 then [CloseFd fd] else [])"

text \<open>The loop of \<open>destroy_worker\<close> over the nodes of worker \<open>i\<close> that are left; the heap is what is not freed yet.\<close>

partial_function (option) destroy_nodes ::
  "nat \<Rightarrow> (nat \<rightharpoonup> pending_fd_node) \<Rightarrow> nat option \<Rightarrow> action list \<Rightarrow> action list option" where
  "destroy_nodes i h node log =
     (case node of
        None \<Rightarrow> Some log
      | Some p \<Rightarrow>
          (case h p of
             None \<Rightarrow> None
           | Some n \<Rightarrow> destroy_nodes i (h(p := None)) (n_next n) (log @ [CloseFd (n_fd n), FreeNode i p])))"

definition destroy_worker :: "worker_context \<Rightarrow> action list option" where
  "destroy_worker worker =
     map_option (\<lambda>log. log @ [MutexDestroy (w_index worker)])
       (destroy_nodes (w_index worker) (heap (w_queue worker)) (pending_head (w_queue worker))
          (close_valid (w_epoll_fd worker) @ close_valid (w_notify_read worker) @ close_valid (w_notify_write worker)))"

text \<open>A failing step after the mutex exists: the worker is destroyed.\<close>

definition fail_worker :: "worker_context \<Rightarrow> action list \<Rightarrow> (bool \<times> worker_context \<times> action list) option" where
  "fail_worker worker log = map_option (\<lambda>d. (False, worker, log @ d)) (destroy_worker worker)"

definition initialize_worker ::
  "worker_calls \<Rightarrow> nat \<Rightarrow> string \<Rightarrow> (bool \<times> worker_context \<times> action list) option" where
  "initialize_worker calls i root =
     (let worker = \<lparr>w_index = i, w_epoll_fd = -1, w_notify_read = -1, w_notify_write = -1, w_queue = empty_queue, w_root_dir = root\<rparr>
      in if \<not> mutex_init_ok calls then Some (False, worker, [])
         else
           (let worker = worker\<lparr>w_epoll_fd := epoll_create_fd calls\<rparr>; log = [MutexInit i]
            in if w_epoll_fd worker < 0 then fail_worker worker log
               else
                 (let log = log @ [OpenFd (w_epoll_fd worker)]
                  in case pipe_fds calls of
                       None \<Rightarrow> fail_worker worker log
                     | Some (r, w) \<Rightarrow>
                         (let worker = worker\<lparr>w_notify_read := r, w_notify_write := w\<rparr>; log = log @ [OpenFd r, OpenFd w]
                          in if \<not> set_nonblocking (read_flags calls) (read_setfl_ok calls) \<or>
                                \<not> set_nonblocking (write_flags calls) (write_setfl_ok calls)
                             then fail_worker worker log
                             else if \<not> epoll_ctl_ok calls then fail_worker worker log
                             else if \<not> thread_create_ok calls then fail_worker worker log
                             else Some (True, worker, log @ [ThreadStart i])))))"

text \<open>The loop of \<open>httpfs_server_run\<close> that starts the workers; \<open>started\<close> are the ones that run.\<close>

fun start_workers ::
  "(nat \<Rightarrow> worker_calls) \<Rightarrow> string \<Rightarrow> nat \<Rightarrow> worker_context list \<Rightarrow> action list \<Rightarrow>
   (bool \<times> worker_context list \<times> action list) option" where
  "start_workers calls root 0 started log = Some (True, started, log)"
| "start_workers calls root (Suc n) started log =
     (case initialize_worker (calls (length started)) (length started) root of
        None \<Rightarrow> None
      | Some (False, worker, l) \<Rightarrow> Some (False, started, log @ l)
      | Some (True, worker, l) \<Rightarrow> start_workers calls root n (started @ [worker]) (log @ l))"

text \<open>
  The thread of a worker calls \<open>dequeue_pending_fd\<close> \<open>n\<close> times: the first node is freed and its socket is in the hands of
  the worker; \<open>-1\<close> is the answer of an empty queue. In \<open>join_workers\<close>, \<open>takes i\<close> is how often worker \<open>i\<close> does so before
  its thread ends.
\<close>

fun worker_takes :: "nat \<Rightarrow> worker_context \<Rightarrow> (worker_context \<times> action list) option" where
  "worker_takes 0 worker = Some (worker, [])"
| "worker_takes (Suc n) worker =
     (case dequeue_pending_fd (w_queue worker) of
        None \<Rightarrow> None
      | Some (fd, q) \<Rightarrow>
          (let freed = (case pending_head (w_queue worker) of None \<Rightarrow> [] | Some a \<Rightarrow> [FreeNode (w_index worker) a]);
               taken = (if fd \<ge> 0 then [HandedOver (w_index worker) fd] else [])
           in map_option (apsnd (\<lambda>l. freed @ taken @ l)) (worker_takes n (worker\<lparr>w_queue := q\<rparr>))))"

fun join_workers :: "(nat \<Rightarrow> nat) \<Rightarrow> worker_context list \<Rightarrow> action list option" where
  "join_workers takes [] = Some []"
| "join_workers takes (worker # workers) =
     (case worker_takes (takes (w_index worker)) worker of
        None \<Rightarrow> None
      | Some (worker, handed) \<Rightarrow>
          (case destroy_worker worker of
             None \<Rightarrow> None
           | Some d \<Rightarrow> map_option (\<lambda>l. handed @ ThreadJoin (w_index worker) # d @ l) (join_workers takes workers)))"

definition stop_workers :: "(nat \<Rightarrow> nat) \<Rightarrow> worker_context list \<Rightarrow> action list option" where
  "stop_workers takes workers =
     map_option (\<lambda>l. map (\<lambda>worker. WakeWorker (w_index worker)) workers @ l) (join_workers takes workers)"

subsection \<open>The accept loop\<close>

text \<open>
  What the accepting thread meets: a client with its socket, the results of \<open>fcntl\<close> and whether \<open>malloc\<close> has memory for
  its node; an interrupted call; a failing call. Between these a worker takes a socket out of its queue. The loop ends
  with the events: then \<open>g_stop_server\<close> is set.
\<close>

datatype accept_event = AcceptClient int int bool bool | AcceptIntr | AcceptFails | WorkerTakes nat

record accept_state =
  workers :: "worker_context list"
  next_worker :: "64 word"
  actions :: "action list"

text \<open>\<open>malloc_node\<close> is the address that \<open>malloc\<close> gives for the next node of a queue.\<close>

definition accept_client ::
  "(worker_queue \<Rightarrow> nat) \<Rightarrow> int \<Rightarrow> int \<Rightarrow> bool \<Rightarrow> bool \<Rightarrow> accept_state \<Rightarrow> accept_state option" where
  "accept_client malloc_node client_fd flags setfl_ok malloc_ok s =
     (let s = s\<lparr>actions := actions s @ [OpenFd client_fd]\<rparr>
      in if \<not> set_nonblocking flags setfl_ok then Some (s\<lparr>actions := actions s @ [CloseFd client_fd]\<rparr>)
         else
           (let i = unat (next_worker s) mod length (workers s); worker = workers s ! i;
                s = s\<lparr>next_worker := next_worker s + 1\<rparr>
            in case enqueue_pending_fd (if malloc_ok then Some (malloc_node (w_queue worker)) else None) client_fd (w_queue worker) of
                 None \<Rightarrow> None
               | Some (False, q) \<Rightarrow> Some (s\<lparr>actions := actions s @ [CloseFd client_fd]\<rparr>)
               | Some (True, q) \<Rightarrow>
                   Some (s\<lparr>workers := (workers s)[i := worker\<lparr>w_queue := q\<rparr>],
                     actions := actions s @ [MallocNode i (malloc_node (w_queue worker)), WakeWorker i]\<rparr>)))"

definition concurrent_take :: "nat \<Rightarrow> accept_state \<Rightarrow> accept_state option" where
  "concurrent_take i s =
     (if i < length (workers s)
      then map_option (\<lambda>(worker, l). s\<lparr>workers := (workers s)[i := worker], actions := actions s @ l\<rparr>) (worker_takes 1 (workers s ! i))
      else Some s)"

fun accept_loop :: "(worker_queue \<Rightarrow> nat) \<Rightarrow> accept_event list \<Rightarrow> accept_state \<Rightarrow> (int \<times> accept_state) option" where
  "accept_loop m [] s = Some (0, s)"
| "accept_loop m (AcceptIntr # evs) s = accept_loop m evs s"
| "accept_loop m (AcceptFails # evs) s = Some (1, s)"
| "accept_loop m (AcceptClient client_fd flags setfl_ok malloc_ok # evs) s =
     Option.bind (accept_client m client_fd flags setfl_ok malloc_ok s) (accept_loop m evs)"
| "accept_loop m (WorkerTakes i # evs) s = Option.bind (concurrent_take i s) (accept_loop m evs)"

subsection \<open>The service\<close>

text \<open>
  The results of the remaining calls; \<open>bind_results\<close> is \<open>None\<close> when \<open>getaddrinfo\<close> fails, otherwise what \<open>bind\<close> gives
  for each of its addresses.
\<close>

record server_calls =
  cpu_count :: int
  calloc_ok :: bool
  worker_calls_of :: "nat \<Rightarrow> worker_calls"
  socket_fd :: int
  setsockopt_ok :: bool
  bind_results :: "bool list option"
  listen_ok :: bool
  malloc_node :: "worker_queue \<Rightarrow> nat"
  last_takes :: "nat \<Rightarrow> nat"

definition finish_run ::
  "server_calls \<Rightarrow> int \<Rightarrow> worker_context list \<Rightarrow> action list \<Rightarrow> (int \<times> action list) option" where
  "finish_run calls code ws log =
     map_option (\<lambda>l. (code, log @ l @ [FreeWorkers])) (stop_workers (last_takes calls) ws)"

definition httpfs_server_run :: "server_calls \<Rightarrow> accept_event list \<Rightarrow> string \<Rightarrow> (int \<times> action list) option" where
  "httpfs_server_run calls events root =
     (let worker_count = choose_worker_count (cpu_count calls); server_fd = socket_fd calls
      in if \<not> calloc_ok calls then Some (1, [])
         else
           (case start_workers (worker_calls_of calls) root worker_count [] [CallocWorkers] of
              None \<Rightarrow> None
            | Some (False, ws, log) \<Rightarrow> finish_run calls 1 ws log
            | Some (True, ws, log) \<Rightarrow>
                if server_fd < 0 then finish_run calls 1 ws log
                else
                  (let log = log @ [OpenFd server_fd]
                   in if \<not> setsockopt_ok calls then finish_run calls 1 ws (log @ [CloseFd server_fd])
                      else
                        (case bind_results calls of
                           None \<Rightarrow> finish_run calls 1 ws (log @ [CloseFd server_fd])
                         | Some bound \<Rightarrow>
                             (let log = log @ [GetAddrInfo, FreeAddrInfo]
                              in if True \<notin> set bound then finish_run calls 1 ws (log @ [CloseFd server_fd])
                                 else if \<not> listen_ok calls then finish_run calls 1 ws (log @ [CloseFd server_fd])
                                 else
                                   (case accept_loop (malloc_node calls) events \<lparr>workers = ws, next_worker = 0, actions = log\<rparr> of
                                      None \<Rightarrow> None
                                    | Some (code, s) \<Rightarrow> finish_run calls code (workers s) (actions s @ [CloseFd server_fd])))))))"

subsection \<open>Every path releases what it acquired\<close>

definition worker_fds :: "worker_context \<Rightarrow> int multiset" where
  "worker_fds w = {#w_epoll_fd w, w_notify_read w, w_notify_write w#}"

text \<open>A running worker with the sockets in its queue.\<close>

definition running :: "worker_context \<Rightarrow> int list \<Rightarrow> bool" where
  "running w xs \<longleftrightarrow> queue_rep (w_queue w) xs \<and> (\<forall>x \<in> set xs. 0 \<le> x) \<and> 0 \<le> w_epoll_fd w \<and> 0 \<le> w_notify_read w \<and> 0 \<le> w_notify_write w"

definition held_by :: "worker_context list \<Rightarrow> int list list \<Rightarrow> int multiset" where
  "held_by ws xss = sum_list (map worker_fds ws) + mset (concat xss)"

text \<open>The nodes of the queues of some workers.\<close>

definition node_set :: "worker_context \<Rightarrow> (nat \<times> nat) set" where
  "node_set w = {w_index w} \<times> dom (heap (w_queue w))"

definition nodes_of :: "worker_context list \<Rightarrow> (nat \<times> nat) set" where
  "nodes_of ws = \<Union> (node_set ` set ws)"

abbreviation live :: "int multiset \<Rightarrow> int multiset \<Rightarrow> (nat \<times> nat) set \<Rightarrow> nat set \<Rightarrow> nat set \<Rightarrow> resources" where
  "live M G N mu th \<equiv> \<lparr>held_fds = M, with_workers = G, list_nodes = N, mutexes = mu, threads = th, calloced = True, addrinfo = False\<rparr>"

text \<open>The sockets that a log hands to the workers are what \<open>with_workers\<close> counts.\<close>

fun all_handed :: "action list \<Rightarrow> int multiset" where
  "all_handed [] = {#}"
| "all_handed (HandedOver i fd # as) = add_mset fd (all_handed as)"
| "all_handed (_ # as) = all_handed as"

lemma do_action_given: "do_action a r = Some r' \<Longrightarrow> with_workers r' = all_handed [a] + with_workers r"
  by (cases a) (auto split: if_splits)

lemma all_handed_Cons: "all_handed (a # as) = all_handed [a] + all_handed as"
  by (cases a) auto

lemma replay_given: "replay as r = Some r' \<Longrightarrow> with_workers r' = with_workers r + all_handed as"
proof (induction as arbitrary: r)
  case (Cons a as)
  then obtain r1 where r1: "do_action a r = Some r1" "replay as r1 = Some r'" by (cases "do_action a r") auto
  with Cons.IH [OF r1(2)] do_action_given [OF r1(1)] show ?case by (subst all_handed_Cons) (simp add: ac_simps)
qed simp

lemma replay_opens: "replay (map OpenFd fds) (live M G N mu th) = Some (live (M + mset fds) G N mu th)"
  by (induction fds arbitrary: M) simp_all

lemma replay_closes: "replay (map CloseFd fds) (live (M + mset fds) G N mu th) = Some (live M G N mu th)"
  by (induction fds) simp_all

lemma replay_wakes: "list_all (\<lambda>w. w_index w \<in> th) ws \<Longrightarrow>
  replay (map (\<lambda>w. WakeWorker (w_index w)) ws) (live M G N mu th) = Some (live M G N mu th)"
  by (induction ws) simp_all

lemma destroy_nodes_replay:
  "chain h p as xs \<Longrightarrow> distinct as \<Longrightarrow> {i} \<times> set as \<subseteq> N \<Longrightarrow>
   \<exists>l. destroy_nodes i h p log = Some (log @ l) \<and>
     replay l (live (M + mset xs) G N mu th) = Some (live M G (N - {i} \<times> set as) mu th)"
proof (induction as arbitrary: h p xs log N)
  case Nil
  then have "p = None" "xs = []" by (cases xs; auto)+
  then show ?case by (subst destroy_nodes.simps) simp
next
  case (Cons a as)
  then obtain x ys n where n: "xs = x # ys" "p = Some a" "h a = Some n" "n_fd n = x" "chain h (n_next n) as ys"
    by (cases xs) (auto split: option.splits)
  have c: "chain (h(a := None)) (n_next n) as ys" by (rule chain_cong [OF n(5)]) (use Cons.prems in auto)
  have N: "{i} \<times> set as \<subseteq> N - {(i, a)}" "N - {(i, a)} - {i} \<times> set as = N - {i} \<times> set (a # as)" using Cons.prems(2,3) by auto
  obtain l where "destroy_nodes i (h(a := None)) (n_next n) (log @ [CloseFd x, FreeNode i a]) = Some ((log @ [CloseFd x, FreeNode i a]) @ l)"
      "replay l (live (M + mset ys) G (N - {(i, a)}) mu th) = Some (live M G (N - {i} \<times> set (a # as)) mu th)"
    using Cons.IH [OF c _ N(1), of "log @ [CloseFd x, FreeNode i a]"] Cons.prems(2) unfolding N(2) by (auto simp del: fun_upd_apply)
  then show ?case using n Cons.prems(3)
    by (subst destroy_nodes.simps) (auto simp del: fun_upd_apply intro!: exI [of _ "CloseFd x # FreeNode i a # l"])
qed

lemma destroyed:
  assumes "running w xs" "w_index w \<in> mu" "w_index w \<notin> th" "node_set w \<subseteq> N"
  shows "\<exists>l. destroy_worker w = Some l \<and>
    replay l (live (M + worker_fds w + mset xs) G N mu th) = Some (live M G (N - node_set w) (mu - {w_index w}) th)"
proof -
  obtain as where as: "chain (heap (w_queue w)) (pending_head (w_queue w)) as xs" "distinct as" "dom (heap (w_queue w)) = set as"
    using assms(1) by (auto simp: running_def queue_rep_def)
  let ?c = "map CloseFd [w_epoll_fd w, w_notify_read w, w_notify_write w]"
  obtain l where l: "destroy_nodes (w_index w) (heap (w_queue w)) (pending_head (w_queue w)) ?c = Some (?c @ l)"
      "replay l (live (M + mset xs) G N mu th) = Some (live M G (N - node_set w) mu th)"
    using destroy_nodes_replay [OF as(1,2), of "w_index w" N ?c M G mu th] assms(4) as(3) by (auto simp: node_set_def)
  have "replay ?c (live (M + worker_fds w + mset xs) G N mu th) = Some (live (M + mset xs) G N mu th)"
    using replay_closes [of "[w_epoll_fd w, w_notify_read w, w_notify_write w]" "M + mset xs" G N mu th]
    by (simp add: worker_fds_def)
  moreover have "destroy_worker w = Some ((?c @ l) @ [MutexDestroy (w_index w)])"
    using l(1) assms(1) by (simp add: destroy_worker_def running_def close_valid_def)
  ultimately show ?thesis using l(2) assms(2,3) by (simp only: replay_append bind.simps option.inject ex_simps simp_thms) simp
qed

fun handed :: "nat \<Rightarrow> action list \<Rightarrow> int list" where
  "handed i [] = []"
| "handed i (HandedOver j fd # as) = (if i = j then fd # handed i as else handed i as)"
| "handed i (_ # as) = handed i as"

lemma handed_append [simp]: "handed i (as @ bs) = handed i as @ handed i bs"
  by (induction i as rule: handed.induct) simp_all

text \<open>One call of \<open>dequeue_pending_fd\<close> frees the first node and no other.\<close>

lemma dequeue_nodes:
  assumes "dequeue_pending_fd q = Some (fd, q')"
  shows "case pending_head q of None \<Rightarrow> q' = q | Some a \<Rightarrow> a \<in> dom (heap q) \<and> dom (heap q') = dom (heap q) - {a}"
  using assms by (auto simp: dequeue_pending_fd_def split: option.splits if_splits)

lemma queue_rep_Nil_head: "queue_rep q [] \<Longrightarrow> pending_head q = None"
  using dequeue_empty [of q] dequeue_nodes [of q "-1" q] by (auto split: option.splits)

lemma enqueue_nodes:
  "enqueue_pending_fd (Some a) fd q = Some (True, q') \<Longrightarrow> dom (heap q') = insert a (dom (heap q))"
  by (auto simp: enqueue_pending_fd_def Let_def split: option.splits if_splits)

lemma takes:
  assumes "running w xs"
  shows "\<exists>w' l. worker_takes n w = Some (w', l) \<and> running w' (drop n xs) \<and> w_index w' = w_index w \<and> worker_fds w' = worker_fds w \<and>
    node_set w' \<subseteq> node_set w \<and> (\<forall>i. handed i l = (if i = w_index w then take n xs else [])) \<and>
    (\<forall>M G N mu th. w_index w \<in> th \<and> node_set w \<subseteq> N \<longrightarrow> replay l (live (M + mset (take n xs)) G N mu th) =
       Some (live M (G + mset (take n xs)) (N - (node_set w - node_set w')) mu th))"
  using assms
proof (induction n arbitrary: w xs)
  case (Suc n)
  show ?case
  proof (cases xs)
    case Nil
    then have "dequeue_pending_fd (w_queue w) = Some (-1, w_queue w)" "pending_head (w_queue w) = None"
      using Suc(2) dequeue_empty [of "w_queue w"] queue_rep_Nil_head [of "w_queue w"] by (simp_all add: running_def)
    with Suc(1) [of w "[]"] Suc(2) Nil show ?thesis by fastforce
  next
    case (Cons x ys)
    then obtain q where q: "dequeue_pending_fd (w_queue w) = Some (x, q)" "queue_rep q ys"
      using dequeue_rep [of "w_queue w" x ys] Suc(2) by (auto simp: running_def)
    let ?w = "w\<lparr>w_queue := q\<rparr>"
    have x: "0 \<le> x" and run: "running ?w ys" using Suc(2) q(2) Cons by (auto simp: running_def)
    obtain a where a: "pending_head (w_queue w) = Some a" "a \<in> dom (heap (w_queue w))" "dom (heap q) = dom (heap (w_queue w)) - {a}"
      using dequeue_nodes [OF q(1)] Suc(2) Cons dequeue_rep [of "w_queue w" x ys] q x
      by (cases "pending_head (w_queue w)") (auto simp: dequeue_pending_fd_def)
    obtain w' l where w': "worker_takes n ?w = Some (w', l)" "running w' (drop n ys)" "w_index w' = w_index w" "worker_fds w' = worker_fds w"
        "node_set w' \<subseteq> node_set ?w" "\<forall>i. handed i l = (if i = w_index w then take n ys else [])"
        "\<And>M G N mu th. w_index w \<in> th \<Longrightarrow> node_set ?w \<subseteq> N \<Longrightarrow> replay l (live (M + mset (take n ys)) G N mu th) =
           Some (live M (G + mset (take n ys)) (N - (node_set ?w - node_set w')) mu th)"
      using Suc(1) [OF run] by (auto simp: worker_fds_def)
    let ?l = "FreeNode (w_index w) a # HandedOver (w_index w) x # l"
    have sub: "node_set ?w = node_set w - {(w_index w, a)}" using a(3) by (auto simp: node_set_def)
    have "replay ?l (live (M + mset (take (Suc n) xs)) G N mu th) =
        Some (live M (G + mset (take (Suc n) xs)) (N - (node_set w - node_set w')) mu th)"
      if th: "w_index w \<in> th" "node_set w \<subseteq> N" for M G N mu th
    proof -
      have 1: "(w_index w, a) \<in> N" "(w_index w, a) \<in> node_set w" "node_set ?w \<subseteq> N - {(w_index w, a)}"
        using th a(2) unfolding sub by (auto simp: node_set_def)
      then have 2: "N - {(w_index w, a)} - (node_set ?w - node_set w') = N - (node_set w - node_set w')"
        using w'(5) unfolding sub by blast
      show ?thesis using w'(7) [OF th(1) 1(3), of M "add_mset x G" mu] 1(1) th(1) Cons unfolding 2 by simp
    qed
    moreover have "worker_takes (Suc n) w = Some (w', ?l)" using q(1) a(1) x w'(1) by simp
    moreover have "node_set w' \<subseteq> node_set w" using w'(5) unfolding sub by blast
    ultimately show ?thesis using w'(2-4,6) Cons by (intro exI [of _ w'] exI [of _ ?l]) simp
  qed
qed simp

lemma nodes_of_Cons: "nodes_of (w # ws) = node_set w \<union> nodes_of ws"
  by (simp add: nodes_of_def)

lemma joined:
  assumes "list_all2 running ws xss" "distinct (map w_index ws)"
  shows "\<exists>l G'. join_workers tk ws = Some l \<and>
    replay l (live (M + held_by ws xss) G (nodes_of ws) (w_index ` set ws) (w_index ` set ws)) = Some (live M G' {} {} {})"
  using assms
proof (induction ws xss arbitrary: M G rule: list_all2_induct)
  case Nil
  then show ?case by (simp add: held_by_def nodes_of_def)
next
  case (Cons w ws xs xss)
  let ?i = "w_index w" and ?n = "tk (w_index w)" and ?N = "M + held_by ws xss" and ?I = "w_index ` set ws"
  let ?G = "G + mset (take ?n xs)" and ?D = "nodes_of (w # ws)"
  obtain w' l' where w': "worker_takes ?n w = Some (w', l')" "running w' (drop ?n xs)" "w_index w' = ?i" "worker_fds w' = worker_fds w"
      "node_set w' \<subseteq> node_set w" and r: "\<And>M mu th. w_index w \<in> th \<Longrightarrow> replay l' (live (M + mset (take ?n xs)) G ?D mu th) =
       Some (live M ?G (?D - (node_set w - node_set w')) mu th)"
    using takes [OF Cons(1), of ?n] by (auto simp: nodes_of_Cons)
  have i: "?i \<notin> ?I" using Cons.prems by auto
  then have I: "insert ?i ?I - {?i} = ?I" by simp
  have "node_set w \<inter> nodes_of ws = {}" using i by (auto simp: nodes_of_def node_set_def)
  then have D: "node_set w' \<subseteq> ?D - (node_set w - node_set w')" "?D - (node_set w - node_set w') - node_set w' = nodes_of ws"
    using w'(5) unfolding nodes_of_Cons by blast+
  obtain d where d: "destroy_worker w' = Some d"
      "replay d (live (?N + worker_fds w' + mset (drop ?n xs)) ?G (?D - (node_set w - node_set w')) (insert ?i ?I) ?I) =
        Some (live ?N ?G (nodes_of ws) ?I ?I)"
    using destroyed [OF w'(2) _ _ D(1), of "insert ?i ?I" ?I ?N ?G] i w'(3) I unfolding D(2) by auto
  obtain l G' where l: "join_workers tk ws = Some l" "replay l (live ?N ?G (nodes_of ws) ?I ?I) = Some (live M G' {} {} {})"
    using Cons.IH [of M ?G] Cons.prems by auto
  have "mset xs = mset (drop ?n xs) + mset (take ?n xs)"
    by (metis append_take_drop_id mset_append add.commute)
  then have start: "M + held_by (w # ws) (xs # xss) = ?N + worker_fds w' + mset (drop ?n xs) + mset (take ?n xs)"
    using w'(4) by (simp add: held_by_def ac_simps)
  have "replay l' (live (M + held_by (w # ws) (xs # xss)) G ?D (insert ?i ?I) (insert ?i ?I)) =
      Some (live (?N + worker_fds w' + mset (drop ?n xs)) ?G (?D - (node_set w - node_set w')) (insert ?i ?I) (insert ?i ?I))"
    unfolding start by (rule r) simp
  then show ?case using w'(1,3) d l I by (simp add: replay_append)
qed

lemma finished:
  assumes "list_all2 running ws xss" "map w_index ws = [0..<length ws]"
  shows "\<exists>l G'. finish_run calls code ws log = Some (code, log @ l) \<and>
    replay l (live (held_by ws xss) G (nodes_of ws) {0..<length ws} {0..<length ws}) = Some (no_resources\<lparr>with_workers := G'\<rparr>)"
proof -
  have "w_index ` set ws = {0..<length ws}" "distinct (map w_index ws)" using assms(2) by (metis list.set_map set_upt) (simp add: assms(2))
  then obtain l G' where l: "join_workers (last_takes calls) ws = Some l"
      "replay l (live (held_by ws xss) G (nodes_of ws) {0..<length ws} {0..<length ws}) = Some (live {#} G' {} {} {})"
    using joined [OF assms(1), of "last_takes calls" "{#}" G] by auto
  have "list_all (\<lambda>w. w_index w \<in> {0..<length ws}) ws"
    using \<open>w_index ` set ws = {0..<length ws}\<close> by (auto simp: list_all_iff)
  from replay_wakes [OF this] l show ?thesis
    by (simp add: finish_run_def stop_workers_def replay_append no_resources_def)
qed

subsection \<open>Starting the workers\<close>

definition pipe_valid :: "worker_calls \<Rightarrow> bool" where
  "pipe_valid calls \<longleftrightarrow> (case pipe_fds calls of None \<Rightarrow> True | Some (r, w) \<Rightarrow> 0 \<le> r \<and> 0 \<le> w)"

lemma worker_fails:
  assumes "w_queue w = empty_queue" "w_index w = n"
    and "close_valid (w_epoll_fd w) @ close_valid (w_notify_read w) @ close_valid (w_notify_write w) = map CloseFd fds"
  shows "\<exists>l. fail_worker w (MutexInit n # map OpenFd fds) = Some (False, w, l) \<and>
    replay l (live M G N {0..<n} {0..<n}) = Some (live M G N {0..<n} {0..<n})"
proof -
  have "destroy_nodes n Map.empty None l = Some l" for l by (subst destroy_nodes.simps) simp
  then have "destroy_worker w = Some (map CloseFd fds @ [MutexDestroy n])"
    using assms by (simp add: destroy_worker_def empty_queue_def flip: append_assoc)
  then show ?thesis by (auto simp: fail_worker_def replay_append replay_opens replay_closes)
qed

lemma initialized:
  assumes "pipe_valid calls"
  shows "\<exists>ok w l. initialize_worker calls n root = Some (ok, w, l) \<and>
    (if ok then running w [] \<and> w_index w = n \<and>
        replay l (live M G N {0..<n} {0..<n}) = Some (live (M + worker_fds w) G N {0..<Suc n} {0..<Suc n})
     else replay l (live M G N {0..<n} {0..<n}) = Some (live M G N {0..<n} {0..<n}))"
proof -
  define e where "e = epoll_create_fd calls"
  define w0 where "w0 = \<lparr>w_index = n, w_epoll_fd = -1, w_notify_read = -1, w_notify_write = -1, w_queue = empty_queue, w_root_dir = root\<rparr>"
  have I: "insert n {0..<n} = {0..<Suc n}" by auto
  have fail0: "e < 0 \<Longrightarrow> \<exists>l. fail_worker (w0\<lparr>w_epoll_fd := e\<rparr>) [MutexInit n] = Some (False, w0\<lparr>w_epoll_fd := e\<rparr>, l) \<and>
      replay l (live M G N {0..<n} {0..<n}) = Some (live M G N {0..<n} {0..<n})"
    using worker_fails [of "w0\<lparr>w_epoll_fd := e\<rparr>" n "[]" M G N] by (simp add: w0_def close_valid_def)
  have fail1: "0 \<le> e \<Longrightarrow> \<exists>l. fail_worker (w0\<lparr>w_epoll_fd := e\<rparr>) [MutexInit n, OpenFd e] = Some (False, w0\<lparr>w_epoll_fd := e\<rparr>, l) \<and>
      replay l (live M G N {0..<n} {0..<n}) = Some (live M G N {0..<n} {0..<n})"
    using worker_fails [of "w0\<lparr>w_epoll_fd := e\<rparr>" n "[e]" M G N] by (simp add: w0_def close_valid_def)
  define good where "good \<longleftrightarrow> set_nonblocking (read_flags calls) (read_setfl_ok calls) \<and>
      set_nonblocking (write_flags calls) (write_setfl_ok calls) \<and> epoll_ctl_ok calls \<and> thread_create_ok calls"
  have init: "initialize_worker calls n root =
      (if \<not> mutex_init_ok calls then Some (False, w0, [])
       else if e < 0 then fail_worker (w0\<lparr>w_epoll_fd := e\<rparr>) [MutexInit n]
       else case pipe_fds calls of
              None \<Rightarrow> fail_worker (w0\<lparr>w_epoll_fd := e\<rparr>) [MutexInit n, OpenFd e]
            | Some (r, w) \<Rightarrow>
                (if good then Some (True, w0\<lparr>w_epoll_fd := e, w_notify_read := r, w_notify_write := w\<rparr>,
                    [MutexInit n, OpenFd e, OpenFd r, OpenFd w, ThreadStart n])
                 else fail_worker (w0\<lparr>w_epoll_fd := e, w_notify_read := r, w_notify_write := w\<rparr>)
                    [MutexInit n, OpenFd e, OpenFd r, OpenFd w]))"
    by (simp add: initialize_worker_def Let_def w0_def e_def good_def split: option.split)
  show ?thesis
  proof (cases "mutex_init_ok calls \<and> 0 \<le> e \<and> pipe_fds calls \<noteq> None")
    case False
    then have "\<exists>w l. initialize_worker calls n root = Some (False, w, l) \<and> replay l (live M G N {0..<n} {0..<n}) = Some (live M G N {0..<n} {0..<n})"
      using fail0 fail1 unfolding init by (cases "mutex_init_ok calls"; cases "e < 0"; cases "pipe_fds calls") auto
    then show ?thesis by (intro exI [of _ False]) simp
  next
    case True
    then obtain r w where p: "pipe_fds calls = Some (r, w)" "0 \<le> r" "0 \<le> w" using assms by (auto simp: pipe_valid_def)
    let ?w = "w0\<lparr>w_epoll_fd := e, w_notify_read := r, w_notify_write := w\<rparr>"
    have fail2: "\<exists>l. fail_worker ?w [MutexInit n, OpenFd e, OpenFd r, OpenFd w] = Some (False, ?w, l) \<and>
      replay l (live M G N {0..<n} {0..<n}) = Some (live M G N {0..<n} {0..<n})"
      using worker_fails [of ?w n "[e, r, w]" M G N] p True by (simp add: w0_def close_valid_def)
    have "replay [MutexInit n, OpenFd e, OpenFd r, OpenFd w, ThreadStart n] (live M G N {0..<n} {0..<n}) =
        Some (live (M + worker_fds ?w) G N {0..<Suc n} {0..<Suc n})"
      by (simp add: I worker_fds_def w0_def)
    moreover have "running ?w [] \<and> w_index ?w = n" using True p empty_queue_rep by (simp add: running_def w0_def)
    ultimately show ?thesis using True p(1) fail2 unfolding init by (cases good) auto
  qed
qed

lemma started:
  assumes "\<And>i. pipe_valid (calls i)" "list_all (\<lambda>w. running w []) ws" "map w_index ws = [0..<length ws]"
    and "replay log no_resources = Some (live (sum_list (map worker_fds ws)) {#} {} {0..<length ws} {0..<length ws})"
  shows "\<exists>ok ws' log'. start_workers calls root n ws log = Some (ok, ws', log') \<and> list_all (\<lambda>w. running w []) ws' \<and>
    map w_index ws' = [0..<length ws'] \<and> (ok \<longrightarrow> length ws' = length ws + n) \<and>
    replay log' no_resources = Some (live (sum_list (map worker_fds ws')) {#} {} {0..<length ws'} {0..<length ws'})"
  using assms(2-)
proof (induction n arbitrary: ws log)
  case 0
  then show ?case by (intro exI [of _ True]) simp
next
  case (Suc n)
  let ?M = "sum_list (map worker_fds ws)" and ?n = "length ws"
  obtain ok w l where w: "initialize_worker (calls ?n) ?n root = Some (ok, w, l)"
      "if ok then running w [] \<and> w_index w = ?n \<and>
          replay l (live ?M {#} {} {0..<?n} {0..<?n}) = Some (live (?M + worker_fds w) {#} {} {0..<Suc ?n} {0..<Suc ?n})
       else replay l (live ?M {#} {} {0..<?n} {0..<?n}) = Some (live ?M {#} {} {0..<?n} {0..<?n})"
    using initialized [OF assms(1), of ?n ?n root ?M "{#}" "{}"] by blast
  show ?case
  proof (cases ok)
    case False
    with w Suc.prems show ?thesis by (intro exI [of _ False]) (simp add: replay_append)
  next
    case True
    with Suc.IH [of "ws @ [w]" "log @ l"] Suc.prems w show ?thesis by (simp add: replay_append)
  qed
qed

subsection \<open>Accepting\<close>

text \<open>Where the sockets go: worker \<open>i\<close> of \<open>n\<close> gets every socket whose turn it is, unless there is no memory for its node.\<close>

fun dealt :: "nat \<Rightarrow> nat \<Rightarrow> u64 \<Rightarrow> accept_event list \<Rightarrow> int list" where
  "dealt n i turn [] = []"
| "dealt n i turn (AcceptIntr # evs) = dealt n i turn evs"
| "dealt n i turn (AcceptFails # evs) = []"
| "dealt n i turn (WorkerTakes j # evs) = dealt n i turn evs"
| "dealt n i turn (AcceptClient fd flags setfl_ok malloc_ok # evs) =
     (if \<not> set_nonblocking flags setfl_ok then dealt n i turn evs
      else (if unat turn mod n = i \<and> malloc_ok then [fd] else []) @ dealt n i (turn + 1) evs)"

definition accepting :: "int multiset \<Rightarrow> accept_state \<Rightarrow> int list list \<Rightarrow> bool" where
  "accepting M s xss \<longleftrightarrow> list_all2 running (workers s) xss \<and> map w_index (workers s) = [0..<length (workers s)] \<and>
     (\<exists>G. replay (actions s) no_resources =
       Some (live (M + held_by (workers s) xss) G (nodes_of (workers s)) {0..<length (workers s)} {0..<length (workers s)}))"

lemma accepting_length: "accepting M s xss \<Longrightarrow> length xss = length (workers s)"
  by (auto simp: accepting_def dest: list_all2_lengthD)

lemma mset_concat_update: "i < length xss \<Longrightarrow> mset (concat (xss[i := xs])) + mset (xss ! i) = mset (concat xss) + mset xs"
proof (induction xss arbitrary: i)
  case (Cons x xss)
  then show ?case by (cases i) (auto simp: ac_simps)
qed simp

lemma sum_worker_fds_update:
  "i < length ws \<Longrightarrow> worker_fds w = worker_fds (ws ! i) \<Longrightarrow> sum_list (map worker_fds (ws[i := w])) = sum_list (map worker_fds ws)"
  by (metis list_update_id map_update)

lemma map_index_update: "i < length ws \<Longrightarrow> w_index w = w_index (ws ! i) \<Longrightarrow> map w_index (ws[i := w]) = map w_index ws"
  by (metis list_update_id map_update)

lemma node_set_nth: "i < length ws \<Longrightarrow> node_set (ws ! i) \<subseteq> nodes_of ws"
  by (force simp: nodes_of_def)

lemma nodes_of_nth: "distinct (map w_index ws) \<Longrightarrow> i < length ws \<Longrightarrow> nodes_of ws \<inter> {w_index (ws ! i)} \<times> UNIV = node_set (ws ! i)"
  by (fastforce simp: nodes_of_def node_set_def in_set_conv_nth distinct_conv_nth)

lemma nodes_of_update:
  assumes "distinct (map w_index ws)" "i < length ws" "w_index w = w_index (ws ! i)"
  shows "nodes_of (ws[i := w]) = (nodes_of ws - node_set (ws ! i)) \<union> node_set w"
proof -
  have "set (ws[i := w]) = insert w (set ws - {ws ! i})"
    using assms(1,2) by (simp add: set_update_distinct distinct_map)
  moreover have "node_set v \<inter> node_set (ws ! i) = {}" if "v \<in> set ws - {ws ! i}" for v
  proof -
    have "inj_on w_index (set ws)" "ws ! i \<in> set ws" using assms(1,2) by (auto simp: distinct_map)
    then have "w_index v \<noteq> w_index (ws ! i)" using that by (auto dest: inj_onD)
    then show ?thesis by (auto simp: node_set_def)
  qed
  ultimately have "nodes_of (ws[i := w]) = node_set w \<union> (\<Union> (node_set ` (set ws - {ws ! i})) - node_set (ws ! i))"
    by (auto simp: nodes_of_def)
  moreover have "\<Union> (node_set ` (set ws - {ws ! i})) - node_set (ws ! i) = nodes_of ws - node_set (ws ! i)"
    by (auto simp: nodes_of_def)
  ultimately show ?thesis by blast
qed

lemma accepting_update:
  assumes "accepting M s xss" "i < length (workers s)" "running w xs" "w_index w = i" "worker_fds w = worker_fds (workers s ! i)"
    and "\<And>G. \<exists>G'. replay l (live (M + held_by (workers s) xss) G (nodes_of (workers s)) {0..<length (workers s)} {0..<length (workers s)}) =
      Some (live (M + (sum_list (map worker_fds (workers s)) + mset (concat (xss[i := xs])))) G'
        ((nodes_of (workers s) - node_set (workers s ! i)) \<union> node_set w) {0..<length (workers s)} {0..<length (workers s)})"
  shows "accepting M (s\<lparr>workers := (workers s)[i := w], next_worker := t, actions := actions s @ l\<rparr>) (xss[i := xs])"
proof -
  have "map w_index (workers s) ! i = i" using assms(1,2) by (simp add: accepting_def)
  then have w: "w_index w = w_index (workers s ! i)" using assms(2,4) by simp
  have "distinct (map w_index (workers s))" using assms(1) by (simp add: accepting_def)
  note n = nodes_of_update [OF this assms(2) w]
  obtain G where "replay (actions s) no_resources =
      Some (live (M + held_by (workers s) xss) G (nodes_of (workers s)) {0..<length (workers s)} {0..<length (workers s)})"
    using assms(1) by (auto simp: accepting_def)
  with assms(6) [of G] n have "\<exists>G'. replay (actions s @ l) no_resources =
      Some (live (M + (sum_list (map worker_fds (workers s)) + mset (concat (xss[i := xs])))) G'
        (nodes_of ((workers s)[i := w])) {0..<length (workers s)} {0..<length (workers s)})"
    by (auto simp: replay_append)
  with assms(1-5) w show ?thesis
    unfolding accepting_def held_by_def
    by (simp add: list_all2_update_cong map_index_update sum_worker_fds_update)
qed

lemma accept_client_step:
  assumes "accepting M s xss" "workers s \<noteq> []" "0 \<le> fd" "fresh_malloc m"
  shows "\<exists>s' xss'. accept_client m fd flags setfl_ok malloc_ok s = Some s' \<and> accepting M s' xss' \<and>
    length (workers s') = length (workers s) \<and>
    next_worker s' = (if set_nonblocking flags setfl_ok then next_worker s + 1 else next_worker s) \<and>
    (\<forall>i < length (workers s). handed i (actions s') @ xss' ! i = handed i (actions s) @ xss ! i @
       (if set_nonblocking flags setfl_ok \<and> unat (next_worker s) mod length (workers s) = i \<and> malloc_ok then [fd] else []))"
proof -
  let ?n = "length (workers s)"
  define i where "i = unat (next_worker s) mod ?n"
  have i: "i < ?n" "i < length xss" using assms(2) accepting_length [OF assms(1)] by (auto simp: i_def)
  then have run: "running (workers s ! i) (xss ! i)" using assms(1) by (auto simp: accepting_def dest: list_all2_nthD)
  have dropped: "accepting M (s\<lparr>next_worker := t, actions := actions s @ [OpenFd fd, CloseFd fd]\<rparr>) xss" for t
    using assms(1) by (auto simp: accepting_def replay_append)
  show ?thesis
  proof (cases "set_nonblocking flags setfl_ok \<and> malloc_ok")
    case False
    have "accept_client m fd flags setfl_ok malloc_ok s = Some (s\<lparr>next_worker :=
        (if set_nonblocking flags setfl_ok then next_worker s + 1 else next_worker s), actions := actions s @ [OpenFd fd, CloseFd fd]\<rparr>)"
      using False by (auto simp: accept_client_def enqueue_pending_fd_def Let_def)
    with dropped [of "next_worker s"] dropped [of "next_worker s + 1"] False show ?thesis by (auto intro!: exI [of _ xss])
  next
    case True
    obtain q where q: "enqueue_pending_fd (Some (m (w_queue (workers s ! i)))) fd (w_queue (workers s ! i)) = Some (True, q)"
        "queue_rep q (xss ! i @ [fd])"
      using enqueue_rep fresh_mallocD [OF assms(4)] run by (metis running_def)
    let ?a = "m (w_queue (workers s ! i))"
    let ?w = "(workers s ! i)\<lparr>w_queue := q\<rparr>" and ?l = "[OpenFd fd, MallocNode i ?a, WakeWorker i]"
    have w: "running ?w (xss ! i @ [fd])" "worker_fds ?w = worker_fds (workers s ! i)" "w_index ?w = i"
      using run q(2) assms(1,3) i nth_map [OF i(1), of w_index] by (auto simp: running_def worker_fds_def accepting_def)
    have "w_index (workers s ! i) = i" using w(3) by simp
    moreover have "distinct (map w_index (workers s))" using assms(1) by (simp add: accepting_def)
    moreover have "?a \<notin> dom (heap (w_queue (workers s ! i)))"
      using fresh_mallocD [OF assms(4), of "w_queue (workers s ! i)"] run by (auto simp: running_def fresh_node_def)
    ultimately have new: "(i, ?a) \<notin> nodes_of (workers s)"
      using nodes_of_nth [of "workers s" i] i(1) by (auto simp: node_set_def)
    have "node_set (workers s ! i) \<subseteq> nodes_of (workers s)" by (rule node_set_nth [OF i(1)])
    then have nodes: "nodes_of (workers s) - node_set (workers s ! i) \<union> node_set ?w = insert (i, ?a) (nodes_of (workers s))"
      using enqueue_nodes [OF q(1)] w(3) by (auto simp: node_set_def)
    have "add_mset fd (mset (concat xss)) = mset (concat (xss[i := xss ! i @ [fd]]))"
      using mset_concat_update [OF i(2), of "xss ! i @ [fd]"] by simp
    then have "accepting M (s\<lparr>workers := (workers s)[i := ?w], next_worker := next_worker s + 1, actions := actions s @ ?l\<rparr>)
        (xss[i := xss ! i @ [fd]])"
      using new i(1) by (intro accepting_update [OF assms(1) i(1) w(1,3,2)]) (simp add: held_by_def nodes)
    moreover have "accept_client m fd flags setfl_ok malloc_ok s =
        Some (s\<lparr>workers := (workers s)[i := ?w], next_worker := next_worker s + 1, actions := actions s @ ?l\<rparr>)"
      using True q(1) by (simp add: accept_client_def i_def [symmetric] Let_def)
    ultimately show ?thesis using True i(2) by (auto simp: i_def [symmetric] nth_list_update)
  qed
qed

lemma concurrent_take_step:
  assumes "accepting M s xss"
  shows "\<exists>s' xss'. concurrent_take j s = Some s' \<and> accepting M s' xss' \<and> length (workers s') = length (workers s) \<and>
    next_worker s' = next_worker s \<and> (\<forall>i < length (workers s). handed i (actions s') @ xss' ! i = handed i (actions s) @ xss ! i)"
proof (cases "j < length (workers s)")
  case False
  with assms show ?thesis by (auto simp: concurrent_take_def)
next
  case True
  then have j: "j < length xss" using accepting_length [OF assms] by simp
  let ?w = "workers s ! j" and ?xs = "xss ! j"
  have "running ?w ?xs" using assms True by (auto simp: accepting_def dest: list_all2_nthD)
  then obtain w' l where w': "worker_takes 1 ?w = Some (w', l)" "running w' (drop 1 ?xs)" "w_index w' = w_index ?w"
      "worker_fds w' = worker_fds ?w" "node_set w' \<subseteq> node_set ?w" "\<forall>i. handed i l = (if i = w_index ?w then take 1 ?xs else [])"
    and r: "\<And>M G N mu th. w_index ?w \<in> th \<Longrightarrow> node_set ?w \<subseteq> N \<Longrightarrow> replay l (live (M + mset (take 1 ?xs)) G N mu th) =
       Some (live M (G + mset (take 1 ?xs)) (N - (node_set ?w - node_set w')) mu th)"
    using takes [of ?w ?xs 1] by auto
  have idx: "w_index ?w = j" using assms True nth_map [OF True, of w_index] by (simp add: accepting_def)
  have "mset ?xs = mset (take 1 ?xs) + mset (drop 1 ?xs)" by (metis append_take_drop_id mset_append)
  with mset_concat_update [OF j, of "drop 1 ?xs"]
  have "(mset (concat (xss[j := drop 1 ?xs])) + mset (take 1 ?xs)) + mset (drop 1 ?xs) = mset (concat xss) + mset (drop 1 ?xs)"
    by (simp only: add.assoc)
  then have sum: "mset (concat xss) = mset (concat (xss[j := drop 1 ?xs])) + mset (take 1 ?xs)" by (simp only: add_right_cancel)
  have sub: "node_set ?w \<subseteq> nodes_of (workers s)" by (rule node_set_nth [OF True])
  then have nodes: "nodes_of (workers s) - node_set ?w \<union> node_set w' = nodes_of (workers s) - (node_set ?w - node_set w')"
    using w'(5) by blast
  have "accepting M (s\<lparr>workers := (workers s)[j := w'], next_worker := next_worker s, actions := actions s @ l\<rparr>) (xss[j := drop 1 ?xs])"
  proof (rule accepting_update [OF assms True w'(2) _ w'(4)])
    fix G
    show "\<exists>G'. replay l (live (M + held_by (workers s) xss) G (nodes_of (workers s)) {0..<length (workers s)} {0..<length (workers s)}) =
      Some (live (M + (sum_list (map worker_fds (workers s)) + mset (concat (xss[j := drop 1 ?xs])))) G'
        (nodes_of (workers s) - node_set ?w \<union> node_set w') {0..<length (workers s)} {0..<length (workers s)})"
      unfolding nodes held_by_def sum
      using r [OF _ sub, of "{0..<length (workers s)}" "M + (sum_list (map worker_fds (workers s)) + mset (concat (xss[j := drop 1 ?xs])))"]
        True idx by (simp add: ac_simps)
  qed (use w'(3) idx in simp)
  then show ?thesis using True j w'(1,6) idx by (auto simp: concurrent_take_def nth_list_update)
qed

definition events_valid :: "accept_event list \<Rightarrow> bool" where
  "events_valid evs \<longleftrightarrow> list_all (\<lambda>e. case e of AcceptClient fd _ _ _ \<Rightarrow> 0 \<le> fd | _ \<Rightarrow> True) evs"

lemma accept_loop_result:
  assumes "fresh_malloc m" "accepting M s xss" "workers s \<noteq> []" "events_valid evs"
  shows "\<exists>code s' xss'. accept_loop m evs s = Some (code, s') \<and> accepting M s' xss' \<and> length (workers s') = length (workers s) \<and>
    code = (if AcceptFails \<in> set evs then 1 else 0) \<and>
    (\<forall>i < length (workers s). handed i (actions s') @ xss' ! i =
       handed i (actions s) @ xss ! i @ dealt (length (workers s)) i (next_worker s) evs)"
  using assms(2-4)
proof (induction evs arbitrary: s xss)
  case (Cons ev evs)
  have evs: "events_valid evs" using Cons.prems(3) by (simp add: events_valid_def)
  show ?case
  proof (cases ev)
    case (AcceptClient fd flags setfl_ok malloc_ok)
    then have "0 \<le> fd" using Cons.prems(3) by (simp add: events_valid_def)
    from accept_client_step [OF Cons.prems(1,2) this assms(1), of flags setfl_ok malloc_ok] obtain s1 xss1 where s1:
      "accept_client m fd flags setfl_ok malloc_ok s = Some s1" "accepting M s1 xss1" "length (workers s1) = length (workers s)"
      "next_worker s1 = (if set_nonblocking flags setfl_ok then next_worker s + 1 else next_worker s)"
      "\<forall>i < length (workers s). handed i (actions s1) @ xss1 ! i = handed i (actions s) @ xss ! i @
         (if set_nonblocking flags setfl_ok \<and> unat (next_worker s) mod length (workers s) = i \<and> malloc_ok then [fd] else [])"
      by blast
    have "workers s1 \<noteq> []" using s1(3) Cons.prems(2) by auto
    from Cons.IH [OF s1(2) this evs] obtain code s' xss' where s': "accept_loop m evs s1 = Some (code, s')" "accepting M s' xss'"
      "length (workers s') = length (workers s1)" "code = (if AcceptFails \<in> set evs then 1 else 0)"
      "\<forall>i < length (workers s1). handed i (actions s') @ xss' ! i =
         (handed i (actions s1) @ xss1 ! i) @ dealt (length (workers s1)) i (next_worker s1) evs" by auto
    have "\<forall>i < length (workers s). handed i (actions s') @ xss' ! i =
        handed i (actions s) @ xss ! i @ dealt (length (workers s)) i (next_worker s) (ev # evs)"
      using s'(5) s1(3,4,5) AcceptClient by simp
    with s' s1(1,3) AcceptClient show ?thesis by auto
  next
    case (WorkerTakes j)
    from concurrent_take_step [OF Cons.prems(1), of j] obtain s1 xss1 where s1: "concurrent_take j s = Some s1" "accepting M s1 xss1"
      "length (workers s1) = length (workers s)" "next_worker s1 = next_worker s"
      "\<forall>i < length (workers s). handed i (actions s1) @ xss1 ! i = handed i (actions s) @ xss ! i" by blast
    have "workers s1 \<noteq> []" using s1(3) Cons.prems(2) by auto
    from Cons.IH [OF s1(2) this evs] obtain code s' xss' where s': "accept_loop m evs s1 = Some (code, s')" "accepting M s' xss'"
      "length (workers s') = length (workers s1)" "code = (if AcceptFails \<in> set evs then 1 else 0)"
      "\<forall>i < length (workers s1). handed i (actions s') @ xss' ! i =
         (handed i (actions s1) @ xss1 ! i) @ dealt (length (workers s1)) i (next_worker s1) evs" by auto
    have "\<forall>i < length (workers s). handed i (actions s') @ xss' ! i =
        handed i (actions s) @ xss ! i @ dealt (length (workers s)) i (next_worker s) (ev # evs)"
      using s'(5) s1(3,4,5) WorkerTakes by simp
    with s' s1(1,3) WorkerTakes show ?thesis by auto
  next
    case AcceptIntr
    with Cons.IH [OF Cons.prems(1,2) evs] show ?thesis by auto
  next
    case AcceptFails
    with Cons.prems show ?thesis by auto
  qed
qed auto

lemma nodes_started: "list_all (\<lambda>w. running w []) ws \<Longrightarrow> nodes_of ws = {}"
  using queue_rep_Nil_heap by (auto simp: nodes_of_def node_set_def running_def list_all_iff)

lemma started_accepting:
  assumes "\<And>i. pipe_valid (calls i)" "start_workers calls root n [] [CallocWorkers] = Some (ok, ws, log)"
  shows "accepting {#} \<lparr>workers = ws, next_worker = 0, actions = log\<rparr> (replicate (length ws) [])" "ok \<Longrightarrow> length ws = n"
proof -
  have "replay [CallocWorkers] no_resources = Some (live {#} {#} {} {0..<0} {0..<0})" by (simp add: no_resources_def)
  with started [of calls "[]" "[CallocWorkers]" root n] assms
  have "list_all (\<lambda>w. running w []) ws \<and> map w_index ws = [0..<length ws] \<and> (ok \<longrightarrow> length ws = n) \<and>
      replay log no_resources = Some (live (sum_list (map worker_fds ws)) {#} {} {0..<length ws} {0..<length ws})" by auto
  moreover have "list_all2 running ws (replicate (length ws) [])" if "list_all (\<lambda>w. running w []) ws"
    using that by (induction ws) auto
  ultimately show "accepting {#} \<lparr>workers = ws, next_worker = 0, actions = log\<rparr> (replicate (length ws) [])" "ok \<Longrightarrow> length ws = n"
    by (auto simp: accepting_def held_by_def nodes_started)
qed

lemma finish_accepting:
  assumes "accepting M s xss" "\<And>G N. replay l (live (M + held_by (workers s) xss) G N {0..<length (workers s)} {0..<length (workers s)}) =
    Some (live (held_by (workers s) xss) G N {0..<length (workers s)} {0..<length (workers s)})"
  shows "\<exists>log. finish_run calls code (workers s) (actions s @ l) = Some (code, log) \<and>
    replay log no_resources = Some (no_resources\<lparr>with_workers := all_handed log\<rparr>)"
proof -
  obtain G where G: "replay (actions s) no_resources =
      Some (live (M + held_by (workers s) xss) G (nodes_of (workers s)) {0..<length (workers s)} {0..<length (workers s)})"
    using assms(1) by (auto simp: accepting_def)
  obtain l' G' where l': "finish_run calls code (workers s) (actions s @ l) = Some (code, (actions s @ l) @ l')"
      "replay l' (live (held_by (workers s) xss) G (nodes_of (workers s)) {0..<length (workers s)} {0..<length (workers s)}) =
        Some (no_resources\<lparr>with_workers := G'\<rparr>)"
    using finished [of "workers s" xss calls code "actions s @ l" G] assms(1) by (auto simp: accepting_def)
  have r: "replay ((actions s @ l) @ l') no_resources = Some (no_resources\<lparr>with_workers := G'\<rparr>)"
    using G assms(2) [of G] l'(2) by (simp add: replay_append)
  from replay_given [OF r] have "G' = all_handed ((actions s @ l) @ l')" by (simp add: no_resources_def)
  with r l'(1) show ?thesis by blast
qed

lemma starts: "(\<And>i. pipe_valid (calls i)) \<Longrightarrow> \<exists>ok ws log. start_workers calls root n [] [CallocWorkers] = Some (ok, ws, log)"
  using started [of calls "[]" "[CallocWorkers]" root n] by (auto simp: no_resources_def)

lemma run_releases:
  assumes "\<And>i. pipe_valid (worker_calls_of calls i)" "fresh_malloc (malloc_node calls)" "events_valid events"
  shows "\<exists>code log. httpfs_server_run calls events root = Some (code, log) \<and>
    replay log no_resources = Some (no_resources\<lparr>with_workers := all_handed log\<rparr>) \<and>
    (code = 0 \<or> code = 1) \<and> (code = 0 \<longrightarrow> AcceptFails \<notin> set events)"
proof (cases "calloc_ok calls")
  case False
  then show ?thesis by (simp add: httpfs_server_run_def no_resources_def)
next
  case calloc: True
  let ?n = "choose_worker_count (cpu_count calls)" and ?fd = "socket_fd calls"
  obtain ok ws log where st: "start_workers (worker_calls_of calls) root ?n [] [CallocWorkers] = Some (ok, ws, log)"
    using starts [of "worker_calls_of calls"] assms(1) by blast
  let ?s = "\<lparr>workers = ws, next_worker = 0, actions = log\<rparr>"
  note acc = started_accepting [OF assms(1) st]
  have quit: "\<exists>log'. finish_run calls 1 ws (log @ l) = Some (1, log') \<and>
      replay log' no_resources = Some (no_resources\<lparr>with_workers := all_handed log'\<rparr>)"
    if "\<And>G N. replay l (live M' G N {0..<length ws} {0..<length ws}) = Some (live M' G N {0..<length ws} {0..<length ws})"
      "M' = held_by ws (replicate (length ws) [])" for l M'
    using finish_accepting [OF acc(1), of l calls 1] that by simp
  note quits = quit [of "[]"] quit [of "[OpenFd ?fd, CloseFd ?fd]"] quit [of "[OpenFd ?fd, GetAddrInfo, FreeAddrInfo, CloseFd ?fd]"]
  show ?thesis
  proof (cases "ok \<and> 0 \<le> ?fd \<and> setsockopt_ok calls \<and> listen_ok calls \<and> (\<exists>bs. bind_results calls = Some bs \<and> True \<in> set bs)")
    case False
    with quits calloc st show ?thesis
      by (cases ok; cases "?fd < 0"; cases "setsockopt_ok calls"; cases "bind_results calls")
        (auto simp: httpfs_server_run_def Let_def)
  next
    case True
    then obtain bs where bs: "bind_results calls = Some bs" "True \<in> set bs" by blast
    let ?s1 = "\<lparr>workers = ws, next_worker = 0, actions = log @ [OpenFd ?fd, GetAddrInfo, FreeAddrInfo]\<rparr>"
    have a1: "accepting {#?fd#} ?s1 (replicate (length ws) [])" using acc(1) by (auto simp: accepting_def replay_append)
    have "workers ?s1 \<noteq> []" using acc(2) True choose_worker_count_pos [of "cpu_count calls"] by auto
    then obtain code s' xss' where s': "accept_loop (malloc_node calls) events ?s1 = Some (code, s')" "accepting {#?fd#} s' xss'"
        "code = (if AcceptFails \<in> set events then 1 else 0)"
      using accept_loop_result [OF assms(2) a1 _ assms(3)] by blast
    from finish_accepting [OF s'(2), of "[CloseFd ?fd]" calls code] obtain log' where
      "finish_run calls code (workers s') (actions s' @ [CloseFd ?fd]) = Some (code, log')"
      "replay log' no_resources = Some (no_resources\<lparr>with_workers := all_handed log'\<rparr>)"
      by auto
    with True bs calloc st s'(1,3) show ?thesis by (auto simp: httpfs_server_run_def Let_def)
  qed
qed

text \<open>System calls for the concrete runs below: the network fails at \<open>listen\<close> or at the third \<open>accept\<close>.\<close>

definition demo_worker_calls :: "nat \<Rightarrow> worker_calls" where
  "demo_worker_calls i = \<lparr>mutex_init_ok = True, epoll_create_fd = 4 + 3 * int i, pipe_fds = Some (5 + 3 * int i, 6 + 3 * int i),
     read_flags = 0, read_setfl_ok = True, write_flags = 1, write_setfl_ok = True, epoll_ctl_ok = True, thread_create_ok = True\<rparr>"

definition demo_calls :: server_calls where
  "demo_calls = \<lparr>cpu_count = 2, calloc_ok = True, worker_calls_of = demo_worker_calls, socket_fd = 3, setsockopt_ok = True,
     bind_results = Some [False, True], listen_ok = True, malloc_node = next_address, last_takes = (\<lambda>i. i)\<rparr>"

lemma demo_pipes_valid: "pipe_valid (demo_worker_calls i)"
  by (simp add: pipe_valid_def demo_worker_calls_def)

text \<open>C10: the accepting thread releases what it acquires. Whichever system call fails, on every path out of
  \<open>httpfs_server_run\<close> each descriptor it opened was closed exactly once, unless it is a socket that a worker took out of
  its queue; each node of a queue that was allocated was freed exactly once; every started thread was woken and joined
  before its mutex was destroyed; the workers and the addresses were freed; nothing was used after its release. What is left
  are exactly the sockets in the hands of the workers, which this function never closes. The exit code is 0 only when no
  \<open>accept\<close> failed.\<close>

theorem server_run_releases:
  assumes "\<And>i. pipe_valid (worker_calls_of calls i)" "fresh_malloc (malloc_node calls)" "events_valid events"
  shows "\<exists>code log. httpfs_server_run calls events root = Some (code, log) \<and>
    replay log no_resources = Some (no_resources\<lparr>with_workers := all_handed log\<rparr>) \<and>
    (code = 0 \<or> code = 1) \<and> (code = 0 \<longrightarrow> AcceptFails \<notin> set events)"
  by (rule run_releases [OF assms])

theorem server_run_releases_witness:
  "\<exists>log. httpfs_server_run demo_calls [AcceptClient 20 0 True True, WorkerTakes 0, AcceptIntr, AcceptClient 21 0 True False, AcceptFails] ''/srv'' =
     Some (1, log) \<and> replay log no_resources = Some (no_resources\<lparr>with_workers := all_handed log\<rparr>)"
  using server_run_releases [of demo_calls "[AcceptClient 20 0 True True, WorkerTakes 0, AcceptIntr, AcceptClient 21 0 True False, AcceptFails]" "''/srv''"]
    demo_pipes_valid next_address_fresh by (auto simp: demo_calls_def events_valid_def)

text \<open>C11: the accepted sockets are dealt out in turn and none is lost. After the accept loop of \<open>n\<close> started workers, the
  sockets that worker \<open>i\<close> has taken, followed by the ones that are still in its queue, are the accepted non-blocking
  sockets whose turn modulo \<open>n\<close> is \<open>i\<close>, in the order of arrival, without those for which there was no memory; the turn is
  counted with 64 bits.\<close>

theorem accept_loop_deals:
  assumes "\<And>i. pipe_valid (calls i)" "fresh_malloc m" "events_valid events" "0 < n"
    and "start_workers calls root n [] [CallocWorkers] = Some (True, ws, log)"
  shows "\<exists>code s. accept_loop m events \<lparr>workers = ws, next_worker = 0, actions = log\<rparr> = Some (code, s) \<and>
    code = (if AcceptFails \<in> set events then 1 else 0) \<and> length (workers s) = n \<and>
    (\<forall>i < n. \<exists>pending h. destroy_pending (heap (w_queue (workers s ! i))) (pending_head (w_queue (workers s ! i))) [] = Some (pending, h) \<and>
       handed i (actions s) @ pending = handed i log @ dealt n i 0 events)"
proof -
  have a: "accepting {#} \<lparr>workers = ws, next_worker = 0, actions = log\<rparr> (replicate (length ws) [])" "length ws = n"
    using started_accepting [OF assms(1,5)] by simp_all
  then have "workers \<lparr>workers = ws, next_worker = 0, actions = log\<rparr> \<noteq> []" using assms(4) by auto
  from accept_loop_result [OF assms(2) a(1) this assms(3)] obtain code s xss where s:
    "accept_loop m events \<lparr>workers = ws, next_worker = 0, actions = log\<rparr> = Some (code, s)" "accepting {#} s xss"
    "length (workers s) = n" "code = (if AcceptFails \<in> set events then 1 else 0)"
    "\<forall>i < n. handed i (actions s) @ xss ! i = handed i log @ dealt n i 0 events"
    using a(2) by auto
  have "destroy_pending (heap (w_queue (workers s ! i))) (pending_head (w_queue (workers s ! i))) [] = Some (xss ! i, Map.empty)" if "i < n" for i
    using s(2,3) that by (auto simp: accepting_def running_def intro!: destroy_frees_all dest: list_all2_nthD)
  with s show ?thesis by blast
qed

theorem accept_loop_deals_witness:
  "\<exists>ws log code s. start_workers demo_worker_calls ''/srv'' 2 [] [CallocWorkers] = Some (True, ws, log) \<and>
    accept_loop next_address [AcceptClient 20 0 True True, AcceptClient 21 0 True True, WorkerTakes 0, AcceptClient 22 0 True True]
      \<lparr>workers = ws, next_worker = 0, actions = log\<rparr> = Some (code, s) \<and> code = 0 \<and>
    (\<exists>pending h. destroy_pending (heap (w_queue (workers s ! 0))) (pending_head (w_queue (workers s ! 0))) [] = Some (pending, h) \<and>
       handed 0 (actions s) @ pending = [20, 22])"
proof -
  let ?evs = "[AcceptClient 20 0 True True, AcceptClient 21 0 True True, WorkerTakes 0, AcceptClient 22 0 True True]"
  obtain ws log where st: "start_workers demo_worker_calls ''/srv'' 2 [] [CallocWorkers] = Some (True, ws, log)" "handed 0 log = []"
    by (simp add: numeral_2_eq_2 demo_worker_calls_def initialize_worker_def set_nonblocking_def)
  have ev: "events_valid ?evs" by (simp add: events_valid_def)
  have "dealt 2 0 0 ?evs = [20, 22]" by (simp add: set_nonblocking_def)
  with accept_loop_deals [OF demo_pipes_valid next_address_fresh ev _ st(1)] st show ?thesis by fastforce
qed

end
