(* ===== verification/Server_Worker.thy ===== *)
theory Server_Worker
  imports Server_Conn Server_Handlers Server_Queue "HOL-Library.Multiset"
begin

text \<open>
  The thread of a worker, \<open>worker_thread_main\<close> of \<open>demo/service_provider/c/httpfs_server.c\<close>: it waits for ready descriptors,
  adds the sockets that the accepting thread has queued, collects requests on any number of connections at once, answers
  the complete ones and closes them. The connections are the table from sockets to their state that \<open>epoll\<close> keeps; an event
  for a connection that was freed is the result \<open>Dangling\<close>.
\<close>

subsection \<open>Sending\<close>

text \<open>
  \<open>send_all\<close> with what \<open>send\<close> returns for each call, and everything at once when the list has ended. After a failed call
  nothing more reaches the peer.
\<close>

fun send_all :: "int list \<Rightarrow> bytes \<Rightarrow> bytes" where
  "send_all [] data = data"
| "send_all (written # results) data =
     (if data = [] then []
      else if written \<le> 0 then []
      else take (nat written) data @ send_all results (drop (nat written) data))"

subsection \<open>The state of a worker thread\<close>

record 'w worker_env =
  e_alloc :: "nat \<Rightarrow> bool"
  e_epoll_add :: "int \<Rightarrow> bool"
  e_send :: "int \<Rightarrow> int list"
  e_kernel :: "'w kernel"
  e_root :: string

record 'w worker_state =
  conns :: "int \<rightharpoonup> connection_state"
  socks :: "int \<Rightarrow> recv_event list"
  wqueue :: worker_queue
  notify_bytes :: nat
  sent :: "(int \<times> bytes) list"
  closed :: "int list"
  kworld :: 'w

text \<open>A freed connection, a freed node, or a call that does not come back.\<close>

datatype stuck = Dangling | FreedNode | Hangs

definition close_connection :: "int \<Rightarrow> 'w worker_state \<Rightarrow> 'w worker_state" where
  "close_connection fd st = st\<lparr>conns := (conns st)(fd := None), closed := closed st @ [fd]\<rparr>"

definition send_reply :: "'w worker_env \<Rightarrow> int \<Rightarrow> bytes \<Rightarrow> 'w worker_state \<Rightarrow> 'w worker_state" where
  "send_reply env fd reply st =
     (if reply = [] then st else st\<lparr>sent := sent st @ [(fd, send_all (e_send env fd) reply)]\<rparr>)"

definition process_connection_request ::
  "'w worker_env \<Rightarrow> int \<Rightarrow> connection_state \<Rightarrow> 'w worker_state \<Rightarrow> stuck + 'w worker_state" where
  "process_connection_request env fd conn st =
     (case process_request_buffer (e_kernel env) (e_root env) (c_data conn) (kworld st) of
        None \<Rightarrow> Inl Hangs
      | Some (reply, w) \<Rightarrow> Inr (st\<lparr>kworld := w, sent := sent st @ [(fd, send_all (e_send env fd) reply)]\<rparr>))"

text \<open>An event of a connection: \<open>handle_client_event\<close> and what it does to the connection.\<close>

definition client_event :: "'w worker_env \<Rightarrow> int \<Rightarrow> bool \<Rightarrow> bool \<Rightarrow> 'w worker_state \<Rightarrow> stuck + 'w worker_state" where
  "client_event env fd hup blocking st =
     (case conns st fd of
        None \<Rightarrow> Inl Dangling
      | Some conn \<Rightarrow>
          (case handle_client_event (e_alloc env) blocking hup conn (socks st fd) of
             (r, sock) \<Rightarrow>
               (let st = st\<lparr>socks := (socks st)(fd := sock)\<rparr>
                in case r of
                     Waiting c \<Rightarrow> Inr (st\<lparr>conns := (conns st)(fd \<mapsto> c)\<rparr>)
                   | Closed reply \<Rightarrow> Inr (close_connection fd (send_reply env fd reply st))
                   | Complete c \<Rightarrow>
                       (case process_connection_request env fd c st of
                          Inl e \<Rightarrow> Inl e
                        | Inr st \<Rightarrow> Inr (close_connection fd st))
                   | Diverges \<Rightarrow> Inl Hangs)))"

function drain_notify_pipe :: "nat \<Rightarrow> nat" where
  "drain_notify_pipe n = (if 0 < n then drain_notify_pipe (drain_read n) else n)"
  by pat_completeness auto
termination
  by (relation "measure id") (auto simp: drain_read_def)

declare drain_notify_pipe.simps [simp del]

definition notify_event :: "'w worker_env \<Rightarrow> 'w worker_state \<Rightarrow> stuck + 'w worker_state" where
  "notify_event env st =
     (let add = (\<lambda>fd. add_client_to_worker (e_alloc env) (e_epoll_add env fd));
          st = st\<lparr>notify_bytes := drain_notify_pipe (notify_bytes st)\<rparr>
      in case add_pending_clients (\<lambda>fd. add fd \<noteq> None) (wqueue st) [] [] of
           None \<Rightarrow> Inl FreedNode
         | Some (added, refused, q) \<Rightarrow>
             Inr (st\<lparr>wqueue := q, conns := foldl (\<lambda>m fd. m(fd := add fd)) (conns st) added, closed := closed st @ refused\<rparr>))"

text \<open>
  A descriptor that \<open>epoll_wait\<close> reports: the pipe, or a connection with \<open>hup\<close> and \<open>blocking\<close> as for \<open>handle_client_event\<close>.
\<close>

datatype ready_event = Notifier | Client int bool bool

fun ready_events :: "'w worker_env \<Rightarrow> ready_event list \<Rightarrow> 'w worker_state \<Rightarrow> stuck + 'w worker_state" where
  "ready_events env [] st = Inr st"
| "ready_events env (ev # evs) st =
     (case (case ev of Notifier \<Rightarrow> notify_event env st | Client fd hup blocking \<Rightarrow> client_event env fd hup blocking st) of
        Inl e \<Rightarrow> Inl e
      | Inr st \<Rightarrow> ready_events env evs st)"

text \<open>
  What happens in front of the worker, in order: \<open>epoll_wait\<close> returns with ready descriptors, is interrupted or fails; in
  between bytes arrive on a socket, and the accepting thread queues a socket in a node and wakes the worker.
\<close>

datatype worker_input =
    EpollReady "ready_event list" | EpollIntr | EpollFails | Arrive int "recv_event list" | MainQueues nat int

definition main_queues :: "nat \<Rightarrow> int \<Rightarrow> 'w worker_state \<Rightarrow> stuck + 'w worker_state" where
  "main_queues node fd st =
     (case enqueue_pending_fd (Some node) fd (wqueue st) of
        None \<Rightarrow> Inl FreedNode
      | Some (_, q) \<Rightarrow> Inr (st\<lparr>wqueue := q, notify_bytes := wake_worker 65536 (notify_bytes st)\<rparr>))"

definition arrive :: "int \<Rightarrow> recv_event list \<Rightarrow> 'w worker_state \<Rightarrow> 'w worker_state" where
  "arrive fd evs st = st\<lparr>socks := (socks st)(fd := socks st fd @ evs)\<rparr>"

text \<open>The thread; when the inputs have ended, \<open>g_stop_server\<close> is set.\<close>

fun worker_thread_main :: "'w worker_env \<Rightarrow> worker_input list \<Rightarrow> 'w worker_state \<Rightarrow> stuck + 'w worker_state" where
  "worker_thread_main env [] st = notify_event env st"
| "worker_thread_main env (EpollIntr # ins) st = worker_thread_main env ins st"
| "worker_thread_main env (EpollFails # ins) st = Inr st"
| "worker_thread_main env (Arrive fd evs # ins) st = worker_thread_main env ins (arrive fd evs st)"
| "worker_thread_main env (MainQueues node fd # ins) st =
     (case main_queues node fd st of Inl e \<Rightarrow> Inl e | Inr st \<Rightarrow> worker_thread_main env ins st)"
| "worker_thread_main env (EpollReady evs # ins) st =
     (case ready_events env evs st of Inl e \<Rightarrow> Inl e | Inr st \<Rightarrow> worker_thread_main env ins st)"

subsection \<open>The connections of a worker are safe\<close>

definition worker_inv :: "'w worker_state \<Rightarrow> int list \<Rightarrow> bool" where
  "worker_inv st xs \<longleftrightarrow> queue_rep (wqueue st) xs \<and> (\<forall>x \<in> set xs. 0 \<le> x) \<and> distinct xs \<and> set xs \<inter> dom (conns st) = {} \<and>
     finite (dom (conns st)) \<and> (\<forall>fd c. conns st fd = Some c \<longrightarrow> conn_inv c)"

text \<open>Every socket of the worker is in the queue, in the table, or closed.\<close>

definition accounted :: "'w worker_state \<Rightarrow> int list \<Rightarrow> int multiset" where
  "accounted st xs = mset xs + mset_set (dom (conns st)) + mset (closed st)"

lemma foldl_update: "foldl (\<lambda>m fd. m(fd := f fd)) m fds x = (if x \<in> set fds then f x else m x)"
  by (induction fds arbitrary: m) auto

lemma notify_step:
  assumes "worker_inv st xs"
  shows "\<exists>st'. notify_event env st = Inr st' \<and> worker_inv st' [] \<and> accounted st' [] = accounted st xs \<and>
    (\<forall>fd. fd \<in> dom (conns st) \<longrightarrow> conns st' fd = conns st fd) \<and> socks st' = socks st \<and> sent st' = sent st \<and> kworld st' = kworld st \<and>
    set (closed st) \<subseteq> set (closed st')"
proof -
  let ?add = "\<lambda>fd. add_client_to_worker (e_alloc env) (e_epoll_add env fd)"
  let ?in = "filter (\<lambda>fd. ?add fd \<noteq> None) xs" and ?out = "filter (\<lambda>fd. \<not> ?add fd \<noteq> None) xs"
  note inv = assms [unfolded worker_inv_def]
  obtain q where q: "add_pending_clients (\<lambda>fd. ?add fd \<noteq> None) (wqueue st) [] [] = Some (?in, ?out, q)" "queue_rep q []"
    using add_pending_drains [of "wqueue st" xs "\<lambda>fd. ?add fd \<noteq> None" "[]" "[]"] inv by auto
  let ?conns = "foldl (\<lambda>m fd. m(fd := ?add fd)) (conns st) ?in"
  have dom: "dom ?conns = dom (conns st) \<union> set ?in" by (auto simp: foldl_update dom_def split: if_splits)
  have "mset xs = mset ?in + mset ?out" by (simp only: mset_filter multiset_partition)
  moreover have "mset_set (dom ?conns) = mset_set (dom (conns st)) + mset_set (set ?in)"
    unfolding dom using inv by (intro mset_set_Union) auto
  moreover have "mset_set (set ?in) = mset ?in" using inv by (intro mset_set_set) simp
  ultimately have acc: "mset_set (dom ?conns) + mset (closed st @ ?out) = accounted st xs"
    by (simp add: accounted_def ac_simps)
  have old: "conns st fd = ?conns fd" if "fd \<in> dom (conns st)" for fd using that inv by (auto simp: foldl_update)
  have "conn_inv c" if "?conns fd = Some c" for fd c
    using that inv new_connection_on_the_way(1) [of "e_alloc env" "e_epoll_add env fd" c] by (auto simp: foldl_update split: if_splits)
  then show ?thesis
    using q inv acc old dom by (auto simp: notify_event_def worker_inv_def accounted_def)
qed

definition answers_all :: "'w worker_env \<Rightarrow> bool" where
  "answers_all env \<longleftrightarrow> (\<forall>data w. process_request_buffer (e_kernel env) (e_root env) data w \<noteq> None)"

lemma client_step:
  assumes "worker_inv st xs" "fd \<in> dom (conns st)" "answers_all env"
  shows "\<exists>st'. client_event env fd hup blocking st = Inr st' \<and> worker_inv st' xs \<and> accounted st' xs = accounted st xs \<and>
    (\<forall>fd'. fd' \<noteq> fd \<longrightarrow> conns st' fd' = conns st fd' \<and> socks st' fd' = socks st fd') \<and>
    set (sent st) \<subseteq> set (sent st') \<and> set (closed st) \<subseteq> set (closed st')"
proof -
  obtain conn where conn: "conns st fd = Some conn" "conn_inv conn" using assms(1,2) by (auto simp: worker_inv_def)
  obtain r sock where r: "handle_client_event (e_alloc env) blocking hup conn (socks st fd) = (r, sock)" by fastforce
  have ok: "r \<noteq> Diverges" "\<And>c. r = Waiting c \<Longrightarrow> conn_inv c" using handle_client_event_inv [OF r conn(2)] by blast+
  have rm: "mset_set (dom (conns st)) = add_mset fd (mset_set (dom (conns st) - {fd}))"
    using assms(1,2) by (intro mset_set.remove) (auto simp: worker_inv_def)
  have closes: "worker_inv (close_connection fd st2) xs \<and> accounted (close_connection fd st2) xs = accounted st xs"
    if "conns st2 = conns st" "wqueue st2 = wqueue st" "closed st2 = closed st" for st2
    using assms(1) rm that by (auto simp: close_connection_def worker_inv_def accounted_def)
  show ?thesis
  proof (cases r)
    case (Waiting c)
    have "dom ((conns st)(fd \<mapsto> c)) = dom (conns st)" using assms(2) by auto
    then show ?thesis using Waiting r conn ok(2) assms(1)
      by (auto simp: client_event_def Let_def worker_inv_def accounted_def)
  next
    case (Closed reply)
    then show ?thesis using r conn closes [of "send_reply env fd reply (st\<lparr>socks := (socks st)(fd := sock)\<rparr>)"]
      by (auto simp: client_event_def Let_def send_reply_def close_connection_def)
  next
    case (Complete c)
    obtain reply w where p: "process_request_buffer (e_kernel env) (e_root env) (c_data c) (kworld st) = Some (reply, w)"
      using assms(3) unfolding answers_all_def by fastforce
    show ?thesis using Complete r conn p closes [of "st\<lparr>socks := (socks st)(fd := sock), kworld := w,
        sent := sent st @ [(fd, send_all (e_send env fd) reply)]\<rparr>"]
      by (auto simp: client_event_def Let_def process_connection_request_def close_connection_def)
  next
    case Diverges
    with ok show ?thesis by simp
  qed
qed

text \<open>The descriptors that \<open>epoll_wait\<close> reports: each at most once, and only registered ones.\<close>

fun client_fds :: "ready_event list \<Rightarrow> int list" where
  "client_fds [] = []"
| "client_fds (Notifier # evs) = client_fds evs"
| "client_fds (Client fd hup blocking # evs) = fd # client_fds evs"

definition batch_ok :: "ready_event list \<Rightarrow> 'w worker_state \<Rightarrow> bool" where
  "batch_ok evs st \<longleftrightarrow> distinct (client_fds evs) \<and> set (client_fds evs) \<subseteq> dom (conns st)"

lemma ready_step:
  assumes "worker_inv st xs" "batch_ok evs st" "answers_all env"
  shows "\<exists>st' xs'. ready_events env evs st = Inr st' \<and> worker_inv st' xs' \<and> accounted st' xs' = accounted st xs \<and>
    (\<forall>fd. fd \<in> dom (conns st) \<and> fd \<notin> set (client_fds evs) \<longrightarrow> conns st' fd = conns st fd) \<and>
    (\<forall>fd. fd \<notin> set (client_fds evs) \<longrightarrow> socks st' fd = socks st fd) \<and>
    set (sent st) \<subseteq> set (sent st') \<and> set (closed st) \<subseteq> set (closed st')"
  using assms(1,2)
proof (induction evs arbitrary: st xs)
  case (Cons ev evs)
  show ?case
  proof (cases ev)
    case Notifier
    obtain s where s: "notify_event env st = Inr s" "worker_inv s []" "accounted s [] = accounted st xs"
        "\<forall>fd. fd \<in> dom (conns st) \<longrightarrow> conns s fd = conns st fd" "socks s = socks st" "sent s = sent st" "set (closed st) \<subseteq> set (closed s)"
      using notify_step [OF Cons.prems(1)] by blast
    have sub: "dom (conns st) \<subseteq> dom (conns s)" using s(4) by (auto simp: dom_def)
    then have "batch_ok evs s" using Cons.prems(2) Notifier subset_trans [OF _ sub] unfolding batch_ok_def by simp
    from Cons.IH [OF s(2) this] s Notifier sub show ?thesis by (auto simp: subset_iff)
  next
    case (Client fd hup blocking)
    have fd: "fd \<in> dom (conns st)" using Cons.prems(2) Client by (simp add: batch_ok_def)
    obtain s where s: "client_event env fd hup blocking st = Inr s" "worker_inv s xs" "accounted s xs = accounted st xs"
        "\<forall>fd'. fd' \<noteq> fd \<longrightarrow> conns s fd' = conns st fd' \<and> socks s fd' = socks st fd'"
        "set (sent st) \<subseteq> set (sent s)" "set (closed st) \<subseteq> set (closed s)"
      using client_step [OF Cons.prems(1) fd assms(3)] by blast
    have "batch_ok evs s" using Cons.prems(2) Client s(4) by (force simp: batch_ok_def dom_def)
    from Cons.IH [OF s(2) this] s Client show ?thesis by (auto simp: subset_iff dom_def)
  qed
qed auto

text \<open>
  Inputs that the kernel can produce: \<open>accept\<close> returns a descriptor that is not in use, \<open>malloc\<close> a free address, and
  \<open>epoll_wait\<close> registered descriptors.
\<close>

fun plausible :: "'w worker_env \<Rightarrow> worker_input list \<Rightarrow> 'w worker_state \<Rightarrow> bool" where
  "plausible env [] st \<longleftrightarrow> True"
| "plausible env (EpollIntr # ins) st \<longleftrightarrow> plausible env ins st"
| "plausible env (EpollFails # ins) st \<longleftrightarrow> True"
| "plausible env (Arrive fd evs # ins) st \<longleftrightarrow> plausible env ins (arrive fd evs st)"
| "plausible env (MainQueues node fd # ins) st \<longleftrightarrow>
     0 \<le> fd \<and> heap (wqueue st) node = None \<and> fd \<notin> dom (conns st) \<and> (\<forall>n \<in> ran (heap (wqueue st)). n_fd n \<noteq> fd) \<and>
     (case main_queues node fd st of Inl _ \<Rightarrow> True | Inr st \<Rightarrow> plausible env ins st)"
| "plausible env (EpollReady evs # ins) st \<longleftrightarrow>
     batch_ok evs st \<and> (case ready_events env evs st of Inl _ \<Rightarrow> True | Inr st \<Rightarrow> plausible env ins st)"

fun queued :: "worker_input list \<Rightarrow> int list" where
  "queued [] = []"
| "queued (EpollFails # ins) = []"
| "queued (MainQueues node fd # ins) = fd # queued ins"
| "queued (_ # ins) = queued ins"

lemma chain_nodes: "chain h p as xs \<Longrightarrow> x \<in> set xs \<Longrightarrow> \<exists>n \<in> ran h. n_fd n = x"
  by (induction h p as xs rule: chain.induct) (auto split: option.splits intro: ranI)

lemma main_queues_step:
  assumes "worker_inv st xs" "0 \<le> fd" "heap (wqueue st) node = None" "fd \<notin> dom (conns st)" "\<forall>n \<in> ran (heap (wqueue st)). n_fd n \<noteq> fd"
  shows "\<exists>st'. main_queues node fd st = Inr st' \<and> worker_inv st' (xs @ [fd]) \<and> accounted st' (xs @ [fd]) = add_mset fd (accounted st xs) \<and>
    conns st' = conns st \<and> socks st' = socks st \<and> sent st' = sent st \<and> closed st' = closed st"
proof -
  have rep: "queue_rep (wqueue st) xs" using assms(1) by (simp add: worker_inv_def)
  then have "fd \<notin> set xs" using assms(5) chain_nodes by (fastforce simp: queue_rep_def)
  moreover obtain q where "enqueue_pending_fd (Some node) fd (wqueue st) = Some (True, q)" "queue_rep q (xs @ [fd])"
    using enqueue_rep [OF rep, of "Some node" fd] assms(3) by (auto simp: fresh_node_def)
  ultimately show ?thesis using assms(1,2,4) by (auto simp: main_queues_def worker_inv_def accounted_def)
qed

lemma arrive_inv [simp]:
  "worker_inv (arrive fd evs st) xs \<longleftrightarrow> worker_inv st xs" "accounted (arrive fd evs st) xs = accounted st xs"
  "conns (arrive fd evs st) = conns st" "sent (arrive fd evs st) = sent st" "closed (arrive fd evs st) = closed st"
  by (simp_all add: arrive_def worker_inv_def accounted_def)

lemma worker_runs:
  assumes "worker_inv st xs" "plausible env ins st" "answers_all env"
  shows "\<exists>st' xs'. worker_thread_main env ins st = Inr st' \<and> worker_inv st' xs' \<and> accounted st' xs' = mset (queued ins) + accounted st xs \<and>
    set (sent st) \<subseteq> set (sent st') \<and> set (closed st) \<subseteq> set (closed st')"
  using assms
proof (induction env ins st arbitrary: xs rule: plausible.induct)
  case (1 env st)
  then show ?case using notify_step by fastforce
next
  case (5 env node fd ins st)
  obtain s where s: "main_queues node fd st = Inr s" "worker_inv s (xs @ [fd])" "accounted s (xs @ [fd]) = add_mset fd (accounted st xs)"
      "sent s = sent st" "closed s = closed st"
    using main_queues_step [OF 5(2), of fd node] 5(3) by auto
  with 5(1) [OF s(1,2)] 5(3,4) show ?case by simp
next
  case (6 env evs ins st)
  have b: "batch_ok evs st" using 6(3) by simp
  obtain s xs' where s: "ready_events env evs st = Inr s" "worker_inv s xs'" "accounted s xs' = accounted st xs"
      "set (sent st) \<subseteq> set (sent s)" "set (closed st) \<subseteq> set (closed s)"
    using ready_step [OF 6(2) b 6(4)] by blast
  have "plausible env ins s" using 6(3) s(1) by simp
  from 6(1) [OF s(1,2) this 6(4)] obtain st' ys where t: "worker_thread_main env ins s = Inr st'" "worker_inv st' ys"
      "accounted st' ys = mset (queued ins) + accounted s xs'" "set (sent s) \<subseteq> set (sent st')" "set (closed s) \<subseteq> set (closed st')" by blast
  show ?case
    using s t subset_trans [OF s(4) t(4)] subset_trans [OF s(5) t(5)] by (intro exI [of _ st'] exI [of _ ys]) simp
qed auto

text \<open>A socket that is queued after the last event is registered on the way out.\<close>

lemma notify_registers:
  assumes "worker_inv st xs" "notify_event env st = Inr st'" "fd \<in> set xs"
    and "add_client_to_worker (e_alloc env) (e_epoll_add env fd) = Some c"
  shows "conns st' fd = Some c"
proof -
  let ?add = "\<lambda>fd. add_client_to_worker (e_alloc env) (e_epoll_add env fd)"
  obtain q where "add_pending_clients (\<lambda>fd. ?add fd \<noteq> None) (wqueue st) [] [] =
      Some (filter (\<lambda>fd. ?add fd \<noteq> None) xs, filter (\<lambda>fd. \<not> ?add fd \<noteq> None) xs, q)"
    using add_pending_drains [of "wqueue st" xs "\<lambda>fd. ?add fd \<noteq> None" "[]" "[]"] assms(1) by (auto simp: worker_inv_def)
  with assms(2-4) show ?thesis by (auto simp: notify_event_def Let_def foldl_update)
qed

lemma late_socket:
  assumes "worker_inv st xs" "plausible env (ins @ [MainQueues node fd]) st" "answers_all env" "EpollFails \<notin> set ins"
    and "fd \<notin># accounted st xs + mset (queued ins)" "add_client_to_worker (e_alloc env) (e_epoll_add env fd) = Some c"
  shows "\<exists>st'. worker_thread_main env (ins @ [MainQueues node fd]) st = Inr st' \<and> conns st' fd = Some c \<and> fd \<notin> set (closed st')"
  using assms(1,2,4,5)
proof (induction ins arbitrary: st xs)
  case Nil
  obtain s where s: "main_queues node fd st = Inr s" "worker_inv s (xs @ [fd])" "accounted s (xs @ [fd]) = add_mset fd (accounted st xs)"
    using main_queues_step [OF Nil(1), of fd node] Nil(2) by auto
  obtain t where t: "notify_event env s = Inr t" "worker_inv t []" "accounted t [] = accounted s (xs @ [fd])"
    using notify_step [OF s(2)] by blast
  have c: "conns t fd = Some c" using notify_registers [OF s(2) t(1) _ assms(6)] by simp
  have "finite (dom (conns t))" using t(2) by (simp add: worker_inv_def)
  moreover have "fd \<in> dom (conns t)" using c by blast
  ultimately have "count (mset_set (dom (conns t))) fd = 1" by (rule count_mset_set(1))
  moreover have "count (accounted t []) fd = 1" using t(3) s(3) Nil(4) by (simp add: not_in_iff)
  ultimately have "fd \<notin> set (closed t)" by (simp add: accounted_def count_mset_0_iff)
  with s(1) t(1) c show ?case by simp
next
  case (Cons i ins)
  show ?case
  proof (cases i)
    case (EpollReady evs)
    have b: "batch_ok evs st" using Cons.prems(2) EpollReady by simp
    obtain s xs' where s: "ready_events env evs st = Inr s" "worker_inv s xs'" "accounted s xs' = accounted st xs"
      using ready_step [OF Cons.prems(1) b assms(3)] by blast
    with Cons.IH [OF s(2)] Cons.prems EpollReady show ?thesis by simp
  next
    case (Arrive f evs)
    with Cons.IH [of "arrive f evs st" xs] Cons.prems show ?thesis by simp
  next
    case (MainQueues node' f)
    obtain s where s: "main_queues node' f st = Inr s" "worker_inv s (xs @ [f])" "accounted s (xs @ [f]) = add_mset f (accounted st xs)"
      using main_queues_step [OF Cons.prems(1), of f node'] Cons.prems(2) MainQueues by auto
    with Cons.IH [OF s(2)] Cons.prems MainQueues show ?thesis by simp
  qed (use Cons in simp_all)
qed

subsection \<open>A request among others is answered\<close>

text \<open>The request \<open>h\<close>, blank line, \<open>body\<close> is arriving on \<open>fd\<close> in pieces with fewer than \<open>n\<close> pauses; it has been answered.\<close>

definition coming :: "string \<Rightarrow> bytes \<Rightarrow> int \<Rightarrow> nat \<Rightarrow> 'w worker_state \<Rightarrow> bool" where
  "coming h body fd n st \<longleftrightarrow> (\<exists>c. conns st fd = Some c \<and> on_the_way h body c \<and> arrival (socks st fd) \<and>
     c_data c @ sock_bytes (socks st fd) = h @ HEADER_END @ body \<and> agains (socks st fd) < n)"

definition answered :: "'w worker_env \<Rightarrow> bytes \<Rightarrow> int \<Rightarrow> 'w worker_state \<Rightarrow> bool" where
  "answered env req fd st \<longleftrightarrow> (\<exists>w reply w'. process_request_buffer (e_kernel env) (e_root env) req w = Some (reply, w') \<and>
     (fd, send_all (e_send env fd) reply) \<in> set (sent st) \<and> fd \<in> set (closed st))"

lemma answered_mono:
  "answered env req fd st \<Longrightarrow> set (sent st) \<subseteq> set (sent s) \<Longrightarrow> set (closed st) \<subseteq> set (closed s) \<Longrightarrow> answered env req fd s"
  unfolding answered_def by blast

lemma coming_cong: "conns s fd = conns st fd \<Longrightarrow> socks s fd = socks st fd \<Longrightarrow> coming h body fd n s = coming h body fd n st"
  by (simp add: coming_def)

lemma coming_dom: "coming h body fd n st \<Longrightarrow> fd \<in> dom (conns st)"
  by (auto simp: coming_def)

text \<open>The descriptor is not shut down by its peer, and \<open>fcntl\<close> succeeds on it.\<close>

definition undisturbed :: "int \<Rightarrow> ready_event list \<Rightarrow> bool" where
  "undisturbed fd evs \<longleftrightarrow> list_all (\<lambda>e. case e of Client f hup blocking \<Rightarrow> f = fd \<longrightarrow> \<not> hup \<and> blocking | Notifier \<Rightarrow> True) evs"

fun steady :: "int \<Rightarrow> worker_input list \<Rightarrow> bool" where
  "steady fd [] \<longleftrightarrow> True"
| "steady fd (EpollReady evs # ins) \<longleftrightarrow> undisturbed fd evs \<and> steady fd ins"
| "steady fd (EpollFails # ins) \<longleftrightarrow> False"
| "steady fd (Arrive f evs # ins) \<longleftrightarrow> f \<noteq> fd \<and> steady fd ins"
| "steady fd (_ # ins) \<longleftrightarrow> steady fd ins"

fun visits :: "int \<Rightarrow> worker_input list \<Rightarrow> nat" where
  "visits fd [] = 0"
| "visits fd (EpollReady evs # ins) = count_list (client_fds evs) fd + visits fd ins"
| "visits fd (_ # ins) = visits fd ins"

lemma client_progress:
  assumes "header_says h (length body)" "length (h @ HEADER_END @ body) < SERVER_MAX_REQUEST_SIZE"
    and "\<forall>n \<le> SERVER_MAX_REQUEST_SIZE. e_alloc env n" "coming h body fd (Suc n) st" "client_event env fd False True st = Inr s"
  shows "answered env (h @ HEADER_END @ body) fd s \<or> coming h body fd n s"
proof -
  obtain c where c: "conns st fd = Some c" "on_the_way h body c" "arrival (socks st fd)"
      "c_data c @ sock_bytes (socks st fd) = h @ HEADER_END @ body" "agains (socks st fd) < Suc n"
    using assms(4) by (auto simp: coming_def)
  from request_progress [OF assms(1-3) c(2-4)] obtain c' sock' where
    "handle_client_event (e_alloc env) True False c (socks st fd) = (Complete c', sock') \<and> c_data c' = h @ HEADER_END @ body \<or>
     handle_client_event (e_alloc env) True False c (socks st fd) = (Waiting c', sock') \<and> on_the_way h body c' \<and> arrival sock' \<and>
      c_data c' @ sock_bytes sock' = h @ HEADER_END @ body \<and> agains (socks st fd) = Suc (agains sock')" by blast
  then show ?thesis
  proof (elim disjE conjE)
    assume w: "handle_client_event (e_alloc env) True False c (socks st fd) = (Waiting c', sock')" "on_the_way h body c'" "arrival sock'"
      "c_data c' @ sock_bytes sock' = h @ HEADER_END @ body" "agains (socks st fd) = Suc (agains sock')"
    then have "s = st\<lparr>socks := (socks st)(fd := sock'), conns := (conns st)(fd \<mapsto> c')\<rparr>"
      using assms(5) c(1) by (simp add: client_event_def Let_def)
    then show ?thesis using w c(5) by (auto simp: coming_def)
  next
    assume d: "handle_client_event (e_alloc env) True False c (socks st fd) = (Complete c', sock')" "c_data c' = h @ HEADER_END @ body"
    obtain reply w' where p: "process_request_buffer (e_kernel env) (e_root env) (h @ HEADER_END @ body) (kworld st) = Some (reply, w')"
        "(fd, send_all (e_send env fd) reply) \<in> set (sent s)" "fd \<in> set (closed s)"
      using assms(5) c(1) d
      by (auto simp: client_event_def Let_def process_connection_request_def close_connection_def split: option.split_asm)
    then show ?thesis unfolding answered_def by blast
  qed
qed

lemma batch_progress:
  assumes "header_says h (length body)" "length (h @ HEADER_END @ body) < SERVER_MAX_REQUEST_SIZE"
    and "\<forall>n \<le> SERVER_MAX_REQUEST_SIZE. e_alloc env n" "answers_all env"
    and "worker_inv st xs" "batch_ok evs st" "undisturbed fd evs" "coming h body fd (count_list (client_fds evs) fd + n) st"
    and "ready_events env evs st = Inr s"
  shows "answered env (h @ HEADER_END @ body) fd s \<or> coming h body fd n s"
  using assms(5-)
proof (induction evs arbitrary: st xs)
  case (Cons ev evs)
  let ?n = "count_list (client_fds evs) fd + n" and ?req = "h @ HEADER_END @ body"
  obtain s1 xs1 where s1: "ready_events env [ev] st = Inr s1" "worker_inv s1 xs1" "batch_ok evs s1" "ready_events env evs s1 = Inr s"
      "answered env ?req fd s1 \<or> coming h body fd ?n s1"
  proof (cases ev)
    case Notifier
    obtain s1 where s1: "notify_event env st = Inr s1" "worker_inv s1 []" "\<forall>f. f \<in> dom (conns st) \<longrightarrow> conns s1 f = conns st f"
        "socks s1 = socks st" using notify_step [OF Cons.prems(1)] by blast
    have "batch_ok evs s1" using Cons.prems(2) Notifier s1(3) by (force simp: batch_ok_def dom_def)
    moreover have "coming h body fd ?n s1"
      using Cons.prems(4) Notifier coming_cong [of s1 fd st] s1(3,4) coming_dom [OF Cons.prems(4)] by simp
    ultimately show ?thesis using that [of s1 "[]"] s1 Notifier Cons.prems(5) by simp
  next
    case (Client f hup blocking)
    have f: "f \<in> dom (conns st)" using Cons.prems(2) Client by (simp add: batch_ok_def)
    obtain s1 where s1: "client_event env f hup blocking st = Inr s1" "worker_inv s1 xs"
        "\<forall>f'. f' \<noteq> f \<longrightarrow> conns s1 f' = conns st f' \<and> socks s1 f' = socks st f'"
      using client_step [OF Cons.prems(1) f assms(4)] by blast
    have b: "batch_ok evs s1" using Cons.prems(2) Client s1(3) by (force simp: batch_ok_def dom_def)
    have "answered env ?req fd s1 \<or> coming h body fd ?n s1"
    proof (cases "f = fd")
      case True
      then have "\<not> hup" "blocking" "coming h body fd (Suc ?n) st" using Cons.prems(3,4) Client by (auto simp: undisturbed_def)
      with client_progress [OF assms(1-3)] s1(1) True show ?thesis by auto
    next
      case False
      with Cons.prems(4) Client coming_cong [of s1 fd st] s1(3) show ?thesis by auto
    qed
    then show ?thesis using that [of s1 xs] s1 b Client Cons.prems(5) by simp
  qed
  have und: "undisturbed fd evs" using Cons.prems(3) by (simp add: undisturbed_def)
  show ?case using s1(5)
  proof
    assume "answered env ?req fd s1"
    then show ?thesis using ready_step [OF s1(2,3) assms(4)] s1(4) answered_mono by fastforce
  next
    assume "coming h body fd ?n s1"
    then show ?thesis using Cons.IH [OF s1(2,3) und _ s1(4)] by simp
  qed
qed simp

lemma run_answers:
  assumes "header_says h (length body)" "length (h @ HEADER_END @ body) < SERVER_MAX_REQUEST_SIZE"
    and "\<forall>n \<le> SERVER_MAX_REQUEST_SIZE. e_alloc env n" "answers_all env"
    and "worker_inv st xs" "plausible env ins st" "steady fd ins" "coming h body fd (visits fd ins) st"
  shows "\<exists>st'. worker_thread_main env ins st = Inr st' \<and> answered env (h @ HEADER_END @ body) fd st'"
  using assms(5-)
proof (induction ins arbitrary: st xs)
  case Nil
  then show ?case by (simp add: coming_def)
next
  case (Cons i ins)
  show ?case
  proof (cases i)
    case (EpollReady evs)
    have b: "batch_ok evs st" "undisturbed fd evs" "steady fd ins" using Cons.prems(2,3) EpollReady by simp_all
    obtain s xs' where s: "ready_events env evs st = Inr s" "worker_inv s xs'" using ready_step [OF Cons.prems(1) b(1) assms(4)] by blast
    have p: "plausible env ins s" using Cons.prems(2) EpollReady s(1) by simp
    have "answered env (h @ HEADER_END @ body) fd s \<or> coming h body fd (visits fd ins) s"
      by (rule batch_progress [OF assms(1-4) Cons.prems(1) b(1,2) _ s(1)]) (use Cons.prems(4) EpollReady in simp)
    then show ?thesis
    proof
      assume "answered env (h @ HEADER_END @ body) fd s"
      with worker_runs [OF s(2) p assms(4)] s(1) EpollReady answered_mono show ?thesis by fastforce
    next
      assume "coming h body fd (visits fd ins) s"
      with Cons.IH [OF s(2) p b(3)] s(1) EpollReady show ?thesis by simp
    qed
  next
    case (Arrive f evs)
    then have "coming h body fd (visits fd ins) (arrive f evs st)"
      using Cons.prems(3,4) coming_cong [of "arrive f evs st" fd st] by (simp add: arrive_def)
    with Cons.IH [of "arrive f evs st" xs] Cons.prems Arrive show ?thesis by simp
  next
    case (MainQueues node f)
    obtain s where s: "main_queues node f st = Inr s" "worker_inv s (xs @ [f])" "conns s = conns st" "socks s = socks st"
      using main_queues_step [OF Cons.prems(1), of f node] Cons.prems(2) MainQueues by auto
    with Cons.IH [OF s(2)] Cons.prems MainQueues coming_cong [of s fd st] show ?thesis by simp
  qed (use Cons in simp_all)
qed

subsection \<open>Properties\<close>

definition worker_start :: "'w \<Rightarrow> 'w worker_state" where
  "worker_start w = \<lparr>conns = Map.empty, socks = (\<lambda>_. []), wqueue = empty_queue, notify_bytes = 0, sent = [], closed = [], kworld = w\<rparr>"

lemma worker_start_inv: "worker_inv (worker_start w) []" "accounted (worker_start w) [] = {#}"
  using empty_queue_rep by (simp_all add: worker_inv_def worker_start_def accounted_def)

text \<open>A kernel without files, for concrete runs.\<close>

definition no_files :: "'w kernel" where
  "no_files = \<lparr>k_lstat = (\<lambda>_ w. (Inl 2, w)), k_opendir = (\<lambda>_ w. (Inl 2, w)), k_readdir = (\<lambda>_ w. (None, w)), k_closedir = (\<lambda>_ w. w), k_open = (\<lambda>_ _ w. (Inl 2, w)), k_close = (\<lambda>_ w. w),
     k_pread = (\<lambda>_ _ _ w. (Inl 9, w)), k_pwrite = (\<lambda>_ _ _ w. (Inl 9, w)), k_mkdir = (\<lambda>_ _ w. (Some 30, w)), k_unlink = (\<lambda>_ w. (Some 2, w)),
     k_rmdir = (\<lambda>_ w. (Some 2, w)), k_rename = (\<lambda>_ _ w. (Some 2, w)), k_truncate = (\<lambda>_ _ w. (Some 2, w)),
     k_utimensat = (\<lambda>_ _ _ w. (Some 2, w)), k_strerror = (\<lambda>_. ''error''), k_malloc = (\<lambda>_. True)\<rparr>"

definition demo_env :: "nat worker_env" where
  "demo_env = \<lparr>e_alloc = (\<lambda>_. True), e_epoll_add = (\<lambda>_. True), e_send = (\<lambda>_. [10]), e_kernel = no_files, e_root = ''/srv''\<rparr>"

lemma demo_env_answers: "answers_all demo_env"
proof -
  have "store_and_verify no_files p b off m w \<noteq> None" for p b off m and w :: nat by (simp add: store_and_verify_def no_files_def)
  then have "handle_write no_files ctx w \<noteq> None" for ctx and w :: nat
    by (auto simp: handle_write_def Let_def split: option.split)
  moreover have "handle_list no_files ctx w \<noteq> None" for ctx and w :: nat by (simp add: handle_list_def no_files_def split: option.split)
  ultimately have "dispatch_request no_files ctx w \<noteq> None" for ctx and w :: nat by (simp add: dispatch_request_def)
  then show ?thesis
    by (auto simp: answers_all_def demo_env_def process_request_buffer_def Let_def split: option.split)
qed

lemma demo_add: "\<exists>c. add_client_to_worker (\<lambda>_. True) True = Some c"
  by (rule ensure_capacity_cases [where conn = new_connection and alloc = "\<lambda>_. True" and req = SERVER_INITIAL_REQUEST_BUFFER_SIZE])
    (auto simp: add_client_to_worker_def new_connection_def SERVER_INITIAL_REQUEST_BUFFER_SIZE_def SERVER_MAX_REQUEST_SIZE_def)

text \<open>C9: a worker neither loses a socket nor uses it after its end. Whatever arrives and whatever events \<open>epoll_wait\<close> reports for
  registered descriptors, the thread comes back when the system calls do, never touches a connection or a node that was freed, and the sockets that
  were queued for it are exactly the ones that still wait in its queue, are registered, or were closed, each of them once.\<close>

theorem worker_accounts_for_sockets:
  assumes "plausible env ins (worker_start w)" "answers_all env"
  shows "\<exists>st pending h. worker_thread_main env ins (worker_start w) = Inr st \<and>
    destroy_pending (heap (wqueue st)) (pending_head (wqueue st)) [] = Some (pending, h) \<and>
    mset (queued ins) = mset pending + mset_set (dom (conns st)) + mset (closed st)"
proof -
  obtain st xs where st: "worker_thread_main env ins (worker_start w) = Inr st" "worker_inv st xs" "accounted st xs = mset (queued ins)"
    using worker_runs [OF worker_start_inv(1) assms] worker_start_inv(2) [of w] by auto
  from destroy_frees_all [of "wqueue st" xs] st show ?thesis by (auto simp: worker_inv_def accounted_def)
qed

theorem worker_accounts_for_sockets_witness:
  "\<exists>st pending h. worker_thread_main demo_env [MainQueues 0 7, EpollReady [Notifier], EpollReady [Client 7 True True], MainQueues 0 8]
      (worker_start 0) = Inr st \<and>
    destroy_pending (heap (wqueue st)) (pending_head (wqueue st)) [] = Some (pending, h) \<and>
    {#7, 8#} = mset pending + mset_set (dom (conns st)) + mset (closed st)"
proof -
  have add: "\<exists>c. add_client_to_worker (\<lambda>_. True) True = Some c"
    by (rule demo_add)
  have "plausible demo_env [MainQueues 0 7, EpollReady [Notifier], EpollReady [Client 7 True True], MainQueues 0 8] (worker_start 0)"
    using add
    by (auto simp: worker_start_def main_queues_def enqueue_pending_fd_def empty_queue_def batch_ok_def notify_event_def demo_env_def Let_def
        add_pending_clients.simps dequeue_pending_fd_def client_event_def handle_client_event.simps close_connection_def send_reply_def)
  from worker_accounts_for_sockets [OF this demo_env_answers] show ?thesis by simp
qed

text \<open>C36: sockets are left open at shutdown. When the service is told to stop, \<open>worker_thread_main\<close> still registers the sockets that
  wait in its queue and returns: a socket that was queued after the last event and for which there is memory is then
  neither closed nor answered, and its connection stays in the table; nothing in \<open>destroy_worker\<close> walks through the table.\<close>

theorem shutdown_leaves_sockets_open:
  assumes "plausible env (ins @ [MainQueues node fd]) (worker_start w)" "answers_all env" "EpollFails \<notin> set ins"
    and "fd \<notin> set (queued ins)" "add_client_to_worker (e_alloc env) (e_epoll_add env fd) = Some c"
  shows "\<exists>st. worker_thread_main env (ins @ [MainQueues node fd]) (worker_start w) = Inr st \<and> conns st fd = Some c \<and>
    fd \<notin> set (closed st)"
  using late_socket [OF worker_start_inv(1) assms(1-3) _ assms(5)] assms(4) worker_start_inv(2) [of w] by simp

theorem shutdown_leaves_sockets_open_witness:
  "\<exists>c st. add_client_to_worker (\<lambda>_. True) True = Some c \<and>
    worker_thread_main demo_env [MainQueues 0 7, EpollReady [Notifier], MainQueues 0 8] (worker_start 0) = Inr st \<and>
    conns st 8 = Some c \<and> 8 \<notin> set (closed st)"
proof -
  obtain c where c: "add_client_to_worker (\<lambda>_. True) True = Some c" using demo_add by blast
  have "plausible demo_env ([MainQueues 0 7, EpollReady [Notifier]] @ [MainQueues 0 8]) (worker_start 0)"
    using c
    by (auto simp: worker_start_def main_queues_def enqueue_pending_fd_def empty_queue_def batch_ok_def notify_event_def demo_env_def Let_def
        add_pending_clients.simps dequeue_pending_fd_def)
  from shutdown_leaves_sockets_open [OF this demo_env_answers, of c] c show ?thesis by (simp add: demo_env_def)
qed

text \<open>C8: a request is answered whatever else the worker does. A complete request that arrives on a registered connection in
  any pieces, with interruptions and pauses in between, is processed exactly once its last byte is there and with exactly its
  bytes, the response is sent on its socket and the socket is closed, while any number of other connections come, send, wait and go; the worker
  only has to be told of the socket more often than the socket pauses.\<close>

theorem worker_answers_request:
  assumes "header_says h (length body)" "length (h @ HEADER_END @ body) < SERVER_MAX_REQUEST_SIZE"
    and "\<forall>n \<le> SERVER_MAX_REQUEST_SIZE. e_alloc env n" "answers_all env"
    and "worker_inv st xs" "plausible env ins st" "steady fd ins"
    and "conns st fd = add_client_to_worker (e_alloc env) True" "conns st fd \<noteq> None" "arrival (socks st fd)"
    and "sock_bytes (socks st fd) = h @ HEADER_END @ body" "agains (socks st fd) < visits fd ins"
  shows "\<exists>st' w reply w'. worker_thread_main env ins st = Inr st' \<and>
    process_request_buffer (e_kernel env) (e_root env) (h @ HEADER_END @ body) w = Some (reply, w') \<and>
    (fd, send_all (e_send env fd) reply) \<in> set (sent st') \<and> fd \<in> set (closed st')"
proof -
  obtain c where c: "conns st fd = Some c" "add_client_to_worker (e_alloc env) True = Some c" using assms(8,9) by auto
  have "coming h body fd (visits fd ins) st"
    using c(1) new_connection_on_the_way(2,3) [OF c(2)] assms(10-12) by (simp add: coming_def)
  from run_answers [OF assms(1-7) this] show ?thesis unfolding answered_def by blast
qed

theorem worker_answers_request_witness:
  "\<exists>c st' w reply w'. add_client_to_worker (\<lambda>_. True) True = Some c \<and>
    worker_thread_main demo_env [EpollReady [Client 7 False True]]
      (worker_start 0\<lparr>conns := [7 \<mapsto> c], socks := (\<lambda>_. [])(7 := [RData ''GET /'', RIntr, RData HEADER_END])\<rparr>) = Inr st' \<and>
    process_request_buffer no_files ''/srv'' (''GET /'' @ HEADER_END) (w :: nat) = Some (reply, w') \<and>
    (7, send_all [10] reply) \<in> set (sent st') \<and> 7 \<in> set (closed st')"
proof -
  have "\<exists>c. add_client_to_worker (\<lambda>_. True) True = Some c"
    by (rule demo_add)
  then obtain c where c: "add_client_to_worker (\<lambda>_. True) True = Some c" by blast
  let ?st = "worker_start 0\<lparr>conns := [7 \<mapsto> c], socks := (\<lambda>_. [])(7 := [RData ''GET /'', RIntr, RData HEADER_END])\<rparr>"
  have says: "header_says ''GET /'' (length [])" by (simp add: header_says_def HEADER_END_def CRLF_def LONG_MAX_def)
  have inv: "worker_inv ?st []"
    using new_connection_on_the_way(1) [OF c] empty_queue_rep by (simp add: worker_inv_def worker_start_def)
  have pl: "plausible demo_env [EpollReady [Client 7 False True]] ?st" by (simp add: batch_ok_def split: sum.split)
  have len: "length (''GET /'' @ HEADER_END @ []) < SERVER_MAX_REQUEST_SIZE" by (simp add: SERVER_MAX_REQUEST_SIZE_def)
  have steady: "steady 7 [EpollReady [Client 7 False True]]" by (simp add: undisturbed_def)
  have sock: "conns ?st 7 = add_client_to_worker (e_alloc demo_env) True" "conns ?st 7 \<noteq> None" "arrival (socks ?st 7)"
      "sock_bytes (socks ?st 7) = ''GET /'' @ HEADER_END @ []" "agains (socks ?st 7) < visits 7 [EpollReady [Client 7 False True]]"
    using c by (simp_all add: demo_env_def arrival_def sock_bytes_def agains_def)
  have alloc: "\<forall>n \<le> SERVER_MAX_REQUEST_SIZE. e_alloc demo_env n" by (simp add: demo_env_def)
  have env: "e_kernel demo_env = no_files" "e_root demo_env = ''/srv''" "e_send demo_env 7 = [10]" by (simp_all add: demo_env_def)
  from worker_answers_request [OF says len alloc demo_env_answers inv pl steady sock, unfolded env append_Nil2]
  obtain st' w reply w' where "worker_thread_main demo_env [EpollReady [Client 7 False True]] ?st = Inr st'"
      "process_request_buffer no_files ''/srv'' (''GET /'' @ HEADER_END) (w :: nat) = Some (reply, w')"
      "(7, send_all [10] reply) \<in> set (sent st')" "7 \<in> set (closed st')" by (elim exE conjE)
  with c show ?thesis by (intro exI conjI)
qed

end
