(* ===== verification/Served.thy ===== *)
theory Served
  imports Server_Worker Wire
begin

text \<open>
  From the bytes of a request on the wire to the handler: a text with a request line, header lines that announce the
  length of the body, and the body is collected by a worker in every segmentation and reaches \<open>dispatch_request\<close> with
  the method, path, query and body it was written with.
\<close>

lemma find_in_block:
  assumes "list_all (\<lambda>l. \<not> sublist p l) ls" "p \<noteq> []" "CHR 0x0D \<notin> set p" "CHR 0x0A \<notin> set p"
  shows "strstr (header_block ls @ p @ r) p = Some (length (header_block ls))"
  by (rule strstr_at [OF no_start_block [OF assms]]) (rule prefixI, rule refl)

lemma http_text_header:
  assumes "line_ok (meth @ '' '' @ target @ '' HTTP/1.1'')" "list_all line_ok hs" "announces hs (length body)"
    and "\<not> sublist ''Content-Length:'' (meth @ '' '' @ target @ '' HTTP/1.1'')"
  shows "\<exists>h. http_text meth target hs body = h @ HEADER_END @ body \<and> header_says h (length body)"
proof -
  let ?p = "''Content-Length:''"
  define rl where "rl = meth @ '' '' @ target @ '' HTTP/1.1''"
  have p: "?p \<noteq> []" "CHR 0x0D \<notin> set ?p" "CHR 0x0A \<notin> set ?p" by simp_all
  obtain ls l where ll: "rl # hs = ls @ [l]" by (metis list.discI rev_exhaust)
  have ok: "list_all line_ok (ls @ [l])" using assms(1,2) by (simp add: rl_def flip: ll)
  define h where "h = header_block ls @ l"
  have block: "header_block (rl # hs) = h @ CRLF" unfolding ll h_def by simp
  have parts: "http_text meth target hs body = h @ HEADER_END @ body"
    unfolding http_text_def rl_def [symmetric] block by (simp add: HEADER_END_def)
  have "CHR 0x00 \<notin> set (h @ CRLF)" unfolding block [symmetric] ll by (rule header_block_no_nul [OF ok])
  moreover have "strstr (h @ HEADER_END) HEADER_END = Some (length h)"
    using find_header_end [of ls l "[]"] ok by (simp add: h_def)
  moreover have "int (length body) \<le> LONG_MAX" using assms(3) unfolding announces_def by (elim conjE)
  moreover have "length body = 0 \<and> strstr (h @ HEADER_END) ?p = None \<or>
      (\<exists>a b. h = a @ ?p @ '' '' @ show_nat (length body) @ b \<and> (b = [] \<or> hd b = CHR 0x0D) \<and> strstr (a @ ?p) ?p = Some (length a))"
  proof -
    have "(length body = 0 \<and> list_all (\<lambda>l. \<not> sublist ?p l) hs) \<or>
       (\<exists>a b. hs = a @ (''Content-Length: '' @ show_nat (length body)) # b \<and> list_all (\<lambda>l. \<not> sublist ?p l) a)"
      using assms(3) unfolding announces_def by (elim conjE)
    then show ?thesis
    proof (elim disjE exE conjE)
      assume a: "length body = 0" "list_all (\<lambda>l. \<not> sublist ?p l) hs"
      then have "list_all (\<lambda>l. \<not> sublist ?p l) (rl # hs)" using assms(4) by (simp add: rl_def)
      then have "strstr (header_block (rl # hs) @ CRLF) ?p = map_option (\<lambda>k. length (header_block (rl # hs)) + k) (strstr CRLF ?p)"
        by (intro strstr_skip no_start_block p)
      also have "strstr CRLF ?p = None" by (simp add: CRLF_def)
      finally have "strstr (h @ HEADER_END) ?p = None" unfolding block by (simp add: HEADER_END_def)
      with a(1) show ?thesis by (rule disjI1 [OF conjI])
    next
      fix a b assume ab: "hs = a @ (''Content-Length: '' @ show_nat (length body)) # b" "list_all (\<lambda>l. \<not> sublist ?p l) a"
      let ?a = "header_block (rl # a)"
      have "list_all (\<lambda>l. \<not> sublist ?p l) (rl # a)" using assms(4) ab(2) by (simp add: rl_def)
      from find_in_block [OF this p, of "[]"] have first: "strstr (?a @ ?p) ?p = Some (length ?a)" by (simp only: append_Nil2)
      obtain b' where b': "CRLF @ header_block b = b' @ CRLF" "b' = [] \<or> hd b' = CHR 0x0D"
      proof (cases b rule: rev_cases)
        case Nil
        then show ?thesis using that [of "[]"] by simp
      next
        case (snoc b0 x)
        then show ?thesis using that [of "CRLF @ header_block b0 @ x"] by (simp add: CRLF_def)
      qed
      have "h @ CRLF = (?a @ ?p @ '' '' @ show_nat (length body) @ b') @ CRLF"
        unfolding block [symmetric] ab(1) using b'(1) by simp
      then have "h = ?a @ ?p @ '' '' @ show_nat (length body) @ b'" by (simp only: append_same_eq)
      with first b'(2) show ?thesis by blast
    qed
  qed
  ultimately have "header_says h (length body)" unfolding header_says_def by (intro conjI) simp_all
  with parts show ?thesis by blast
qed

text \<open>The target of a request: a path, with or without a query.\<close>

definition target_of :: "string \<Rightarrow> string \<Rightarrow> string \<Rightarrow> bool" where
  "target_of target path query \<longleftrightarrow> (target = path @ CHR ''?'' # query \<or> target = path \<and> query = []) \<and>
     path \<noteq> [] \<and> CHR ''?'' \<notin> set path \<and> (\<forall>c \<in> set (path @ query). \<not> is_space c \<and> c \<noteq> CHR 0x00) \<and> length path + length query + 1 < 2047"

lemma target_of_line:
  assumes "meth = ''GET'' \<or> meth = ''POST''" "target_of target path query"
  shows "line_ok (meth @ '' '' @ target @ '' HTTP/1.1'')"
    "parse_request_line (meth @ '' '' @ target @ '' HTTP/1.1'') = Some (meth, path, query)"
proof -
  have chars: "\<forall>c \<in> set (path @ query). \<not> is_space c \<and> c \<noteq> CHR 0x00" using assms(2) by (simp add: target_of_def)
  have sp: "is_space (CHR 0x0D)" "is_space (CHR 0x0A)" by (simp_all add: is_space_def)
  have "CHR 0x0D \<notin> set (path @ query)" "CHR 0x0A \<notin> set (path @ query)" "CHR 0x00 \<notin> set (path @ query)"
    using chars sp by blast+
  moreover have "c \<notin> set target" if "c \<notin> set (path @ query)" "c \<noteq> CHR ''?''" for c
    using that assms(2) unfolding target_of_def by fastforce
  ultimately have "CHR 0x0D \<notin> set target" "CHR 0x0A \<notin> set target" "CHR 0x00 \<notin> set target" by simp_all
  moreover have "CHR 0x0D \<notin> set meth" "CHR 0x0A \<notin> set meth" "CHR 0x00 \<notin> set meth" using assms(1) by (elim disjE; simp)+
  ultimately show "line_ok (meth @ '' '' @ target @ '' HTTP/1.1'')" by (simp add: line_ok_def)
  have "\<forall>c \<in> set (path @ query). \<not> is_space c" using chars by blast
  from parse_request_line_target [OF assms(1) this]
  show "parse_request_line (meth @ '' '' @ target @ '' HTTP/1.1'') = Some (meth, path, query)"
    using assms(2) unfolding target_of_def by (elim conjE disjE) simp_all
qed

text \<open>C7: the requests of a client reach their handler. A text of a GET or POST line whose target is a path, with or without a
  query behind a question mark, header lines that announce the length of the body, and the body arrives on a registered
  connection in any pieces, among any other connections of the worker: the handler is called with exactly the method, path,
  query and body of the text, its response is sent on this socket and the socket is closed.\<close>

theorem worker_serves_http:
  assumes "meth = ''GET'' \<or> meth = ''POST''" "target_of target path query" "list_all line_ok hs" "announces hs (length body)"
    and "\<not> sublist ''Content-Length:'' (meth @ '' '' @ target @ '' HTTP/1.1'')"
    and "length (http_text meth target hs body) < SERVER_MAX_REQUEST_SIZE"
    and "\<forall>n \<le> SERVER_MAX_REQUEST_SIZE. e_alloc env n" "answers_all env"
    and "worker_inv st xs" "plausible env ins st" "steady fd ins"
    and "conns st fd = add_client_to_worker (e_alloc env) True" "conns st fd \<noteq> None" "arrival (socks st fd)"
    and "sock_bytes (socks st fd) = http_text meth target hs body" "agains (socks st fd) < visits fd ins"
  shows "\<exists>st' md5 w reply w'. worker_thread_main env ins st = Inr st' \<and>
    dispatch_request (e_kernel env) \<lparr>rc_method = meth, rc_path = path, rc_query = query, rc_content_md5 = md5, rc_body = body,
      rc_root_dir = e_root env\<rparr> w = Some (reply, w') \<and>
    (fd, send_all (e_send env fd) reply) \<in> set (sent st') \<and> fd \<in> set (closed st')"
proof -
  note line = target_of_line [OF assms(1,2)]
  obtain h where h: "http_text meth target hs body = h @ HEADER_END @ body" "header_says h (length body)"
    using http_text_header [OF line(1) assms(3-5)] by blast
  obtain c where c: "conns st fd = Some c" "add_client_to_worker (e_alloc env) True = Some c" using assms(12,13) by auto
  have "coming h body fd (visits fd ins) st"
    using c(1) new_connection_on_the_way(2,3) [OF c(2)] assms(14-16) h(1) by (simp add: coming_def)
  from run_answers [OF h(2) _ assms(7-11) this] assms(6) h(1) obtain st' w reply w' where
    "worker_thread_main env ins st = Inr st'" "process_request_buffer (e_kernel env) (e_root env) (http_text meth target hs body) w = Some (reply, w')"
    "(fd, send_all (e_send env fd) reply) \<in> set (sent st')" "fd \<in> set (closed st')"
    by (auto simp: answered_def)
  then show ?thesis unfolding process_http_text [OF line(1) assms(3,4) line(2)] by blast
qed

theorem worker_serves_http_witness:
  "\<exists>c st' md5 w reply w'. add_client_to_worker (\<lambda>_. True) True = Some c \<and>
    worker_thread_main demo_env [EpollReady [Client 7 False True]]
      (worker_start 0\<lparr>conns := [7 \<mapsto> c], socks := (\<lambda>_. [])(7 := [RData (http_text ''GET'' ''/x?y'' [] [])])\<rparr>) = Inr st' \<and>
    dispatch_request no_files \<lparr>rc_method = ''GET'', rc_path = ''/x'', rc_query = ''y'', rc_content_md5 = md5, rc_body = [],
      rc_root_dir = ''/srv''\<rparr> (w :: nat) = Some (reply, w') \<and>
    (7, send_all [10] reply) \<in> set (sent st') \<and> 7 \<in> set (closed st')"
proof -
  have "\<exists>c. add_client_to_worker (\<lambda>_. True) True = Some c"
    by (rule ensure_capacity_cases [where conn = new_connection and alloc = "\<lambda>_. True" and req = SERVER_INITIAL_REQUEST_BUFFER_SIZE])
      (auto simp: add_client_to_worker_def new_connection_def SERVER_INITIAL_REQUEST_BUFFER_SIZE_def SERVER_MAX_REQUEST_SIZE_def)
  then obtain c where c: "add_client_to_worker (\<lambda>_. True) True = Some c" by blast
  let ?t = "http_text ''GET'' ''/x?y'' [] []"
  let ?st = "worker_start 0\<lparr>conns := [7 \<mapsto> c], socks := (\<lambda>_. [])(7 := [RData ?t])\<rparr>"
  have line: "''GET'' = ''GET'' \<or> ''GET'' = ''POST''" "target_of ''/x?y'' ''/x'' ''y''" "list_all line_ok []" "announces [] (length ([] :: bytes))"
    by (simp_all add: target_of_def is_space_def announces_def LONG_MAX_def)
  have "\<not> sublist ''Content-Length:'' (''GET'' @ '' '' @ ''/x?y'' @ '' HTTP/1.1'')"
    using set_mono_sublist [of "''Content-Length:''" "''GET'' @ '' '' @ ''/x?y'' @ '' HTTP/1.1''"] by auto
  note line = line this
  have len: "length ?t < SERVER_MAX_REQUEST_SIZE" by (simp add: SERVER_MAX_REQUEST_SIZE_def http_text_def CRLF_def)
  have inv: "worker_inv ?st []"
    using new_connection_on_the_way(1) [OF c] empty_queue_rep by (simp add: worker_inv_def worker_start_def)
  have pl: "plausible demo_env [EpollReady [Client 7 False True]] ?st" by (simp add: batch_ok_def split: sum.split)
  have steady: "steady 7 [EpollReady [Client 7 False True]]" by (simp add: undisturbed_def)
  have "?t \<noteq> []" by (simp add: http_text_def)
  then have sock: "conns ?st 7 = add_client_to_worker (e_alloc demo_env) True" "conns ?st 7 \<noteq> None" "arrival (socks ?st 7)"
      "sock_bytes (socks ?st 7) = ?t" "agains (socks ?st 7) < visits 7 [EpollReady [Client 7 False True]]"
    using c by (simp_all add: demo_env_def arrival_def sock_bytes_def agains_def)
  have alloc: "\<forall>n \<le> SERVER_MAX_REQUEST_SIZE. e_alloc demo_env n" by (simp add: demo_env_def)
  have env: "e_kernel demo_env = no_files" "e_root demo_env = ''/srv''" "e_send demo_env 7 = [10]" by (simp_all add: demo_env_def)
  from worker_serves_http [OF line len alloc demo_env_answers inv pl steady sock, unfolded env] c show ?thesis by blast
qed

end
