(* ===== verification/Spec2Isabelle.thy ===== *)
theory Spec2Isabelle
  imports Verified_Write Confinement Server_Run Served
begin

text \<open>
  A verification development for http-user-filesystem: a FUSE file system whose operations are HTTP requests to a
  service that works on the files below a root directory. This theory holds the properties that span both programs.

  \<^bold>\<open>The program.\<close> \<open>src/httpfs_fuse.c\<close> turns each FUSE call into an operation of the client library \<open>src/http_client.c\<close>,
  which builds a URL and a JSON or binary body, hands them to libcurl and reads the JSON (with \<open>third_party/jsmn.h\<close>) or
  binary response. \<open>src/json_utils.c\<close> escapes texts, \<open>src/hash_utils.c\<close> computes an MD5 digest over every tenth byte. The service
  \<open>demo/service_provider/c/httpfs_server.c\<close> accepts sockets in one thread and deals them out to worker threads, which collect
  requests with \<open>epoll\<close>, dispatch them to handlers and close the sockets.

  \<^bold>\<open>Theories and sources.\<close>
  \<^item> \<open>Prelude\<close>, \<open>C_Lib\<close>: integer widths, and what the code uses of the C library (\<open>strstr\<close>, \<open>strtol\<close>, \<open>snprintf\<close>, printing of
    numbers) on character lists.
  \<^item> \<open>Json_Utils\<close>, \<open>Md5\<close>, \<open>Hash_Utils\<close>: \<open>json_utils.c\<close> and \<open>hash_utils.c\<close>, with MD5 against RFC 1321 on 32-bit words.
  \<^item> \<open>Jsmn\<close>, \<open>Json_Tree\<close>: the tokenizer on the caller's array, where an access outside the array is a result of its own;
    printed JSON documents and the tokens they give.
  \<^item> \<open>Client_Json\<close>, \<open>Client_Http\<close>, \<open>Client_Ops\<close>: \<open>http_client.c\<close>, from the token helpers to the public operations; the state is
    \<open>httpfs_client\<close>, libcurl the parameter \<open>'w runtime\<close>. \<open>Fuse_Ops\<close>: \<open>httpfs_fuse.c\<close> with its table \<open>httpfs_ops\<close>.
  \<^item> \<open>Server_Text\<close>, \<open>Server_Conn\<close>, \<open>Server_Handlers\<close>: texts, paths and responses; \<open>connection_state\<close> and \<open>handle_client_event\<close>; the
    handlers, \<open>dispatch_request\<close> and \<open>process_request_buffer\<close> over the system calls \<open>'w kernel\<close>.
  \<^item> \<open>Server_Queue\<close>, \<open>Server_Worker\<close>, \<open>Server_Main\<close>, \<open>Server_Run\<close>: the list of pending sockets on an explicit heap and the hand-over
    between two threads as a step relation; \<open>worker_thread_main\<close> over any number of connections; command lines; start, accept loop
    and shutdown with a log of everything acquired and released.
  \<^item> \<open>Exchange\<close>, \<open>Wire\<close>, \<open>Bodies\<close>, \<open>Session\<close>, \<open>Mounted\<close>, \<open>Mounted_Get\<close>, \<open>Listing\<close>, \<open>File_Store\<close>, \<open>Mounted_Data\<close>, \<open>Mounted_Run\<close>, \<open>Served\<close>:
    no code of their own; they compose the two programs. \<open>Loopback\<close> gives concrete instances of all parameters. \<open>Confinement\<close> and
    \<open>Verified_Write\<close> hold two properties of the service.

  \<^bold>\<open>Interfaces.\<close> The locale \<open>fifo\<close> is what the threads rely on in the queue; \<open>connected\<close> what the client relies on in libcurl and the
    network (requests are written with their headers and body, responses are carried back); \<open>kernel_contract\<close> and \<open>file_store\<close> what the service
    relies on in the system calls (error numbers, calls that only read, short and interrupted writes); \<open>mount\<close> and \<open>mounted_file\<close> put them together. Each is interpreted
    on the definitions of the model, the last ones with \<open>loop_runtime\<close>, which runs the service's own \<open>process_request_buffer\<close>.

  \<^bold>\<open>What is shown.\<close> Within the limits of the protocol, which are hypotheses spelled out call by call (\<open>run_fits\<close>), the mounted file system
    gives the answers and the state of the system calls on the files of the service, over every sequence of calls; reads and writes of any
    size are exact, also with interrupted and short writes; what happens outside the limits (too many entries, refused paths) is stated on its own.
    The service asks the kernel only for path texts below its root directory, apart from the type of entries that \<open>readdir\<close> reported; an
    acknowledged write was verified; requests are collected in every segmentation and among any other connections, without overrun of a
    buffer; the queue of sockets implements a list under every sequence of operations; a worker accounts for each of its sockets, and the accepting
    thread releases all it acquired except the sockets it handed over, of which those still registered at shutdown stay open (\<open>shutdown_leaves_sockets_open\<close>);
    responses fit their buffers; tokenizer, escaping, hex and digest code are correct against reference definitions. The theorems about errors describe what
    the code does where it deviates from its intention.

  \<^bold>\<open>Loops and bounds.\<close> Loops are recursive functions with a termination proof. The loops of \<open>pwrite_full\<close>, \<open>pread_full\<close>, the buffer growth and
    the list traversals are \<open>partial_function (option)\<close>, where \<open>None\<close> is a loop that does not end or an access to freed memory; that they return is proved. A
    sequence of system events is a list, so a loop over it ends with the list. Sizes in the statements are the buffer sizes of the code: a URL has fewer than 1024
    characters, a path fewer than 2047, a request fewer than 8 MiB, a response at most 512 tokens.

  \<^bold>\<open>Not modelled.\<close> libcurl, libfuse, the kernel and the allocator are parameters; symbolic links are the kernel's affair, so confinement is
    about path texts. In the client allocation is taken to succeed. The FUSE 2 variants of the wrappers, printing to the terminal and signal
    handlers (the end of the events) are left out, as are the providers in other languages, the tests and the scripts. The header and the body of a
    response, which the code sends with two calls of \<open>send_all\<close>, are one call here, so that nothing is sent after a failed \<open>send\<close>; the
    signal \<open>SIGPIPE\<close>, which a closed peer raises, is not modelled. File offsets in the digest code and positions in the tokenizer are unbounded
    numbers, which agrees with \<open>off_t\<close>, \<open>unsigned int\<close> and \<open>int\<close> below their limits; a read of a token
    behind the last one whose value has no effect is not an error of the model (\<open>next_token_index\<close>). Accepted descriptors are fresh; several
    workers share the file system through the kernel, whose calls the model takes one request at a time.
\<close>

section \<open>The mounted file system\<close>

text \<open>C1: the mounted file system refines the file system of the service. For a client whose libcurl is connected to the
  service, a sequence of FUSE calls of all kinds gives exactly the answers and leaves exactly the state of the system calls
  on the files below the root directory of the service, errors included, as long as each call keeps the limits of the protocol
  in the state in which it is made: clean paths that fit the URL, attributes only of paths without quote and backslash, directories
  that end and have at most 101 names which need no escape and fit the payload, reads and writes of at most 1 MiB, and writes that are
  not interrupted or short and are read back as written. Opening is an existence check.\<close>

theorem mount_refines_local_calls:
  assumes "mount rt wire client k root" "run_fits k root client calls w"
  shows "local_run k root calls w = Some (mount_run rt client calls w)"
  by (rule mount.refines_run [OF assms])

theorem mount_refines_local_calls_witness:
  "fst (mount_run demo_runtime demo_client
     [FuseCreate ''/old'' 0x1A4, FuseRename ''/old'' ''/notes'' 0, FuseWrite ''/notes'' ''abc'' 0, FuseTruncate ''/notes'' 2,
      FuseRead ''/notes'' 4 1, FuseGetattr ''/notes'', FuseReaddir ''/'', FuseUnlink ''/old'', FuseRmdir ''/notes'']
     (demo_world (\<lambda>_. None)\<lparr>mem_signals := 0\<rparr>)) =
   [Answer 0, Answer 0, Answer 3, Answer 0, AnswerData 1 ''b'', AnswerStat 0 (mem_stat ''ab''), AnswerNames 0 [''notes'', ''a b''],
    Answer (- 2), Answer (- 20)]"
proof -
  let ?calls = "[FuseCreate ''/old'' 0x1A4, FuseRename ''/old'' ''/notes'' 0, FuseWrite ''/notes'' ''abc'' 0, FuseTruncate ''/notes'' 2,
      FuseRead ''/notes'' 4 1, FuseGetattr ''/notes'', FuseReaddir ''/'', FuseUnlink ''/old'', FuseRmdir ''/notes'']"
  let ?w = "demo_world (\<lambda>_. None)\<lparr>mem_signals := 0\<rparr>"
  note calls = local_call_def local_stat_def local_names_def local_read_def local_write_def mem_kernel_calls mem_dir_names create_exclusive_def
    mem_update_def demo_world_def as_status_def answer_def overwrite_def numeral_2_eq_2
  have list: "listable ''/srv'' [''notes'', ''a b'']"
    by (simp add: listable_def escape_char_def SERVER_LIST_PAYLOAD_SIZE_def)
  have fits: "run_fits mem_kernel ''/srv'' demo_client ?calls ?w"
    using list demo_servable
    by (simp add: calls call_fits_def demo_base_url LONG_MIN_def LONG_MAX_def dir_fits_def write_fits_def escape_char_def)
  have "\<exists>w'. local_run mem_kernel ''/srv'' ?calls ?w =
    Some ([Answer 0, Answer 0, Answer 3, Answer 0, AnswerData 1 ''b'', AnswerStat 0 (mem_stat ''ab''), AnswerNames 0 [''notes'', ''a b''],
      Answer (- 2), Answer (- 20)], w')"
    by (simp add: calls)
  with mount_refines_local_calls [OF demo_mount.mount_axioms fits] show ?thesis by auto
qed

text \<open>C3: reading a file of the mounted directory. If the file of the service has the contents \<open>c\<close>, a read of \<open>sz\<close>
  bytes at any offset returns exactly the bytes that \<open>c\<close> has there, and their number, for any size a FUSE read can
  have, also when it takes many requests.\<close>

theorem mount_read:
  assumes "mounted_file rt wire client k root p stored handle pending_signals"
    and "stored w c" "int (off + sz) \<le> LONG_MAX" "sz < 2 ^ 31"
  shows "\<exists>w'. httpfs_read rt client p sz (int off) w = (Some (int (length (take sz (drop off c))), take sz (drop off c)), w') \<and> stored w' c"
  by (rule mounted_file.read_served [OF assms])

theorem mount_read_witness:
  "\<exists>w'. httpfs_read demo_runtime demo_client ''/notes'' 3 1 (demo_world [''/srv/notes'' \<mapsto> ''hello'']) = (Some (3, ''ell''), w')"
  using mount_read [OF demo.mounted_file_axioms, of "demo_world [''/srv/notes'' \<mapsto> ''hello'']" "''hello''" 1 3]
  by (auto simp: demo_world_def LONG_MAX_def)

text \<open>C2: writing to a file of the mounted directory. The data is stored at the offset, whatever signals interrupt the
  service and however few bytes the system stores at a time; the rest of the file is as before, and FUSE is told that
  all bytes were written.\<close>

theorem mount_write:
  assumes "mounted_file rt wire client k root p stored handle pending_signals"
    and "stored w c" "int (off + length data) \<le> LONG_MAX" "data \<noteq> []" "length data < 2 ^ 31"
  shows "\<exists>w'. httpfs_write rt client p data (int off) w = (Some (int (length data)), w') \<and> stored w' (overwrite c off data)"
  by (rule mounted_file.write_served [OF assms])

theorem mount_write_witness:
  "\<exists>w'. httpfs_write demo_runtime demo_client ''/notes'' ''LP!!!!'' 2 (demo_world [''/srv/notes'' \<mapsto> ''hello'']) = (Some 6, w') \<and>
     mem_files w' ''/srv/notes'' = Some ''heLP!!!!''"
  using mount_write [OF demo.mounted_file_axioms, of "demo_world [''/srv/notes'' \<mapsto> ''hello'']" "''hello''" 2 "''LP!!!!''"]
  by (auto simp: demo_world_def LONG_MAX_def overwrite_def)

text \<open>C4: what was written is read back. Reading the range of a successful write returns the written bytes.\<close>

theorem mount_read_back:
  assumes "mounted_file rt wire client k root p stored handle pending_signals"
    and "stored w c" "int (off + length data) \<le> LONG_MAX" "data \<noteq> []" "length data < 2 ^ 31"
  shows "\<exists>w' w''. httpfs_write rt client p data (int off) w = (Some (int (length data)), w') \<and>
    httpfs_read rt client p (length data) (int off) w' = (Some (int (length data), data), w'') \<and> stored w'' (overwrite c off data)"
  by (rule mounted_file.read_back [OF assms])

theorem mount_read_back_witness:
  "\<exists>w' w''. httpfs_write demo_runtime demo_client ''/notes'' ''abc'' 7 (demo_world [''/srv/notes'' \<mapsto> ''hello'']) = (Some 3, w') \<and>
     httpfs_read demo_runtime demo_client ''/notes'' 3 7 w' = (Some (3, ''abc''), w'')"
  using mount_read_back [OF demo.mounted_file_axioms, of "demo_world [''/srv/notes'' \<mapsto> ''hello'']" "''hello''" 7 "''abc''"]
  by (auto simp: demo_world_def LONG_MAX_def numeral_3_eq_3)

text \<open>C38: a directory with more than 101 entries cannot be listed. The service sends a complete document, but the
  client reads at most 512 tokens and gives up with \<open>EIO\<close>; no name reaches FUSE.\<close>

theorem mount_readdir_too_many:
  assumes "connected rt wire client k root" "servable root p" "length (base_url client) + 3 * length p < 1000"
    and "k_opendir k (local_path root p) w = (Inr dir, w1)" "dir_stream k (local_path root p) dir w1 es w2"
    and "listable (local_path root p) (map fst es)" "101 < length es"
  shows "httpfs_readdir rt client p filler buf w = (Some (- EIO, buf), k_closedir k dir w2)"
  unfolding httpfs_readdir_def by (rule connected.readdir_too_many [OF assms])

theorem mount_readdir_too_many_witness:
  "\<exists>w'. httpfs_readdir demo_runtime demo_client ''/'' (\<lambda>ns n. (False, ns @ [n])) []
     \<lparr>mem_files = (\<lambda>_. None), mem_names = replicate 102 ''f'', mem_open = None, mem_dir = [], mem_signals = 0\<rparr> = (Some (- EIO, []), w')"
proof -
  let ?w = "\<lparr>mem_files = (\<lambda>_. None), mem_names = replicate 102 ''f'', mem_open = None, mem_dir = [], mem_signals = 0\<rparr>"
  let ?w1 = "?w\<lparr>mem_dir := replicate 102 ''f''\<rparr>"
  have "listable ''/srv'' (replicate 102 ''f'')"
    by (simp add: listable_def escape_char_def SERVER_LIST_PAYLOAD_SIZE_def sum_list_replicate)
  moreover have "k_opendir mem_kernel ''/srv'' ?w = (Inr 5, ?w1)" by (simp add: mem_kernel_def)
  moreover have "read_names mem_kernel 5 ?w1 = Some (replicate 102 ''f'', ?w1\<lparr>mem_dir := []\<rparr>)"
    using mem_dir_names [of 5 ?w1] by simp
  then obtain es where "dir_stream mem_kernel ''/srv'' 5 ?w1 es (?w1\<lparr>mem_dir := []\<rparr>)" "map fst es = replicate 102 ''f''"
    using mem_calls.read_names_stream by blast
  moreover from this(2) have "length es = 102" by (metis length_map length_replicate)
  ultimately show ?thesis
    using mount_readdir_too_many [OF demo_connected demo_servable(3), of ?w 5 ?w1 es "?w1\<lparr>mem_dir := []\<rparr>"
      "\<lambda>ns n. (False, ns @ [n])" "[]"] by (simp add: demo_base_url)
qed

text \<open>C37: paths that are refused. A path that leaves the root directory or holds a control character other than tab,
  newline and return is answered with \<open>EINVAL\<close> when it is to be created or removed, and no system call is made. The second
  kind is a limit of the JSON reader of the service: the client sends such a character as an escape it does not know.\<close>

theorem mount_refuses:
  assumes "connected rt wire client k root" "refused root p" "length (json_escape p) < 8000" "length (base_url client) < 900"
  shows "httpfs_unlink rt client p w = (Some (- EINVAL), w) \<and> httpfs_rmdir rt client p w = (Some (- EINVAL), w) \<and>
    httpfs_create rt client p mode w = (Some (- EINVAL), w) \<and> httpfs_mkdir rt client p mode w = (Some (- EINVAL), w)"
  using connected.refused_served [OF assms] by simp

theorem mount_refuses_witness:
  "httpfs_unlink demo_runtime demo_client ''/a/../../etc'' (demo_world (\<lambda>_. None)) = (Some (- EINVAL), demo_world (\<lambda>_. None)) \<and>
   httpfs_create demo_runtime demo_client [CHR ''/'', CHR 0x07] 0x1A4 (demo_world (\<lambda>_. None)) = (Some (- EINVAL), demo_world (\<lambda>_. None))"
proof -
  have "refused ''/srv'' ''/a/../../etc''" by (simp add: refused_def plain_text_def json_simple_def resolve_path_def)
  moreover have "refused ''/srv'' [CHR ''/'', CHR 0x07]" by (simp add: refused_def json_simple_def)
  ultimately show ?thesis
    using mount_refuses [OF demo_connected, of "''/a/../../etc''"]
      mount_refuses [OF demo_connected, of "[CHR ''/'', CHR 0x07]"]
    by (simp add: demo_base_url escape_char_def unicode_escape_def)
qed

text \<open>C29: a directory listing is complete or refused. When the directory can be opened and ends, the service answers a list
  request with an error, or with the whole JSON document of all names that \<open>readdir\<close> gave, in their order, with their types, and with the
  directory closed: a payload that does not fit its buffer is never sent in part. It is the document whenever the names and their paths fit
  their buffers and the payload.\<close>

theorem list_reply_complete:
  assumes "query_value (rc_query ctx) ''path'' 2048 = Some p" "resolve_path (rc_root_dir ctx) p 4096 = Some path"
    and "k_opendir k path w = (Inr dir, w1)" "dir_stream k path dir w1 es w2"
  shows "((\<exists>e m w'. handle_list k ctx w = Some (send_error_json e m, w')) \<or>
      handle_list k ctx w = Some (send_ok (jprint (list_doc (map (apfst json_escape) es))), k_closedir k dir w2)) \<and>
    (listable path (map fst es) \<longrightarrow>
      handle_list k ctx w = Some (send_ok (jprint (list_doc (map (apfst json_escape) es))), k_closedir k dir w2))"
  using handle_list_replies [OF assms] handle_list_served [OF _ assms(3,4,1,2)] by blast

theorem list_reply_complete_witness:
  "handle_list mem_kernel \<lparr>rc_method = ''GET'', rc_path = ''/v1/list'', rc_query = ''path=/notes'', rc_content_md5 = [], rc_body = [],
      rc_root_dir = ''/srv''\<rparr> (demo_world (\<lambda>_. None)) =
     Some (send_ok (jprint (list_doc [(''notes'', ''file''), (''a b'', ''file'')])), demo_world (\<lambda>_. None))"
proof -
  let ?w = "demo_world (\<lambda>_. None)" and ?ctx = "\<lparr>rc_method = ''GET'', rc_path = ''/v1/list'', rc_query = ''path=/notes'', rc_content_md5 = [],
    rc_body = [], rc_root_dir = ''/srv''\<rparr>"
  have rd: "k_readdir mem_kernel 5 (?w\<lparr>mem_dir := n # ns\<rparr>) = (Some n, ?w\<lparr>mem_dir := ns\<rparr>)"
      "k_lstat mem_kernel path (?w\<lparr>mem_dir := ns\<rparr>) = (Inl 2, ?w\<lparr>mem_dir := ns\<rparr>)"
      "k_readdir mem_kernel 5 ?w = (None, ?w)" for n ns path
    by (simp_all add: mem_kernel_def demo_world_def)
  have "?w = ?w\<lparr>mem_dir := []\<rparr>" by (simp add: demo_world_def)
  then have "dir_stream mem_kernel ''/srv/notes'' 5 (?w\<lparr>mem_dir := [''notes'', ''a b'']\<rparr>)
      [(''notes'', list_type (Inl 2)), (''a b'', list_type (Inl 2))] ?w"
    using rd(3) by (intro dir_stream.entry [OF rd(1) rd(2)] dir_stream.stop) simp
  moreover have "listable ''/srv/notes'' [''notes'', ''a b'']"
    by (simp add: listable_def escape_char_def SERVER_LIST_PAYLOAD_SIZE_def)
  moreover have "k_opendir mem_kernel ''/srv/notes'' ?w = (Inr 5, ?w\<lparr>mem_dir := [''notes'', ''a b'']\<rparr>)"
    "k_closedir mem_kernel 5 ?w = ?w" by (simp_all add: mem_kernel_def demo_world_def)
  moreover have "query_value (rc_query ?ctx) ''path'' 2048 = Some ''/notes''" "resolve_path (rc_root_dir ?ctx) ''/notes'' 4096 = Some ''/srv/notes''"
    by (simp_all add: query_value.simps url_decode_def c_str_def resolve_path_def snprintf_def)
  ultimately show ?thesis
    using list_reply_complete [of ?ctx "''/notes''" "''/srv/notes''" mem_kernel ?w 5 "?w\<lparr>mem_dir := [''notes'', ''a b'']\<rparr>"
      "[(''notes'', list_type (Inl 2)), (''a b'', list_type (Inl 2))]" ?w]
    by (simp add: list_type_def escape_char_def)
qed

end
